(* ===== verification/Quic_Prelude.thy ===== *)
theory Quic_Prelude
  imports Main "HOL-Library.Word"
begin

text \<open>
  Shared vocabulary of the development: the names of the machine types, byte buffers and their
  big-endian readings, the panicking writer (\<open>None\<close> is a Rust panic), result-returning parsers
  (\<open>Inl\<close> is an \<open>Err\<close>), the integer operations of the Rust standard library the sources use
  (saturating, checked and wrapping), and the generic lemmas the components share.

  \<^item> \<open>u8\<close> is \<open>8 word\<close>; wider unsigned integers are naturals, whose width is written out
    wherever the code truncates, saturates, checks or could overflow.
  \<^item> A receive buffer (\<open>bytes::Buf\<close>) is the list of its remaining bytes; reading from it returns
    the value and the remaining list.
  \<^item> A send buffer (\<open>bytes::BufMut\<close>) is modelled by the list of bytes that is appended to it.
\<close>

unbundle bit_operations_syntax

named_theorems codec_simps \<open>unfolding rules of the wire encoders and decoders\<close>
named_theorems inv_intros \<open>invariant preservation, one rule per operation\<close>

section \<open>Machine types\<close>

type_synonym u8 = "8 word"
type_synonym bytes = "u8 list"
type_synonym packet_writer = "bytes option"
type_synonym ('e, 'a) parser = "bytes \<Rightarrow> 'e + ('a \<times> bytes)"
type_synonym 'a coding_parser = "bytes \<Rightarrow> ('a \<times> bytes) option"
type_synonym urange = "nat \<times> nat"

abbreviation (input) u32_max :: nat where "u32_max \<equiv> 4294967295"
abbreviation (input) u64_max :: nat where "u64_max \<equiv> 18446744073709551615"

text \<open>
  \<open>u64::saturating_add\<close>, \<open>u64::saturating_sub\<close>, \<open>u64::checked_add\<close>, \<open>u64::checked_sub\<close> and
  \<open>u64::wrapping_add\<close> (and \<open>-\<close> as a release build computes it) on the natural numbers below \<open>2^64\<close>.
\<close>

definition saturating_add :: "nat \<Rightarrow> nat \<Rightarrow> nat" where
  "saturating_add a b = min (a + b) u64_max"

definition saturating_sub :: "nat \<Rightarrow> nat \<Rightarrow> nat" where
  "saturating_sub a b = (if b \<le> a then a - b else 0)"

definition checked_add :: "nat \<Rightarrow> nat \<Rightarrow> nat option" where
  "checked_add a b = (if a + b \<le> u64_max then Some (a + b) else None)"

definition checked_sub :: "nat \<Rightarrow> nat \<Rightarrow> nat option" where
  "checked_sub a b = (if b \<le> a then Some (a - b) else None)"

definition wrapping_add :: "nat \<Rightarrow> nat \<Rightarrow> nat" where
  "wrapping_add a b = (a + b) mod 2 ^ 64"

definition wrapping_sub :: "nat \<Rightarrow> nat \<Rightarrow> nat" where
  "wrapping_sub a b = (if b \<le> a then a - b else (a + 2 ^ 64 - b) mod 2 ^ 64)"

lemma wrapping_sub_le [simp]: "b \<le> a \<Longrightarrow> wrapping_sub a b = a - b"
  by (simp add: wrapping_sub_def)

lemma saturating_sub_minus [simp]: "saturating_sub a b = a - b"
  by (simp add: saturating_sub_def)

lemma checked_sub_Some_iff [simp]: "checked_sub a b = Some c \<longleftrightarrow> b \<le> a \<and> c = a - b"
  by (auto simp: checked_sub_def)

lemma checked_sub_None_iff [simp]: "checked_sub a b = None \<longleftrightarrow> a < b"
  by (simp add: checked_sub_def)

lemma checked_add_Some_iff [simp]: "checked_add a b = Some c \<longleftrightarrow> a + b \<le> u64_max \<and> c = a + b"
  by (auto simp: checked_add_def)

lemma checked_add_None_iff [simp]: "checked_add a b = None \<longleftrightarrow> u64_max < a + b"
  by (auto simp: checked_add_def)

section \<open>Big-endian integers\<close>

text \<open>The values of a \<open>k\<close>-byte unsigned integer.\<close>

definition fits :: "nat \<Rightarrow> nat \<Rightarrow> bool" where
  "fits k x \<longleftrightarrow> x < 256 ^ k"

text \<open>
  \<open>be_bytes k x\<close> is \<open>x.to_be_bytes()\<close> of a \<open>k\<close>-byte unsigned integer (\<open>x\<close> is reduced modulo
  \<open>256^k\<close>, as an \<open>as\<close> cast does); \<open>be_val\<close> is \<open>from_be_bytes\<close>.
\<close>

fun be_bytes :: "nat \<Rightarrow> nat \<Rightarrow> bytes" where
  "be_bytes 0 x = []"
| "be_bytes (Suc k) x = be_bytes k (x div 256) @ [of_nat (x mod 256)]"

definition be_val :: "bytes \<Rightarrow> nat" where
  "be_val bs = foldl (\<lambda>acc b. acc * 256 + unat b) 0 bs"

lemma length_be_bytes [simp]: "length (be_bytes k x) = k"
  by (induction k arbitrary: x) auto

lemma be_val_Nil [simp]: "be_val [] = 0"
  by (simp add: be_val_def)

lemma be_val_snoc [simp]: "be_val (bs @ [b]) = be_val bs * 256 + unat b"
  by (simp add: be_val_def)

lemma unat_of_nat_byte [simp]: "unat (of_nat (x mod 256) :: u8) = x mod 256"
  by (simp add: unat_of_nat)

lemma unat_u8_lt: "unat (b :: u8) < 256"
  using unsigned_less [of b, where ?'a = nat] by simp

lemma be_val_be_bytes: "be_val (be_bytes k x) = x mod 256 ^ k"
proof (induction k arbitrary: x)
  case 0
  show ?case by simp
next
  case (Suc k)
  have "x mod 256 ^ Suc k = (x div 256) mod 256 ^ k * 256 + x mod 256"
    by (simp add: mod_mult2_eq mult.commute)
  then show ?case using Suc.IH by simp
qed

lemma be_val_less: "be_val bs < 256 ^ length bs"
proof (induction bs rule: rev_induct)
  case Nil
  show ?case by simp
next
  case (snoc b bs)
  have "be_val bs * 256 + unat b < be_val bs * 256 + 256"
    using unat_u8_lt by simp
  also have "\<dots> = (be_val bs + 1) * 256" by simp
  also have "\<dots> \<le> 256 ^ length bs * 256"
    using snoc.IH by (intro mult_le_mono1) simp
  finally show ?case by simp
qed

lemma be_bytes_be_val: "be_bytes (length bs) (be_val bs) = bs"
proof (induction bs rule: rev_induct)
  case Nil
  show ?case by simp
next
  case (snoc b bs)
  have "(be_val bs * 256 + unat b) div 256 = be_val bs"
    and "(be_val bs * 256 + unat b) mod 256 = unat b"
    using unat_u8_lt [of b] by (simp_all add: div_add1_eq mod_add_eq)
  then show ?case using snoc.IH by simp
qed

text \<open>Bit fields of naturals: an \<open>OR\<close> of a multiple of \<open>2^k\<close> with a value below \<open>2^k\<close> is a sum.\<close>

lemma nat_not_bit: "(x :: nat) < 2 ^ n \<Longrightarrow> \<not> bit x n"
  by (simp add: bit_iff_odd)

lemma nat_bit_less: "bit (x :: nat) n \<Longrightarrow> x < 2 ^ k \<Longrightarrow> n < k"
  by (meson leI nat_not_bit order_less_le_trans one_le_numeral power_increasing)

lemma nat_or_add:
  assumes "(t :: nat) < 2 ^ k"
  shows "q * 2 ^ k OR t = q * 2 ^ k + t"
proof -
  have "q * 2 ^ k AND t = 0"
  proof (rule bit_eqI)
    fix n
    show "bit (q * 2 ^ k AND t) n = bit (0 :: nat) n"
      using nat_bit_less [OF _ assms, of n]
      by (auto simp: push_bit_eq_mult [symmetric] bit_simps)
  qed
  then show ?thesis by (simp add: disjunctive_add_eq_or)
qed

text \<open>\<open>x & !mask\<close> on \<open>u64\<close> clears the low \<open>k\<close> bits.\<close>

lemma nat_clear_low_bits:
  assumes "(x :: nat) < 2 ^ 64" and "k \<le> 64"
  shows "x AND (2 ^ 64 - 2 ^ k) = x div 2 ^ k * 2 ^ k"
proof -
  have "(2 ^ 64 - 2 ^ k :: nat) = push_bit k (mask (64 - k))"
    using assms(2) by (simp add: push_bit_eq_mult mask_eq_exp_minus_1 diff_mult_distrib
        power_add [symmetric])
  moreover have "x div 2 ^ k * 2 ^ k = push_bit k (drop_bit k x)"
    by (simp add: push_bit_eq_mult drop_bit_eq_div)
  moreover have "x AND push_bit k (mask (64 - k)) = push_bit k (drop_bit k x)"
    using nat_bit_less [OF _ assms(1)] by (auto simp: bit_eq_iff bit_simps intro: diff_less_mono)
  ultimately show ?thesis by simp
qed

section \<open>Writers and parsers\<close>

text \<open>
  A writer is \<open>Some bs\<close> when it appends \<open>bs\<close>, and \<open>None\<close> when it panics; \<open>wcat\<close> runs the writes of a
  function body in order.
\<close>

fun wcat :: "packet_writer list \<Rightarrow> packet_writer" where
  "wcat [] = Some []"
| "wcat (w # ws) = (case w of None \<Rightarrow> None | Some x \<Rightarrow> map_option (\<lambda>y. x @ y) (wcat ws))"

text \<open>
  Parsers with the error type of the caller. \<open>pbind\<close> is the \<open>?\<close> operator; \<open>ptry e\<close> is a
  \<open>coding::Result\<close> parser whose only error \<open>UnexpectedEnd\<close> is converted by \<open>From\<close> to \<open>e\<close>.
\<close>

definition preturn :: "'a \<Rightarrow> ('e, 'a) parser" where
  "preturn x = (\<lambda>bs. Inr (x, bs))"

definition pfail :: "'e \<Rightarrow> ('e, 'a) parser" where
  "pfail e = (\<lambda>bs. Inl e)"

definition pbind :: "('e, 'a) parser \<Rightarrow> ('a \<Rightarrow> ('e, 'b) parser) \<Rightarrow> ('e, 'b) parser" where
  "pbind p f = (\<lambda>bs. case p bs of Inl e \<Rightarrow> Inl e | Inr (x, rest) \<Rightarrow> f x rest)"

definition ptry :: "'e \<Rightarrow> 'a coding_parser \<Rightarrow> ('e, 'a) parser" where
  "ptry e p = (\<lambda>bs. case p bs of None \<Rightarrow> Inl e | Some r \<Rightarrow> Inr r)"

lemma preturn_apply [simp, codec_simps]: "preturn x bs = Inr (x, bs)"
  by (simp add: preturn_def)

lemma pfail_apply [simp, codec_simps]: "pfail e bs = Inl e"
  by (simp add: pfail_def)

lemma ptry_Some [simp, codec_simps]: "p bs = Some r \<Longrightarrow> ptry e p bs = Inr r"
  by (simp add: ptry_def)

lemma pbind_Inr [simp, codec_simps]: "p bs = Inr (x, rest) \<Longrightarrow> pbind p f bs = f x rest"
  by (simp add: pbind_def)

lemma pbind_Inl [simp, codec_simps]: "p bs = Inl e \<Longrightarrow> pbind p f bs = Inl e"
  by (simp add: pbind_def)

lemma pbind_InrE:
  assumes "pbind p f bs = Inr r"
  obtains x rest where "p bs = Inr (x, rest)" and "f x rest = Inr r"
  using assms by (auto simp: pbind_def split: sum.splits)

lemma ptry_InrE:
  assumes "ptry e p bs = Inr r"
  obtains "p bs = Some r"
  using assms by (auto simp: ptry_def split: option.splits)

lemma wcat_Some_Cons:
  "wcat (Some x # ws) = Some z \<longleftrightarrow> (\<exists>y. wcat ws = Some y \<and> z = x @ y)"
  by auto

lemma wcat_append:
  "wcat (ws @ vs) = (case wcat ws of None \<Rightarrow> None | Some x \<Rightarrow> map_option (\<lambda>y. x @ y) (wcat vs))"
  by (induction ws; cases "wcat vs") (auto split: option.splits)

text \<open>Taking \<open>n\<close> bytes off the buffer (\<open>copy_to_slice\<close>, \<open>split_to\<close>) behind a length check.\<close>

definition take_bytes :: "nat \<Rightarrow> bytes coding_parser" where
  "take_bytes n bs = (if length bs < n then None else Some (take n bs, drop n bs))"

lemma take_bytes_append [simp]: "length xs = n \<Longrightarrow> take_bytes n (xs @ rest) = Some (xs, rest)"
  by (simp add: take_bytes_def)

lemma take_bytes_Some_iff:
  "take_bytes n bs = Some (xs, rest) \<longleftrightarrow> length xs = n \<and> bs = xs @ rest"
  by (auto simp: take_bytes_def)

section \<open>Streams of bytes\<close>

text \<open>The \<open>n\<close> bytes at offset \<open>off\<close> of a stream \<open>S\<close>.\<close>

definition slice :: "(nat \<Rightarrow> u8) \<Rightarrow> nat \<Rightarrow> nat \<Rightarrow> bytes" where
  "slice S off n = map S [off..<off + n]"

lemma length_slice [simp]: "length (slice S off n) = n"
  by (simp add: slice_def)

lemma slice_0 [simp]: "slice S off 0 = []"
  by (simp add: slice_def)

lemma slice_empty_iff [simp]: "slice S off n = [] \<longleftrightarrow> n = 0"
  by (auto simp: slice_def)

lemma take_slice [simp]: "take k (slice S off n) = slice S off (min k n)"
  by (cases "k \<le> n") (simp_all add: slice_def take_map)

lemma drop_slice [simp]: "drop k (slice S off n) = slice S (off + k) (n - k)"
  by (cases "k \<le> n") (simp_all add: slice_def drop_map)

lemma slice_append: "slice S off n @ slice S (off + n) m = slice S off (n + m)"
  using upt_add_eq_append [of off "off + n" m] by (simp add: slice_def add.assoc flip: map_append)

end
