(* ===== verification/Range_Set.thy ===== *)
theory Range_Set
  imports Quic_Prelude
begin

text \<open>
  \<open>quic-proto/src/range_set/\<close>: sets of \<open>u64\<close> values kept as ranges. \<open>ArrayRangeSet\<close> is a vector of
  ranges, \<open>RangeSet\<close> a \<open>BTreeMap\<close> from range starts to range ends; both are modelled by the list of
  their \<open>(start, end)\<close> pairs in order. The locale \<open>range_set\<close> is the contract the two share (the
  sources run one test suite against both), the interpretations show that each implements it.
\<close>

section \<open>The abstract set and the representation invariant\<close>

definition rs_set :: "urange list \<Rightarrow> nat set" where
  "rs_set rs = (\<Union>(s, e) \<in> set rs. {s..<e})"

text \<open>
  Ranges are not empty, in order, and separated by gaps: "\<open>RangeSet\<close> is guaranteed not to contain
  pairs of ranges that could be simplified".
\<close>

definition rs_inv :: "urange list \<Rightarrow> bool" where
  "rs_inv rs \<longleftrightarrow> (\<forall>(s, e) \<in> set rs. s < e) \<and> sorted_wrt (\<lambda>(s, e) (s', e'). e < s') rs"

lemma rs_set_Nil [simp]: "rs_set [] = {}"
  by (simp add: rs_set_def)

lemma rs_set_Cons [simp]: "rs_set ((s, e) # rs) = {s..<e} \<union> rs_set rs"
  by (simp add: rs_set_def)

lemma rs_set_append [simp]: "rs_set (xs @ ys) = rs_set xs \<union> rs_set ys"
  by (auto simp: rs_set_def)

lemma rs_inv_Nil [simp]: "rs_inv []"
  by (simp add: rs_inv_def)

lemma rs_inv_Cons [simp]:
  "rs_inv ((s, e) # rs) \<longleftrightarrow> s < e \<and> (\<forall>(s', e') \<in> set rs. e < s') \<and> rs_inv rs"
  by (auto simp: rs_inv_def)

lemma rs_inv_append:
  "rs_inv (xs @ ys) \<longleftrightarrow> rs_inv xs \<and> rs_inv ys \<and> (\<forall>(s, e) \<in> set xs. \<forall>(s', e') \<in> set ys. e < s')"
  by (auto simp: rs_inv_def sorted_wrt_append)

lemma rs_set_iff: "x \<in> rs_set rs \<longleftrightarrow> (\<exists>s e. (s, e) \<in> set rs \<and> s \<le> x \<and> x < e)"
  by (fastforce simp: rs_set_def)

lemma rs_inv_nonempty: "rs_inv rs \<Longrightarrow> (s, e) \<in> set rs \<Longrightarrow> s < e"
  by (auto simp: rs_inv_def)

lemma rs_set_above:
  "\<forall>(s', e') \<in> set rs. e < s' \<Longrightarrow> x \<in> rs_set rs \<Longrightarrow> e < x"
  by (fastforce simp: rs_set_iff)

lemma finite_rs_set [simp]: "finite (rs_set rs)"
  by (auto simp: rs_set_def)

lemma rs_set_empty_iff: "rs_inv rs \<Longrightarrow> rs_set rs = {} \<longleftrightarrow> rs = []"
  by (cases rs) auto

text \<open>A representation is determined by its set: the invariant makes it canonical.\<close>

lemma rs_Cons_bounds:
  assumes "rs_inv ((s, e) # rs)"
  shows "x \<in> rs_set ((s, e) # rs) \<Longrightarrow> s \<le> x" and "e \<notin> rs_set ((s, e) # rs)"
    and "rs_set rs = rs_set ((s, e) # rs) - {..e}"
  using assms rs_set_above [of rs e] by fastforce+

lemma rs_Cons_determined:
  assumes "rs_inv ((s, e) # xs)" and "rs_inv ((s', e') # ys)"
    and "rs_set ((s, e) # xs) = rs_set ((s', e') # ys)"
  shows "s = s' \<and> e = e'"
proof -
  have mem: "s \<in> rs_set ((s, e) # xs)" "s' \<in> rs_set ((s', e') # ys)" using assms by auto
  then have "s = s'" using rs_Cons_bounds(1) [OF assms(1)] rs_Cons_bounds(1) [OF assms(2)] assms(3)
    by (metis antisym)
  moreover have "\<not> e < e'" and "\<not> e' < e"
    using rs_Cons_bounds(2) [OF assms(1)] rs_Cons_bounds(2) [OF assms(2)] assms \<open>s = s'\<close> by auto
  ultimately show ?thesis by simp
qed

lemma rs_canonical: "rs_inv xs \<Longrightarrow> rs_inv ys \<Longrightarrow> rs_set xs = rs_set ys \<Longrightarrow> xs = ys"
proof (induction xs arbitrary: ys)
  case Nil
  then show ?case using rs_set_empty_iff [of ys] by simp
next
  case (Cons x xs)
  obtain s e where x: "x = (s, e)" by (cases x)
  from Cons.prems x have "rs_set ys \<noteq> {}" by auto
  then obtain s' e' ys' where ys: "ys = (s', e') # ys'"
    by (metis rs_set_Nil neq_Nil_conv surj_pair)
  have se: "s' = s" "e' = e"
    using rs_Cons_determined [of s e xs s' e' ys'] Cons.prems x ys by auto
  have "rs_set xs = rs_set ys'"
    using rs_Cons_bounds(3) [of s e xs] rs_Cons_bounds(3) [of s e ys'] Cons.prems x ys se by simp
  with Cons x ys se show ?case by simp
qed

section \<open>The contract\<close>

locale range_set =
  fixes insert :: "urange \<Rightarrow> urange list \<Rightarrow> urange list \<times> bool"
    and remove :: "urange \<Rightarrow> urange list \<Rightarrow> urange list \<times> bool"
  assumes insert_inv: "rs_inv rs \<Longrightarrow> rs_inv (fst (insert x rs))"
    and insert_set: "rs_inv rs \<Longrightarrow> rs_set (fst (insert (s, e) rs)) = rs_set rs \<union> {s..<e}"
    and insert_changed: "rs_inv rs \<Longrightarrow> snd (insert (s, e) rs) \<longleftrightarrow> \<not> {s..<e} \<subseteq> rs_set rs"
    and remove_inv: "rs_inv rs \<Longrightarrow> rs_inv (fst (remove x rs))"
    and remove_set: "rs_inv rs \<Longrightarrow> rs_set (fst (remove (s, e) rs)) = rs_set rs - {s..<e}"
    and remove_changed: "rs_inv rs \<Longrightarrow> snd (remove (s, e) rs) \<longleftrightarrow> {s..<e} \<inter> rs_set rs \<noteq> {}"
begin

definition add :: "urange list \<Rightarrow> urange list \<Rightarrow> urange list" where
  "add rs other = foldl (\<lambda>acc x. fst (insert x acc)) rs other"

definition subtract :: "urange list \<Rightarrow> urange list \<Rightarrow> urange list" where
  "subtract rs other = foldl (\<lambda>acc x. fst (remove x acc)) rs other"

lemma add_correct: "rs_inv rs \<Longrightarrow> rs_inv (add rs xs) \<and> rs_set (add rs xs) = rs_set rs \<union> rs_set xs"
  unfolding add_def
  by (induction xs arbitrary: rs) (auto simp: insert_inv insert_set)

lemma subtract_correct:
  "rs_inv rs \<Longrightarrow> rs_inv (subtract rs xs) \<and> rs_set (subtract rs xs) = rs_set rs - rs_set xs"
  unfolding subtract_def
  by (induction xs arbitrary: rs) (auto simp: remove_inv remove_set)

lemma insert_commute:
  assumes "rs_inv rs"
  shows "fst (insert x (fst (insert y rs))) = fst (insert y (fst (insert x rs)))"
  by (cases x, cases y) (auto intro!: rs_canonical simp: assms insert_inv insert_set)

lemma remove_insert:
  assumes "rs_inv rs" and "{s..<e} \<inter> rs_set rs = {}"
  shows "fst (remove (s, e) (fst (insert (s, e) rs))) = rs"
  by (rule rs_canonical) (use assms in \<open>auto simp: insert_inv insert_set remove_inv remove_set\<close>)

lemma insert_unchanged: "rs_inv rs \<Longrightarrow> \<not> snd (insert x rs) \<Longrightarrow> fst (insert x rs) = rs"
  by (cases x) (auto intro!: rs_canonical simp: insert_inv insert_set insert_changed)

lemma remove_unchanged: "rs_inv rs \<Longrightarrow> \<not> snd (remove x rs) \<Longrightarrow> fst (remove x rs) = rs"
  by (cases x) (auto intro!: rs_canonical simp: remove_inv remove_set remove_changed)

end

section \<open>\<open>ArrayRangeSet\<close>\<close>

text \<open>
  The loops walk the vector by index and update it in place; in the model the prefix that the index
  has passed is the part of the list the recursion has rebuilt.
\<close>

text \<open>The inner loop of \<open>insert\<close>: merge all follow-up ranges that overlap the range at \<open>idx\<close>.\<close>

fun ars_merge :: "urange \<Rightarrow> urange list \<Rightarrow> urange list" where
  "ars_merge (cs, ce) [] = [(cs, ce)]"
| "ars_merge (cs, ce) ((ns, ne) # rest) =
     (if ns \<le> ce then ars_merge (cs, max ne ce) rest else (cs, ce) # (ns, ne) # rest)"

fun ars_insert_loop :: "urange \<Rightarrow> bool \<Rightarrow> urange list \<Rightarrow> urange list \<times> bool" where
  "ars_insert_loop (xs, xe) result [] = ([(xs, xe)], True)"
| "ars_insert_loop (xs, xe) result ((s, e) # rest) =
     (if xe < s then ((xs, xe) # (s, e) # rest, True)
      else
        let (s', result') = (if xs < s then (xs, True) else (s, result)) in
        if xe \<le> e then ((s', e) # rest, result')
        else if xs \<le> e then (ars_merge (s', xe) rest, True)
        else let (rest', r) = ars_insert_loop (xs, xe) result' rest in ((s', e) # rest', r))"

definition ars_insert :: "urange \<Rightarrow> urange list \<Rightarrow> urange list \<times> bool" where
  "ars_insert x rs = (if snd x \<le> fst x then (rs, False) else ars_insert_loop x False rs)"

text \<open>
  \<open>x + 1\<close> wraps in a release build (and panics in a debug build): \<open>u64::MAX\<close> then makes an empty range.
\<close>

definition ars_insert_one :: "nat \<Rightarrow> urange list \<Rightarrow> urange list \<times> bool" where
  "ars_insert_one x rs = ars_insert (x, wrapping_add x 1) rs"

fun ars_remove_loop :: "urange \<Rightarrow> bool \<Rightarrow> urange list \<Rightarrow> urange list \<times> bool" where
  "ars_remove_loop (xs, xe) result [] = ([], result)"
| "ars_remove_loop (xs, xe) result ((s, e) # rest) =
     (if xs = xe then ((s, e) # rest, result)
      else if xe \<le> s then ((s, e) # rest, result)
      else if e \<le> xs then
        let (rest', r) = ars_remove_loop (xs, xe) result rest in ((s, e) # rest', r)
      else
        let left_empty = (xs \<le> s); right_empty = (e \<le> xe);
            (rest', r) = ars_remove_loop (xs, xe) True rest in
        ((if left_empty \<and> right_empty then []
          else if left_empty then [(xe, e)]
          else if right_empty then [(s, xs)]
          else [(s, xs), (xe, e)]) @ rest', r))"

definition ars_remove :: "urange \<Rightarrow> urange list \<Rightarrow> urange list \<times> bool" where
  "ars_remove x rs = (if snd x \<le> fst x then (rs, False) else ars_remove_loop x False rs)"

fun ars_contains :: "nat \<Rightarrow> urange list \<Rightarrow> bool" where
  "ars_contains x [] = False"
| "ars_contains x ((s, e) # rest) =
     (if x < s then False else if s \<le> x \<and> x < e then True else ars_contains x rest)"

definition ars_pop_min :: "urange list \<Rightarrow> urange option \<times> urange list" where
  "ars_pop_min rs = (case rs of [] \<Rightarrow> (None, []) | r # rest \<Rightarrow> (Some r, rest))"

definition ars_min :: "urange list \<Rightarrow> nat option" where
  "ars_min rs = (case rs of [] \<Rightarrow> None | (s, e) # _ \<Rightarrow> Some s)"

definition ars_max :: "urange list \<Rightarrow> nat option" where
  "ars_max rs = (if rs = [] then None else Some (snd (last rs) - 1))"

definition ars_elts :: "urange list \<Rightarrow> nat list" where
  "ars_elts rs = concat (map (\<lambda>(s, e). [s..<e]) rs)"

subsection \<open>It implements the contract\<close>

lemma ars_merge_set:
  "cs < ce \<Longrightarrow> rs_inv rest \<Longrightarrow> \<forall>(s, e) \<in> set rest. cs \<le> s \<Longrightarrow>
   rs_set (ars_merge (cs, ce) rest) = {cs..<ce} \<union> rs_set rest"
proof (induction "(cs, ce)" rest arbitrary: ce rule: ars_merge.induct)
  case (2 ce ns ne rest)
  then have "{cs..<max ne ce} = {cs..<ce} \<union> {ns..<ne}" if "ns \<le> ce"
    using that by auto
  with 2 show ?case by (auto simp: Un_assoc)
qed auto

lemma ars_merge_above:
  "l < cs \<Longrightarrow> \<forall>(s, e) \<in> set rest. l < s \<Longrightarrow> \<forall>(s, e) \<in> set (ars_merge (cs, ce) rest). l < s"
  by (induction "(cs, ce)" rest arbitrary: ce rule: ars_merge.induct) auto

lemma ars_merge_inv: "cs < ce \<Longrightarrow> rs_inv rest \<Longrightarrow> rs_inv (ars_merge (cs, ce) rest)"
  by (induction "(cs, ce)" rest arbitrary: ce rule: ars_merge.induct) auto

lemma ars_insert_loop_Cons:
  assumes "xs < xe" and "s < e"
  shows "ars_insert_loop (xs, xe) r ((s, e) # rest) =
     (if xe < s then ((xs, xe) # (s, e) # rest, True)
      else if xe \<le> e then ((min xs s, e) # rest, r \<or> xs < s)
      else if xs \<le> e then (ars_merge (min xs s, xe) rest, True)
      else ((s, e) # fst (ars_insert_loop (xs, xe) r rest), snd (ars_insert_loop (xs, xe) r rest)))"
  using assms by (auto simp: Let_def case_prod_beta min_def)

declare ars_insert_loop.simps(2) [simp del]

lemma ars_insert_loop_above:
  assumes "xs < xe" and "l < xs"
  shows "\<forall>(s, e) \<in> set rs. s < e \<and> l < s \<Longrightarrow>
    \<forall>(s, e) \<in> set (fst (ars_insert_loop (xs, xe) r rs)). l < s"
proof (induction rs)
  case (Cons x rs)
  obtain s e where x: "x = (s, e)" by (cases x)
  have "\<forall>(s, e) \<in> set (ars_merge (min xs s, xe) rs). l < s"
    using Cons.prems assms x by (intro ars_merge_above) auto
  with Cons x assms show ?case by (simp add: ars_insert_loop_Cons) fast
qed (use assms in simp)

lemma ars_insert_loop_inv:
  assumes "xs < xe"
  shows "rs_inv rs \<Longrightarrow> rs_inv (fst (ars_insert_loop (xs, xe) r rs))"
proof (induction rs)
  case (Cons x rs)
  obtain s e where x: "x = (s, e)" by (cases x)
  have "\<forall>(s, e) \<in> set (fst (ars_insert_loop (xs, xe) r rs)). e' < s"
    if "e' < xs" "\<forall>(s', _) \<in> set rs. e' < s'" for e'
    using that Cons.prems x assms
    by (intro ars_insert_loop_above) (auto simp: x dest: rs_inv_nonempty)
  with Cons x assms show ?case by (simp add: ars_insert_loop_Cons ars_merge_inv) fastforce
qed (use assms in simp)

lemma ars_insert_loop_set:
  assumes "xs < xe"
  shows "rs_inv rs \<Longrightarrow> rs_set (fst (ars_insert_loop (xs, xe) r rs)) = rs_set rs \<union> {xs..<xe}"
proof (induction rs)
  case (Cons x rs)
  obtain s e where x: "x = (s, e)" by (cases x)
  have "\<forall>(s', e') \<in> set rs. min xs s \<le> s'" using Cons.prems x by fastforce
  then have "rs_set (ars_merge (min xs s, xe) rs) = {min xs s..<xe} \<union> rs_set rs"
    using Cons.prems x assms by (intro ars_merge_set) auto
  with Cons x assms show ?case by (auto simp: ars_insert_loop_Cons min_def split: if_splits)
qed (use assms in simp)

lemma ars_insert_loop_changed:
  assumes "xs < xe"
  shows "rs_inv rs \<Longrightarrow> snd (ars_insert_loop (xs, xe) r rs) = (r \<or> \<not> {xs..<xe} \<subseteq> rs_set rs)"
proof (induction rs)
  case (Cons x rs)
  obtain s e where x: "x = (s, e)" by (cases x)
  then have inv: "rs_inv ((s, e) # rs)" using Cons.prems by simp
  from assms have ends: "xs \<in> {xs..<xe}" by simp
  consider "xs < s" | "s \<le> xs" "xe \<le> e" | "s \<le> xs" "xs \<le> e" "e < xe" | "s \<le> xs" "e < xs"
    by linarith
  then show ?case
  proof cases
    case 1
    then have "\<not> {xs..<xe} \<subseteq> rs_set (x # rs)"
      using ends rs_Cons_bounds(1) [OF inv, of xs] x by auto
    then show ?thesis using 1 inv x assms by (simp add: ars_insert_loop_Cons)
  next
    case 2
    then show ?thesis using inv x assms by (auto simp: ars_insert_loop_Cons)
  next
    case 3
    then have "e \<in> {xs..<xe}" by simp
    then have "\<not> {xs..<xe} \<subseteq> rs_set (x # rs)" using rs_Cons_bounds(2) [OF inv] x by blast
    then show ?thesis using 3 inv x assms by (simp add: ars_insert_loop_Cons)
  next
    case 4
    then have "{xs..<xe} \<subseteq> rs_set (x # rs) \<longleftrightarrow> {xs..<xe} \<subseteq> rs_set rs" using x by auto
    then show ?thesis using Cons 4 x assms by (simp add: ars_insert_loop_Cons)
  qed
qed (use assms in simp)

text \<open>What the recursion of \<open>remove\<close> leaves of the range it stands on.\<close>

definition ars_cut :: "urange \<Rightarrow> urange \<Rightarrow> urange list" where
  "ars_cut x r = (if fst r < fst x then [(fst r, fst x)] else []) @
                 (if snd x < snd r then [(snd x, snd r)] else [])"

lemma ars_remove_loop_Cons:
  assumes "xs < xe" and "s < e"
  shows "ars_remove_loop (xs, xe) r ((s, e) # rest) =
      (if xe \<le> s then ((s, e) # rest, r)
       else if e \<le> xs then
         ((s, e) # fst (ars_remove_loop (xs, xe) r rest), snd (ars_remove_loop (xs, xe) r rest))
       else
         (ars_cut (xs, xe) (s, e) @ fst (ars_remove_loop (xs, xe) True rest),
          snd (ars_remove_loop (xs, xe) True rest)))"
  using assms by (simp add: Let_def case_prod_beta ars_cut_def)

declare ars_remove_loop.simps(2) [simp del]

lemma ars_remove_loop_above:
  assumes "xs < xe" and "l < xe"
  shows "\<forall>(s, e) \<in> set rs. s < e \<and> l < s \<Longrightarrow>
    \<forall>(s, e) \<in> set (fst (ars_remove_loop (xs, xe) r rs)). l < s"
proof (induction rs arbitrary: r)
  case (Cons x rs)
  then show ?case
    using assms by (cases x) (auto simp: ars_remove_loop_Cons ars_cut_def split: if_splits)
qed simp

lemma ars_remove_loop_inv:
  assumes "xs < xe"
  shows "rs_inv rs \<Longrightarrow> rs_inv (fst (ars_remove_loop (xs, xe) r rs))"
proof (induction rs arbitrary: r)
  case (Cons x rs)
  obtain s e where x: "x = (s, e)" by (cases x)
  have gap: "\<forall>(s, e) \<in> set (fst (ars_remove_loop (xs, xe) r rs)). l < s"
    if "l < xe" "l \<le> e" for l r
    using that Cons.prems x assms
    by (intro ars_remove_loop_above) (fastforce dest: rs_inv_nonempty)+
  have same: "fst (ars_remove_loop (xs, xe) r rs) = rs" if "xe \<le> e" for r
    using that Cons.prems x assms by (cases rs) (auto simp: ars_remove_loop_Cons)
  have IH: "rs_inv (fst (ars_remove_loop (xs, xe) r rs))" for r
    using Cons x by simp
  consider "xe \<le> s" | "e \<le> xs" | "s < xe" "xs < e" "xe < e" | "s < xe" "xs < e" "e \<le> xe"
    by linarith
  then show ?case
  proof cases
    case 3
    then show ?thesis using Cons.prems x assms same
      by (auto simp: ars_remove_loop_Cons ars_cut_def)
  next
    case 4
    then show ?thesis using Cons.prems x assms IH gap [of xs]
      by (simp add: ars_remove_loop_Cons ars_cut_def)
  qed (use Cons.prems x assms IH gap [of e] in \<open>simp_all add: ars_remove_loop_Cons\<close>)
qed simp

lemma ars_remove_loop_set:
  assumes "xs < xe"
  shows "rs_inv rs \<Longrightarrow> rs_set (fst (ars_remove_loop (xs, xe) r rs)) = rs_set rs - {xs..<xe}"
proof (induction rs arbitrary: r)
  case (Cons x rs)
  obtain s e where x: "x = (s, e)" by (cases x)
  have "\<forall>y \<in> rs_set rs. e < y" using Cons.prems x rs_set_above [of rs e] by auto
  with Cons x assms show ?case by (auto simp: ars_remove_loop_Cons ars_cut_def)
qed simp

lemma ars_remove_loop_changed:
  assumes "xs < xe"
  shows "rs_inv rs \<Longrightarrow>
    snd (ars_remove_loop (xs, xe) r rs) = (r \<or> {xs..<xe} \<inter> rs_set rs \<noteq> {})"
proof (induction rs arbitrary: r)
  case (Cons x rs)
  obtain s e where x: "x = (s, e)" by (cases x)
  have "\<forall>y \<in> rs_set rs. e < y" using Cons.prems x rs_set_above [of rs e] by auto
  moreover have "{xs..<xe} \<inter> {s..<e} \<noteq> {}" if "s < xe" "xs < e"
  proof -
    have "max s xs \<in> {xs..<xe} \<inter> {s..<e}" using that Cons.prems x assms by auto
    then show ?thesis by blast
  qed
  ultimately show ?case using Cons x assms
    by (auto simp: ars_remove_loop_Cons Int_Un_distrib)
qed simp

interpretation ars: range_set ars_insert ars_remove
proof
  fix rs x and s e :: nat
  assume inv: "rs_inv rs"
  show "rs_inv (fst (ars_insert x rs))" "rs_inv (fst (ars_remove x rs))"
    by (cases x; simp add: inv ars_insert_def ars_remove_def ars_insert_loop_inv ars_remove_loop_inv)+
  show "rs_set (fst (ars_insert (s, e) rs)) = rs_set rs \<union> {s..<e}"
    and "rs_set (fst (ars_remove (s, e) rs)) = rs_set rs - {s..<e}"
    by (simp_all add: inv ars_insert_def ars_remove_def ars_insert_loop_set ars_remove_loop_set)
  show "snd (ars_insert (s, e) rs) = (\<not> {s..<e} \<subseteq> rs_set rs)"
    and "snd (ars_remove (s, e) rs) = ({s..<e} \<inter> rs_set rs \<noteq> {})"
    by (simp_all add: inv ars_insert_def ars_remove_def ars_insert_loop_changed ars_remove_loop_changed)
qed

lemma ars_contains_iff: "rs_inv rs \<Longrightarrow> ars_contains x rs \<longleftrightarrow> x \<in> rs_set rs"
proof (induction rs)
  case (Cons r rs)
  obtain s e where r: "r = (s, e)" by (cases r)
  then show ?case using Cons rs_Cons_bounds(1) [of s e rs x] by auto
qed simp

lemma ars_max_Max:
  assumes "rs_inv rs" and "rs \<noteq> []"
  shows "ars_max rs = Some (Max (rs_set rs))"
proof -
  obtain ys s e where rs: "rs = ys @ [(s, e)]"
    using assms(2) by (metis rev_exhaust surj_pair)
  with assms(1) have se: "s < e" and below: "\<forall>(s', e') \<in> set ys. e' < s" by (auto simp: rs_inv_append)
  have "Max (rs_set rs) = e - 1"
    using se below by (intro Max_eqI) (fastforce simp: rs rs_set_iff finite_rs_set)+
  then show ?thesis by (simp add: ars_max_def rs)
qed

lemma ars_elts_set: "set (ars_elts rs) = rs_set rs"
  by (auto simp: ars_elts_def rs_set_def)

lemma ars_pop_min_correct:
  assumes "rs_inv rs"
  shows "(case ars_pop_min rs of (None, rs') \<Rightarrow> rs_set rs = {} \<and> rs' = rs
     | (Some (s, e), rs') \<Rightarrow> rs_inv rs' \<and> rs_set rs' = rs_set rs - {s..<e} \<and> {s..<e} \<subseteq> rs_set rs \<and>
         (\<forall>x \<in> rs_set rs'. e < x))"
  using assms by (cases rs) (fastforce simp: ars_pop_min_def rs_set_iff)+

end
