(* ===== verification/Btree_Range_Set.thy ===== *)
theory Btree_Range_Set
  imports Range_Set
begin

text \<open>
  \<open>quic-proto/src/range_set/btree_range_set.rs\<close>: the range set on a \<open>BTreeMap\<close>, with the \<open>replace\<close>
  iterator that reports what a new range overlaps. It implements the contract of \<open>Range_Set\<close>; the
  merging loop over the successors is the one of the array representation on the tail of the list.
\<close>

section \<open>\<open>RangeSet\<close>\<close>

text \<open>
  The \<open>BTreeMap<u64, u64>\<close> as the list of its entries in key order: \<open>insert\<close> replaces the value of an
  existing key, \<open>range(..=x).next_back()\<close> is the last entry with a key up to \<open>x\<close> and
  \<open>range((Excluded(x), ..)).next()\<close> the first one beyond it.
\<close>

fun bt_insert :: "nat \<Rightarrow> nat \<Rightarrow> urange list \<Rightarrow> urange list" where
  "bt_insert k v [] = [(k, v)]"
| "bt_insert k v ((a, b) # m) =
     (if k < a then (k, v) # (a, b) # m else if k = a then (k, v) # m else (a, b) # bt_insert k v m)"

definition bt_remove :: "nat \<Rightarrow> urange list \<Rightarrow> urange list" where
  "bt_remove k m = filter (\<lambda>(a, b). a \<noteq> k) m"

definition bt_pred :: "nat \<Rightarrow> urange list \<Rightarrow> urange option" where
  "bt_pred x m = (let c = filter (\<lambda>(a, b). a \<le> x) m in if c = [] then None else Some (last c))"

definition bt_succ :: "nat \<Rightarrow> urange list \<Rightarrow> urange option" where
  "bt_succ x m = (case filter (\<lambda>(a, b). x < a) m of [] \<Rightarrow> None | r # _ \<Rightarrow> Some r)"

lemma bt_succ_SomeD: "bt_succ x m = Some (a, b) \<Longrightarrow> (a, b) \<in> set m \<and> x < a"
  by (auto simp: bt_succ_def filter_eq_Cons_iff split: list.splits)

lemma length_bt_remove: "(a, b) \<in> set m \<Longrightarrow> length (bt_remove a m) < length m"
  unfolding bt_remove_def by (rule length_filter_less [of "(a, b)"]) auto

lemma length_bt_remove_succ: "bt_succ x m = Some (a, b) \<Longrightarrow> length (bt_remove a m) < length m"
  by (blast dest: bt_succ_SomeD length_bt_remove)

text \<open>The loop of \<open>insert\<close> over the successors, with the final \<open>BTreeMap::insert\<close>.\<close>

function rs_insert_loop :: "urange \<Rightarrow> urange list \<Rightarrow> urange list" where
  "rs_insert_loop (xs, xe) m =
     (case bt_succ xs m of
        None \<Rightarrow> bt_insert xs xe m
      | Some (ns, ne) \<Rightarrow>
          if xe < ns then bt_insert xs xe m
          else rs_insert_loop (xs, max ne xe) (bt_remove ns m))"
  by pat_completeness auto
termination
  by (relation "measure (\<lambda>(x, m). length m)") (auto dest: length_bt_remove_succ)

definition rs_insert :: "urange \<Rightarrow> urange list \<Rightarrow> urange list \<times> bool" where
  "rs_insert x m =
     (let (xs, xe) = x in
      if xe \<le> xs then (m, False)
      else case bt_pred xs m of
          None \<Rightarrow> (rs_insert_loop (xs, xe) m, True)
        | Some (s, e) \<Rightarrow>
            if xe \<le> e then (m, False)
            else if xs \<le> e then (rs_insert_loop (s, xe) (bt_remove s m), True)
            else (rs_insert_loop (xs, xe) m, True))"

definition rs_insert_one :: "nat \<Rightarrow> urange list \<Rightarrow> urange list \<times> bool" where
  "rs_insert_one x m =
     (let extend = (\<lambda>start m. case bt_succ x m of
            None \<Rightarrow> bt_insert start (wrapping_add x 1) m
          | Some (ns, ne) \<Rightarrow>
              if ns = wrapping_add x 1 then bt_insert start ne (bt_remove ns m)
              else bt_insert start (wrapping_add x 1) m) in
      case bt_pred x m of
        None \<Rightarrow> (extend x m, True)
      | Some (s, e) \<Rightarrow>
          if x < e then (m, False)
          else if e = x then (extend s (bt_remove s m), True)
          else (extend x m, True))"

function rs_remove_loop :: "urange \<Rightarrow> bool \<Rightarrow> urange list \<Rightarrow> urange list \<times> bool" where
  "rs_remove_loop (xs, xe) after m =
     (case bt_succ xs m of
        None \<Rightarrow> (m, after)
      | Some (s, e) \<Rightarrow>
          if xe \<le> s then (m, after)
          else if xe < e then (bt_insert xe e (bt_remove s m), True)
          else rs_remove_loop (xs, xe) True (bt_remove s m))"
  by pat_completeness auto
termination
  by (relation "measure (\<lambda>(x, r, m). length m)") (auto dest: length_bt_remove_succ)

definition rs_remove :: "urange \<Rightarrow> urange list \<Rightarrow> urange list \<times> bool" where
  "rs_remove x m =
     (let (xs, xe) = x in
      if xe \<le> xs then (m, False)
      else case bt_pred xs m of
          None \<Rightarrow> rs_remove_loop (xs, xe) False m
        | Some (s, e) \<Rightarrow>
            if xs < e then
              let m1 = bt_remove s m;
                  m2 = (if s < xs then bt_insert s xs m1 else m1);
                  m3 = (if xe < e then bt_insert xe e m2 else m2) in
              if xe \<le> e then (m3, True)
              else (fst (rs_remove_loop (xs, xe) False m3), True)
            else rs_remove_loop (xs, xe) False m)"

definition rs_contains :: "nat \<Rightarrow> urange list \<Rightarrow> bool" where
  "rs_contains x m = (case bt_pred x m of None \<Rightarrow> False | Some (s, e) \<Rightarrow> x < e)"

definition rs_peek_min :: "urange list \<Rightarrow> urange option" where
  "rs_peek_min m = (case m of [] \<Rightarrow> None | r # _ \<Rightarrow> Some r)"

definition rs_pop_min :: "urange list \<Rightarrow> urange option \<times> urange list" where
  "rs_pop_min m = (case rs_peek_min m of None \<Rightarrow> (None, m) | Some (s, e) \<Rightarrow> (Some (s, e), bt_remove s m))"

definition rs_min :: "urange list \<Rightarrow> nat option" where
  "rs_min m = map_option fst (rs_peek_min m)"

definition rs_max :: "urange list \<Rightarrow> nat option" where
  "rs_max m = (if m = [] then None else Some (snd (last m) - 1))"

text \<open>
  \<open>RangeSet::replace\<close> returns an iterator that holds the set; the record is that iterator, \<open>next\<close> one
  call of it and \<open>drop\<close> its destructor, which drains the iterator and inserts the aggregate range.
\<close>

record replace_iter =
  ri_set :: "urange list"
  ri_pred :: "urange option"
  ri_range :: urange

definition rs_replace :: "urange \<Rightarrow> urange list \<Rightarrow> replace_iter" where
  "rs_replace rng m =
     (let (s, e) = rng in
      case bt_pred s m of
        None \<Rightarrow> \<lparr>ri_set = m, ri_pred = None, ri_range = (s, e)\<rparr>
      | Some (ps, pe) \<Rightarrow>
          if s \<le> pe then
            \<lparr>ri_set = bt_remove ps m,
             ri_pred = (if s \<noteq> min e pe then Some (s, min e pe) else None),
             ri_range = (min s ps, max e pe)\<rparr>
          else \<lparr>ri_set = m, ri_pred = None, ri_range = (s, e)\<rparr>)"

definition rs_replace_next :: "replace_iter \<Rightarrow> urange option \<times> replace_iter" where
  "rs_replace_next it =
     (case ri_pred it of
        Some p \<Rightarrow> (Some p, it\<lparr>ri_pred := None\<rparr>)
      | None \<Rightarrow>
          (case bt_succ (fst (ri_range it)) (ri_set it) of
             None \<Rightarrow> (None, it)
           | Some (ns, ne) \<Rightarrow>
               if snd (ri_range it) < ns then (None, it)
               else
                 let replaced_end = min (snd (ri_range it)) ne;
                     it' = it\<lparr>ri_set := bt_remove ns (ri_set it),
                              ri_range := (fst (ri_range it), max (snd (ri_range it)) ne)\<rparr> in
                 (if ns = replaced_end then None else Some (ns, replaced_end), it')))"

definition replace_measure :: "replace_iter \<Rightarrow> nat" where
  "replace_measure it = length (ri_set it) + (if ri_pred it = None then 0 else 1)"

lemma rs_replace_next_measure:
  "rs_replace_next it = (Some r, it') \<Longrightarrow> replace_measure it' < replace_measure it"
  by (auto simp: rs_replace_next_def replace_measure_def Let_def split: option.splits if_splits;
      erule length_bt_remove_succ)

text \<open>Collecting the iterator: all ranges up to the first \<open>None\<close>, and the iterator left behind.\<close>

function rs_replace_collect :: "replace_iter \<Rightarrow> urange list \<times> replace_iter" where
  "rs_replace_collect it =
     (case rs_replace_next it of
        (None, it') \<Rightarrow> ([], it')
      | (Some r, it') \<Rightarrow> let (rs, it'') = rs_replace_collect it' in (r # rs, it''))"
  by pat_completeness auto
termination
  by (relation "measure replace_measure") (auto dest: rs_replace_next_measure [OF sym])

definition rs_replace_drop :: "replace_iter \<Rightarrow> urange list" where
  "rs_replace_drop it =
     (let it' = snd (rs_replace_collect it) in
      bt_insert (fst (ri_range it')) (snd (ri_range it')) (ri_set it'))"

declare rs_insert_loop.simps [simp del] rs_remove_loop.simps [simp del]
  rs_replace_collect.simps [simp del]

section \<open>Splitting the map at a key\<close>

text \<open>
  Every operation works around one key: \<open>lo\<close> are the entries up to it, \<open>hi\<close> those beyond it.
\<close>

abbreviation keys_below :: "urange list \<Rightarrow> nat \<Rightarrow> bool" where
  "keys_below lo x \<equiv> \<forall>(a, b) \<in> set lo. a < x"

abbreviation keys_above :: "nat \<Rightarrow> urange list \<Rightarrow> bool" where
  "keys_above x hi \<equiv> \<forall>(a, b) \<in> set hi. x < a"

lemma bt_insert_split: "keys_below lo k \<Longrightarrow> keys_above k hi \<Longrightarrow> bt_insert k v (lo @ hi) = lo @ (k, v) # hi"
proof (induction lo)
  case Nil
  then show ?case by (cases hi) auto
qed auto

lemma bt_remove_split:
  "keys_below lo k \<Longrightarrow> keys_above k hi \<Longrightarrow> bt_remove k (lo @ (k, v) # hi) = lo @ hi"
proof -
  assume "keys_below lo k" and "keys_above k hi"
  then have "filter (\<lambda>(a, b). a \<noteq> k) lo = lo" and "filter (\<lambda>(a, b). a \<noteq> k) hi = hi"
    by (auto simp: filter_id_conv)
  then show ?thesis by (simp add: bt_remove_def)
qed

lemma bt_succ_split:
  "\<forall>(a, b) \<in> set lo. a \<le> x \<Longrightarrow> keys_above x hi \<Longrightarrow>
   bt_succ x (lo @ hi) = (case hi of [] \<Rightarrow> None | r # _ \<Rightarrow> Some r)"
proof -
  assume "\<forall>(a, b) \<in> set lo. a \<le> x" and "keys_above x hi"
  then have "filter (\<lambda>(a, b). x < a) lo = []" and "filter (\<lambda>(a, b). x < a) hi = hi"
    by (auto simp: filter_empty_conv filter_id_conv)
  then show ?thesis by (simp add: bt_succ_def)
qed

lemma bt_pred_split:
  "\<forall>(a, b) \<in> set lo. a \<le> x \<Longrightarrow> keys_above x hi \<Longrightarrow>
   bt_pred x (lo @ hi) = (if lo = [] then None else Some (last lo))"
proof -
  assume "\<forall>(a, b) \<in> set lo. a \<le> x" and "keys_above x hi"
  then have "filter (\<lambda>(a, b). a \<le> x) lo = lo" and "filter (\<lambda>(a, b). a \<le> x) hi = []"
    by (auto simp: filter_empty_conv filter_id_conv)
  then show ?thesis by (simp add: bt_pred_def)
qed

lemma rs_inv_split:
  assumes "rs_inv m"
  obtains lo hi where "m = lo @ hi" and "\<forall>(a, b) \<in> set lo. a \<le> x" and "keys_above x hi"
proof
  show "m = takeWhile (\<lambda>(a, b). a \<le> x) m @ dropWhile (\<lambda>(a, b). a \<le> x) m" by simp
  show "\<forall>(a, b) \<in> set (takeWhile (\<lambda>(a, b). a \<le> x) m). a \<le> x"
    using set_takeWhileD by fastforce
  show "keys_above x (dropWhile (\<lambda>(a, b). a \<le> x) m)"
    using assms
  proof (induction m)
    case (Cons r m)
    obtain s e where "r = (s, e)" by (cases r)
    moreover have "keys_above x m" if "x < s" using that Cons.prems calculation by fastforce
    ultimately show ?case using Cons by auto
  qed simp
qed

text \<open>
  The same split around the predecessor: either nothing begins at or before \<open>x\<close>, or the last such
  range does, and what precedes it ends before it starts.
\<close>

lemma rs_pred_cases:
  assumes "rs_inv m"
  obtains (none) "bt_pred x m = None" and "keys_above x m"
  | (some) lo s e hi where "m = lo @ (s, e) # hi" and "bt_pred x m = Some (s, e)" and "s \<le> x"
      and "keys_above x hi" and "keys_above e hi" and "s < e" and "rs_inv lo" and "rs_inv hi"
      and "\<forall>(a, b) \<in> set lo. a < s \<and> b < s"
proof -
  obtain lo hi where m: "m = lo @ hi" and lo: "\<forall>(a, b) \<in> set lo. a \<le> x" and hi: "keys_above x hi"
    using rs_inv_split [OF assms] by blast
  show thesis
  proof (cases lo rule: rev_cases)
    case Nil
    then show thesis using none bt_pred_split [OF lo hi] m hi by simp
  next
    case (snoc ys r)
    obtain s e where r: "r = (s, e)" by (cases r)
    have "rs_inv (ys @ (s, e) # hi)" using assms m snoc r by simp
    then have "rs_inv ys" "rs_inv hi" "s < e" "keys_above e hi" "\<forall>(a, b) \<in> set ys. b < s"
      by (auto simp: rs_inv_append)
    moreover then have "\<forall>(a, b) \<in> set ys. a < s \<and> b < s"
      by (fastforce dest: rs_inv_nonempty)
    ultimately show thesis
      using some [of ys s e hi] m snoc r hi lo bt_pred_split [OF lo hi] by simp
  qed
qed

section \<open>Insertion\<close>

lemma rs_insert_loop_merge:
  "keys_below lo xs \<Longrightarrow> keys_above xs hi \<Longrightarrow> sorted_wrt (\<lambda>(s, e) (s', e'). s < s') hi \<Longrightarrow>
   rs_insert_loop (xs, xe) (lo @ hi) = lo @ ars_merge (xs, xe) hi"
proof (induction hi arbitrary: xe)
  case Nil
  then show ?case
    using bt_succ_split [of lo xs "[]"] bt_insert_split [of lo xs "[]"]
    by (subst rs_insert_loop.simps) fastforce
next
  case (Cons r hi)
  obtain ns ne where r: "r = (ns, ne)" by (cases r)
  have lo: "\<forall>(a, b) \<in> set lo. a \<le> xs" using Cons.prems(1) by fastforce
  have succ: "bt_succ xs (lo @ r # hi) = Some (ns, ne)"
    using bt_succ_split [OF lo Cons.prems(2)] r by simp
  have rem: "bt_remove ns (lo @ r # hi) = lo @ hi"
    using Cons.prems r by (auto intro!: bt_remove_split)
  show ?case
    using Cons r succ rem bt_insert_split [OF Cons.prems(1,2), of xe]
    by (subst rs_insert_loop.simps) simp
qed

lemma rs_inv_sorted_keys: "rs_inv m \<Longrightarrow> sorted_wrt (\<lambda>(s, e) (s', e'). s < s') m"
  by (induction m) fastforce+

text \<open>Gluing an aggregate range between the untouched entries and the merged successors.\<close>

lemma rs_glue:
  assumes "rs_inv lo" and "rs_inv hi" and "xs < xe" and "\<forall>(a, b) \<in> set lo. a < xs \<and> b < xs"
    and "keys_above xs hi"
  shows "rs_inv (rs_insert_loop (xs, xe) (lo @ hi))"
    and "rs_set (rs_insert_loop (xs, xe) (lo @ hi)) = rs_set (lo @ hi) \<union> {xs..<xe}"
proof -
  have below: "keys_below lo xs" using assms(4) by fastforce
  have eq: "rs_insert_loop (xs, xe) (lo @ hi) = lo @ ars_merge (xs, xe) hi"
    by (rule rs_insert_loop_merge [OF below assms(5) rs_inv_sorted_keys [OF assms(2)]])
  have "\<forall>(s, e) \<in> set (ars_merge (xs, xe) hi). b < s" if "(a, b) \<in> set lo" for a b
    using that assms(4,5) by (intro ars_merge_above) fastforce+
  then have "\<forall>(a, b) \<in> set lo. \<forall>(s, e) \<in> set (ars_merge (xs, xe) hi). b < s" by fast
  then show "rs_inv (rs_insert_loop (xs, xe) (lo @ hi))"
    unfolding eq using assms by (auto simp: rs_inv_append ars_merge_inv)
  have "\<forall>(s, e) \<in> set hi. xs \<le> s" using assms(5) by fastforce
  then show "rs_set (rs_insert_loop (xs, xe) (lo @ hi)) = rs_set (lo @ hi) \<union> {xs..<xe}"
    unfolding eq using ars_merge_set [OF assms(3,2)] by auto
qed

lemma rs_insert_correct:
  assumes inv: "rs_inv m"
  shows "rs_inv (fst (rs_insert (xs, xe) m)) \<and>
    rs_set (fst (rs_insert (xs, xe) m)) = rs_set m \<union> {xs..<xe} \<and>
    snd (rs_insert (xs, xe) m) = (\<not> {xs..<xe} \<subseteq> rs_set m)"
proof (cases "xe \<le> xs")
  case True
  then show ?thesis using inv by (simp add: rs_insert_def)
next
  case False
  then have lt: "xs < xe" by simp
  show ?thesis
  proof (cases rule: rs_pred_cases [OF inv, of xs, case_names none some])
    case none
    then have "xs \<notin> rs_set m" by (fastforce simp: rs_set_iff)
    then have "\<not> {xs..<xe} \<subseteq> rs_set m" using lt by auto
    then show ?thesis
      using none lt rs_glue [of "[]" m xs xe] inv by (simp add: rs_insert_def)
  next
    case (some lo s e hi)
    have e: "e \<notin> rs_set m" using some by (fastforce simp: rs_set_iff)
    have rem: "bt_remove s m = lo @ hi"
      using some by (auto intro!: bt_remove_split)
    consider "xe \<le> e" | "e < xe" "xs \<le> e" | "e < xs" by linarith
    then show ?thesis
    proof cases
      case 1
      then have "{xs..<xe} \<subseteq> rs_set m" using some by auto
      then show ?thesis using 1 some inv lt by (auto simp: rs_insert_def)
    next
      case 2
      then have "\<not> {xs..<xe} \<subseteq> rs_set m" using e by (meson atLeastLessThan_iff subsetD)
      moreover have "keys_above s hi" using some by fastforce
      ultimately show ?thesis
        using 2 some lt rem rs_glue [of lo hi s xe] by (auto simp: rs_insert_def)
    next
      case 3
      have "xs \<notin> rs_set m" using some 3 by (fastforce simp: rs_set_iff)
      then have "\<not> {xs..<xe} \<subseteq> rs_set m" using lt by auto
      moreover have "rs_inv (lo @ [(s, e)])" "\<forall>(a, b) \<in> set (lo @ [(s, e)]). a < xs \<and> b < xs"
        using some inv 3 by (fastforce simp: rs_inv_append)+
      ultimately show ?thesis
        using 3 some lt rs_glue [of "lo @ [(s, e)]" hi xs xe] by (simp add: rs_insert_def)
    qed
  qed
qed

section \<open>Removal\<close>

lemma rs_remove_loop_split:
  assumes "xs < xe" and lo: "\<forall>(a, b) \<in> set lo. a \<le> xs"
  shows "keys_above xs hi \<Longrightarrow> rs_inv hi \<Longrightarrow>
    rs_remove_loop (xs, xe) r (lo @ hi) =
      (lo @ fst (ars_remove_loop (xs, xe) r hi), snd (ars_remove_loop (xs, xe) r hi))"
proof (induction hi arbitrary: r)
  case Nil
  then show ?case using bt_succ_split [OF lo, of "[]"] by (subst rs_remove_loop.simps) simp
next
  case (Cons h hi)
  obtain s e where h: "h = (s, e)" by (cases h)
  have succ: "bt_succ xs (lo @ h # hi) = Some (s, e)"
    using bt_succ_split [OF lo Cons.prems(1)] h by simp
  have "keys_below lo s" using lo Cons.prems(1) h by fastforce
  moreover have hi: "keys_above s hi" using Cons.prems(2) h by fastforce
  ultimately have rem: "bt_remove s (lo @ h # hi) = lo @ hi"
    using h by (auto intro!: bt_remove_split)
  have ins: "bt_insert xe e (lo @ hi) = lo @ (xe, e) # hi" if "xe < e"
    using that lo Cons.prems assms(1) h by (intro bt_insert_split) fastforce+
  have same: "ars_remove_loop (xs, xe) True hi = (hi, True)" if "xe < e"
    using that Cons.prems h assms(1) by (cases hi) (auto simp: ars_remove_loop_Cons)
  show ?case
    using Cons h succ rem ins same assms(1)
    by (subst rs_remove_loop.simps) (auto simp: ars_remove_loop_Cons ars_cut_def)
qed

lemma ars_remove_loop_skip:
  assumes "xs < xe" and "\<forall>(a, b) \<in> set lo. a < b \<and> b \<le> xs"
  shows "ars_remove_loop (xs, xe) r (lo @ hi) =
    (lo @ fst (ars_remove_loop (xs, xe) r hi), snd (ars_remove_loop (xs, xe) r hi))"
  using assms by (induction lo) (auto simp: ars_remove_loop_Cons)

text \<open>\<open>RangeSet::remove\<close> computes the very list \<open>ArrayRangeSet::remove\<close> does.\<close>

lemma ars_remove_loop_True:
  assumes "xs < xe"
  shows "\<forall>(s, e) \<in> set rs. s < e \<Longrightarrow>
    snd (ars_remove_loop (xs, xe) True rs) \<and>
    fst (ars_remove_loop (xs, xe) False rs) = fst (ars_remove_loop (xs, xe) True rs)"
proof (induction rs)
  case (Cons y rs)
  then show ?case using assms by (cases y) (simp add: ars_remove_loop_Cons)
qed simp

lemma rs_remove_eq_ars:
  assumes inv: "rs_inv m"
  shows "rs_remove x m = ars_remove x m"
proof -
  obtain xs xe where x: "x = (xs, xe)" by (cases x)
  show ?thesis
  proof (cases "xe \<le> xs")
    case True
    then show ?thesis by (simp add: x rs_remove_def ars_remove_def)
  next
    case False
    then have lt: "xs < xe" by simp
    show ?thesis
    proof (cases rule: rs_pred_cases [OF inv, of xs, case_names none some])
      case none
      then show ?thesis
        using x lt rs_remove_loop_split [OF lt, of "[]" m False] inv
        by (simp add: rs_remove_def ars_remove_def)
    next
      case (some lo s e hi)
      then have lo: "\<forall>(a, b) \<in> set lo. a < b \<and> b \<le> xs" and keys: "\<forall>(a, b) \<in> set lo. a \<le> xs"
        and below: "keys_below lo s" and above: "keys_above s hi"
        by (fastforce dest: rs_inv_nonempty)+
      have rem: "bt_remove s m = lo @ hi" using some below above by (auto intro: bt_remove_split)
      show ?thesis
      proof (cases "xs < e")
        case True
        have ins1: "bt_insert s xs (lo @ hi) = lo @ (s, xs) # hi"
          using below above by (rule bt_insert_split)
        have ins2: "bt_insert xe e (lo' @ hi) = lo' @ (xe, e) # hi"
          if "xe < e" "set lo' \<subseteq> set (lo @ [(s, xs)])" for lo'
          using that lt keys some(3,5) by (intro bt_insert_split) fastforce+
        have same: "ars_remove_loop (xs, xe) True hi = (hi, True)" if "xe \<le> e"
          using that some lt by (cases hi) (auto simp: ars_remove_loop_Cons)
        have loop: "fst (rs_remove_loop (xs, xe) False (lo' @ hi)) =
            lo' @ fst (ars_remove_loop (xs, xe) True hi)"
          if "set lo' \<subseteq> set (lo @ [(s, xs)])" for lo'
          using that rs_remove_loop_split [OF lt _ some(4,8), of lo' False] keys some(3)
            ars_remove_loop_True [OF lt, of hi] rs_inv_nonempty [OF some(8)] by fastforce
        have eq: "ars_remove x m =
            (lo @ ars_cut (xs, xe) (s, e) @ fst (ars_remove_loop (xs, xe) True hi), True)"
          using x lt some True ars_remove_loop_skip [OF lt lo, of False "(s, e) # hi"]
            ars_remove_loop_True [OF lt, of hi] rs_inv_nonempty [OF some(8)]
          by (fastforce simp: ars_remove_def ars_remove_loop_Cons)
        show ?thesis
          using x lt some True rem ins1 same ins2 [of lo] ins2 [of "lo @ [(s, xs)]"]
            loop [of lo] loop [of "lo @ [(s, xs)]"]
          unfolding eq by (simp add: rs_remove_def ars_cut_def Let_def subset_insertI)
      next
        case False
        then show ?thesis
          using x lt some lo rs_remove_loop_split [OF lt _ some(4,8), of "lo @ [(s, e)]" False] keys
            ars_remove_loop_skip [OF lt, of "lo @ [(s, e)]" False hi]
          by (simp add: rs_remove_def ars_remove_def)
      qed
    qed
  qed
qed

section \<open>The contract holds\<close>

interpretation rs: range_set rs_insert rs_remove
proof
  fix m x and s e :: nat
  assume inv: "rs_inv m"
  show "rs_inv (fst (rs_insert x m))" using rs_insert_correct [OF inv] by (cases x) simp
  show "rs_set (fst (rs_insert (s, e) m)) = rs_set m \<union> {s..<e}"
    and "snd (rs_insert (s, e) m) = (\<not> {s..<e} \<subseteq> rs_set m)"
    using rs_insert_correct [OF inv] by simp_all
  show "rs_inv (fst (rs_remove x m))"
    and "rs_set (fst (rs_remove (s, e) m)) = rs_set m - {s..<e}"
    and "snd (rs_remove (s, e) m) = ({s..<e} \<inter> rs_set m \<noteq> {})"
    by (simp_all add: rs_remove_eq_ars [OF inv] ars.remove_inv ars.remove_set ars.remove_changed inv)
qed

lemma rs_contains_iff:
  assumes "rs_inv m"
  shows "rs_contains x m \<longleftrightarrow> x \<in> rs_set m"
proof (cases rule: rs_pred_cases [OF assms, of x, case_names none some])
  case none
  then show ?thesis by (fastforce simp: rs_contains_def rs_set_iff)
next
  case (some lo s e hi)
  have "x \<in> rs_set m \<longleftrightarrow> x < e"
    using some by (fastforce simp: rs_set_iff)
  then show ?thesis using some by (simp add: rs_contains_def)
qed

section \<open>The \<open>replace\<close> iterator\<close>

text \<open>
  An iterator in use: the map splits at the start of the aggregate range, and the entries beyond it are
  still canonical.
\<close>

definition replace_split :: "replace_iter \<Rightarrow> urange list \<Rightarrow> urange list \<Rightarrow> bool" where
  "replace_split it lo hi \<longleftrightarrow> ri_set it = lo @ hi \<and> keys_below lo (fst (ri_range it)) \<and>
     keys_above (fst (ri_range it)) hi \<and> rs_inv hi"

text \<open>The ranges the iterator yields while it walks the successors \<open>hi\<close> of a range ending at \<open>xe\<close>.\<close>

fun overlaps :: "nat \<Rightarrow> urange list \<Rightarrow> urange list" where
  "overlaps xe [] = []"
| "overlaps xe ((ns, ne) # hi) =
     (if xe \<le> ns then [] else (ns, min xe ne) # overlaps (max xe ne) hi)"

lemma replace_next_split:
  assumes "replace_split it lo hi" and "ri_pred it = None" and "ri_range it = (xs, xe)"
  shows "rs_replace_next it =
    (case hi of [] \<Rightarrow> (None, it)
     | (ns, ne) # hi' \<Rightarrow>
         if xe < ns then (None, it)
         else (if ns = xe then None else Some (ns, min xe ne),
               it\<lparr>ri_set := lo @ hi', ri_range := (xs, max xe ne)\<rparr>))"
proof -
  have lo: "\<forall>(a, b) \<in> set lo. a \<le> xs" and hi: "keys_above xs hi"
    using assms by (fastforce simp: replace_split_def)+
  have succ: "bt_succ xs (ri_set it) = (case hi of [] \<Rightarrow> None | r # _ \<Rightarrow> Some r)"
    using assms(1) bt_succ_split [OF lo hi] by (simp add: replace_split_def)
  have rem: "bt_remove ns (ri_set it) = lo @ hi'" if "hi = (ns, ne) # hi'" for ns ne hi'
    using assms that by (auto simp: replace_split_def intro!: bt_remove_split)
  have "ns < ne" if "hi = (ns, ne) # hi'" for ns ne hi'
    using assms(1) that by (simp add: replace_split_def)
  with succ rem assms(2,3) show ?thesis
    by (auto simp: rs_replace_next_def Let_def min_def split: list.splits)
qed

lemma replace_split_step:
  assumes "replace_split it lo ((ns, ne) # hi)" and "ri_range it = (xs, xe)"
  shows "replace_split (it\<lparr>ri_set := lo @ hi, ri_range := (xs, max xe ne)\<rparr>) lo hi"
  using assms by (auto simp: replace_split_def)

lemma replace_collect_split:
  "replace_split it lo hi \<Longrightarrow> ri_pred it = None \<Longrightarrow> ri_range it = (xs, xe) \<Longrightarrow>
   fst (rs_replace_collect it) = overlaps xe hi \<and>
   rs_replace_drop it = lo @ ars_merge (xs, xe) hi"
proof (induction hi arbitrary: it xe)
  case Nil
  have "rs_replace_collect it = ([], it)"
    using replace_next_split [OF Nil] by (subst rs_replace_collect.simps) simp
  then show ?case
    using Nil bt_insert_split [of lo xs "[]"] by (simp add: rs_replace_drop_def replace_split_def)
next
  case (Cons h hi)
  obtain ns ne where h: "h = (ns, ne)" by (cases h)
  let ?it = "it\<lparr>ri_set := lo @ hi, ri_range := (xs, max xe ne)\<rparr>"
  have split: "replace_split ?it lo hi" using Cons.prems h by (blast intro: replace_split_step)
  have nxt: "rs_replace_next it = (if xe < ns then (None, it)
      else (if ns = xe then None else Some (ns, min xe ne), ?it))"
    using replace_next_split [OF Cons.prems] h by simp
  have IH: "fst (rs_replace_collect ?it) = overlaps (max xe ne) hi"
    "rs_replace_drop ?it = lo @ ars_merge (xs, max xe ne) hi"
    using Cons.IH [OF split] Cons.prems by auto
  have wf: "ns < ne" "keys_above ne hi" "keys_below lo xs" "keys_above xs (h # hi)"
    using Cons.prems h by (auto simp: replace_split_def)
  consider "xe < ns" | "ns = xe" | "ns < xe" by linarith
  then show ?case
  proof cases
    case 1
    then have "rs_replace_collect it = ([], it)"
      using nxt by (subst rs_replace_collect.simps) simp
    then show ?thesis
      using 1 h Cons.prems bt_insert_split [OF wf(3,4)]
      by (simp add: rs_replace_drop_def replace_split_def)
  next
    case 2
    then have "rs_replace_collect it = ([], ?it)"
      using nxt by (subst rs_replace_collect.simps) simp
    moreover have "ars_merge (xs, max ne xe) hi = (xs, max ne xe) # hi"
      using 2 wf(1,2) by (cases hi) auto
    ultimately show ?thesis
      using 2 h wf bt_insert_split [of lo xs hi "max xe ne"]
      by (simp add: rs_replace_drop_def max.commute)
  next
    case 3
    then have "rs_replace_collect it =
        ((ns, min xe ne) # fst (rs_replace_collect ?it), snd (rs_replace_collect ?it))"
      using nxt by (subst rs_replace_collect.simps) (simp add: case_prod_beta)
    then show ?thesis
      using 3 h IH by (simp add: rs_replace_drop_def max.commute)
  qed
qed

text \<open>Dropping the iterator early or late makes no difference to the set.\<close>

lemma replace_drop_pred:
  assumes "ri_pred it = Some p"
  shows "rs_replace_drop it = rs_replace_drop (it\<lparr>ri_pred := None\<rparr>)"
    and "rs_replace_collect it =
      (p # fst (rs_replace_collect (it\<lparr>ri_pred := None\<rparr>)), snd (rs_replace_collect (it\<lparr>ri_pred := None\<rparr>)))"
proof -
  have "rs_replace_next it = (Some p, it\<lparr>ri_pred := None\<rparr>)"
    using assms by (simp add: rs_replace_next_def)
  then show *: "rs_replace_collect it =
      (p # fst (rs_replace_collect (it\<lparr>ri_pred := None\<rparr>)), snd (rs_replace_collect (it\<lparr>ri_pred := None\<rparr>)))"
    by (subst rs_replace_collect.simps) (simp add: case_prod_beta)
  show "rs_replace_drop it = rs_replace_drop (it\<lparr>ri_pred := None\<rparr>)"
    by (simp add: rs_replace_drop_def *)
qed

lemma replace_drop_next:
  assumes "replace_split it lo hi"
  shows "rs_replace_drop (snd (rs_replace_next it)) = rs_replace_drop it \<and>
    (\<exists>hi'. replace_split (snd (rs_replace_next it)) lo hi')"
proof (cases "ri_pred it")
  case None
  obtain xs xe where range: "ri_range it = (xs, xe)" by (cases "ri_range it")
  show ?thesis
  proof (cases hi)
    case Nil
    then show ?thesis using replace_next_split [OF assms None range] assms by auto
  next
    case (Cons h hi')
    obtain ns ne where h: "h = (ns, ne)" by (cases h)
    let ?it = "it\<lparr>ri_set := lo @ hi', ri_range := (xs, max xe ne)\<rparr>"
    have split: "replace_split ?it lo hi'"
      using assms range Cons h by (blast intro: replace_split_step)
    have "rs_replace_drop it = lo @ ars_merge (xs, xe) hi"
      using replace_collect_split [OF assms None range] by simp
    moreover have "rs_replace_drop ?it = lo @ ars_merge (xs, max xe ne) hi'"
      using replace_collect_split [OF split] None by simp
    ultimately show ?thesis
      using replace_next_split [OF assms None range] assms split Cons h
      by (auto simp: max.commute)
  qed
next
  case (Some p)
  then show ?thesis
    using assms replace_drop_pred [of it p]
    by (auto simp: rs_replace_next_def replace_split_def)
qed

fun replace_nexts :: "nat \<Rightarrow> replace_iter \<Rightarrow> replace_iter" where
  "replace_nexts 0 it = it"
| "replace_nexts (Suc n) it = replace_nexts n (snd (rs_replace_next it))"

lemma replace_drop_nexts: "replace_split it lo hi \<Longrightarrow> rs_replace_drop (replace_nexts n it) = rs_replace_drop it"
proof (induction n arbitrary: it hi)
  case (Suc n)
  then show ?case using replace_drop_next [OF Suc.prems] by auto
qed simp

lemma overlaps_starts: "(s, e) \<in> set (overlaps xe hi) \<Longrightarrow> \<exists>e'. (s, e') \<in> set hi"
  by (induction xe hi rule: overlaps.induct) (auto split: if_splits)

lemma overlaps_inv: "rs_inv hi \<Longrightarrow> rs_inv (overlaps xe hi)"
proof (induction xe hi rule: overlaps.induct)
  case (2 xe ns ne hi)
  have "min xe ne < a" if "(a, b) \<in> set (overlaps (max xe ne) hi)" for a b
    using overlaps_starts [OF that] "2.prems" by fastforce
  then have "\<forall>(a, b) \<in> set (overlaps (max xe ne) hi). min xe ne < a" by blast
  then show ?case using 2 by (simp del: min_less_iff_conj) simp
qed simp

lemma overlaps_set: "rs_inv hi \<Longrightarrow> rs_set (overlaps xe hi) = rs_set hi \<inter> {..<xe}"
proof (induction xe hi rule: overlaps.induct)
  case (2 xe ns ne hi)
  have above: "ne < y" if "y \<in> rs_set hi" for y
    using that "2.prems" rs_set_above [of hi ne y] by simp
  have "rs_set hi \<inter> {..<max xe ne} = rs_set hi \<inter> {..<xe}"
    using above by fastforce
  with 2 above show ?case by (cases "xe \<le> ns") force+
qed simp

text \<open>
  \<open>replace\<close> as a whole: what \<open>collect\<close> yields and what the set is once the iterator is dropped, after
  any number of calls of \<open>next\<close>.
\<close>

lemma replace_walk:
  assumes "replace_split it lo hi" and "ri_pred it = None" and "ri_range it = (xs, xe)" and "xs < xe"
    and "rs_inv lo" and "\<forall>(a, b) \<in> set lo. a < xs \<and> b < xs"
  shows "rs_inv (rs_replace_drop it)"
    and "rs_set (rs_replace_drop it) = rs_set (lo @ hi) \<union> {xs..<xe}"
    and "fst (rs_replace_collect it) = overlaps xe hi"
proof -
  have split: "rs_inv hi" "keys_above xs hi" "keys_below lo xs"
    using assms(1,3) by (auto simp: replace_split_def)
  have "rs_replace_drop it = rs_insert_loop (xs, xe) (lo @ hi)"
    using replace_collect_split [OF assms(1-3)] rs_insert_loop_merge [OF split(3,2)]
      rs_inv_sorted_keys [OF split(1)] by simp
  then show "rs_inv (rs_replace_drop it)"
    and "rs_set (rs_replace_drop it) = rs_set (lo @ hi) \<union> {xs..<xe}"
    using rs_glue [OF assms(5) split(1) assms(4,6) split(2)] by simp_all
  show "fst (rs_replace_collect it) = overlaps xe hi"
    using replace_collect_split [OF assms(1-3)] by simp
qed

lemma replace_pred_overlap:
  assumes "ps \<le> s" and "\<forall>(a, b) \<in> set lo. a < ps \<and> b < ps" and "keys_above pe hi"
    and "s \<le> pe"
  shows "{s..<min e pe} \<union> rs_set hi \<inter> {..<max e pe} = rs_set (lo @ (ps, pe) # hi) \<inter> {s..<e}"
proof -
  have "rs_set lo \<inter> {s..<e} = {}" using assms(1,2) by (fastforce simp: rs_set_iff)
  moreover have "rs_set hi \<inter> {..<max e pe} = rs_set hi \<inter> {s..<e}"
    using rs_set_above [OF assms(3)] assms(4) by fastforce
  moreover have "{s..<min e pe} = {ps..<pe} \<inter> {s..<e}" using assms(1) by auto
  ultimately show ?thesis by auto
qed

lemma rs_replace_correct:
  assumes inv: "rs_inv m" and lt: "s < e"
  shows "rs_inv (fst (rs_replace_collect (rs_replace (s, e) m))) \<and>
    rs_set (fst (rs_replace_collect (rs_replace (s, e) m))) = rs_set m \<inter> {s..<e} \<and>
    rs_inv (rs_replace_drop (replace_nexts n (rs_replace (s, e) m))) \<and>
    rs_set (rs_replace_drop (replace_nexts n (rs_replace (s, e) m))) = rs_set m \<union> {s..<e}"
    (is "?P (rs_replace (s, e) m)")
proof (cases rule: rs_pred_cases [OF inv, of s, case_names none some])
  case none
  let ?it = "\<lparr>ri_set = m, ri_pred = None, ri_range = (s, e)\<rparr>"
  have it: "rs_replace (s, e) m = ?it" using none by (simp add: rs_replace_def)
  have split: "replace_split ?it [] m" using none inv by (simp add: replace_split_def)
  have "rs_set m \<inter> {..<e} = rs_set m \<inter> {s..<e}"
    using none by (fastforce simp: rs_set_iff)
  then show ?thesis
    using replace_walk [OF split _ _ lt] replace_drop_nexts [OF split] overlaps_set [OF inv, of e]
      overlaps_inv [OF inv, of e] unfolding it by simp
next
  case (some lo ps pe hi)
  show ?thesis
  proof (cases "s \<le> pe")
    case True
    let ?it = "\<lparr>ri_set = lo @ hi, ri_pred = None, ri_range = (ps, max e pe)\<rparr>"
    have rem: "bt_remove ps m = lo @ hi" using some by (auto intro!: bt_remove_split)
    have split: "replace_split ?it lo hi" using some by (auto simp: replace_split_def)
    note walk = replace_walk [OF split, of ps "max e pe"]
    define p where "p = (if s \<noteq> min e pe then Some (s, min e pe) else None)"
    have it: "rs_replace (s, e) m = ?it\<lparr>ri_pred := p\<rparr>"
      using some True rem by (simp add: rs_replace_def p_def min_def)
    have split': "replace_split (?it\<lparr>ri_pred := p\<rparr>) lo hi"
      using split by (simp add: replace_split_def)
    have drop: "rs_replace_drop (?it\<lparr>ri_pred := p\<rparr>) = rs_replace_drop ?it"
      using replace_drop_pred(1) [of "?it\<lparr>ri_pred := p\<rparr>"] by (cases p) auto
    have collect: "fst (rs_replace_collect (?it\<lparr>ri_pred := p\<rparr>)) =
        (case p of None \<Rightarrow> [] | Some r \<Rightarrow> [r]) @ overlaps (max e pe) hi"
      using replace_drop_pred(2) [of "?it\<lparr>ri_pred := p\<rparr>"] walk some lt by (cases p) auto
    have above: "\<forall>(a, b) \<in> set (overlaps (max e pe) hi). min e pe < a"
      using some(5) overlaps_starts by fastforce
    have p_set: "rs_set (case p of None \<Rightarrow> [] | Some r \<Rightarrow> [r]) = {s..<min e pe}"
      using lt True by (auto simp: p_def)
    have "rs_inv (fst (rs_replace_collect (?it\<lparr>ri_pred := p\<rparr>)))"
      unfolding collect using above overlaps_inv [OF some(8), of "max e pe"] lt True
      by (auto simp: p_def)
    moreover have "rs_set (fst (rs_replace_collect (?it\<lparr>ri_pred := p\<rparr>))) = rs_set m \<inter> {s..<e}"
      unfolding collect rs_set_append p_set overlaps_set [OF some(8)]
      using replace_pred_overlap [OF some(3,9,5) True, of e] some(1) by simp
    moreover have "rs_set (lo @ hi) \<union> {ps..<max e pe} = rs_set m \<union> {s..<e}"
      using some(1,3,6) True lt by auto
    ultimately show ?thesis
      using walk some lt drop replace_drop_nexts [OF split'] unfolding it by simp
  next
    case False
    let ?it = "\<lparr>ri_set = m, ri_pred = None, ri_range = (s, e)\<rparr>"
    have it: "rs_replace (s, e) m = ?it" using some False by (simp add: rs_replace_def)
    have split: "replace_split ?it (lo @ [(ps, pe)]) hi"
      using some False by (auto simp: replace_split_def)
    have lo: "rs_inv (lo @ [(ps, pe)])" "\<forall>(a, b) \<in> set (lo @ [(ps, pe)]). a < s \<and> b < s"
      using some inv False by (fastforce simp: rs_inv_append)+
    have "rs_set hi \<inter> {..<e} = rs_set m \<inter> {s..<e}"
      using some False by (fastforce simp: rs_set_iff)
    then show ?thesis
      using replace_walk [OF split _ _ lt lo] replace_drop_nexts [OF split]
        overlaps_set [OF some(8), of e] overlaps_inv [OF some(8), of e] some(1) unfolding it by simp
  qed
qed

lemma replace_collect_nexts: "\<exists>n. snd (rs_replace_collect it) = replace_nexts n it"
proof (induction it rule: rs_replace_collect.induct)
  case (1 it)
  obtain x it' where nx: "rs_replace_next it = (x, it')" by (metis prod.exhaust)
  show ?case
  proof (cases x)
    case None
    then have "snd (rs_replace_collect it) = replace_nexts 1 it"
      by (subst rs_replace_collect.simps) (simp add: nx)
    then show ?thesis by blast
  next
    case (Some r)
    obtain n where "snd (rs_replace_collect it') = replace_nexts n it'" using 1 nx Some by metis
    then have "snd (rs_replace_collect it) = replace_nexts (Suc n) it"
      by (subst rs_replace_collect.simps) (simp add: nx Some case_prod_beta)
    then show ?thesis by blast
  qed
qed

lemma rs_replace_collected:
  assumes "rs_inv m" and "s < e" and "rs_replace_collect (rs_replace (s, e) m) = (dups, it)"
  shows "rs_inv dups" and "rs_set dups = rs_set m \<inter> {s..<e}" and "rs_inv (rs_replace_drop it)"
    and "rs_set (rs_replace_drop it) = rs_set m \<union> {s..<e}"
  using rs_replace_correct [OF assms(1,2)] replace_collect_nexts [of "rs_replace (s, e) m"] assms(3) by auto

text \<open>\<open>replace\<close> yields exactly the parts of the new range that were present before, as separate
  ranges in order, and once the iterator is dropped, after any number of \<open>next\<close> calls, the set holds the
  union.\<close>

theorem replace_reports_overlap:
  assumes "rs_inv m" and "s < e"
  shows "rs_inv (fst (rs_replace_collect (rs_replace (s, e) m))) \<and>
    rs_set (fst (rs_replace_collect (rs_replace (s, e) m))) = rs_set m \<inter> {s..<e} \<and>
    rs_inv (rs_replace_drop (replace_nexts n (rs_replace (s, e) m))) \<and>
    rs_set (rs_replace_drop (replace_nexts n (rs_replace (s, e) m))) = rs_set m \<union> {s..<e}"
  by (rule rs_replace_correct [OF assms])

theorem replace_reports_overlap_witness:
  "rs_inv [(2, 4), (6, 8)] \<and> (1 :: nat) < 7 \<and>
   rs_set (fst (rs_replace_collect (rs_replace (1, 7) [(2, 4), (6, 8)]))) =
     rs_set [(2, 4), (6, 8)] \<inter> {1..<7}"
proof -
  have inv: "rs_inv [(2, 4), (6, 8)]" and lt: "(1 :: nat) < 7" by simp_all
  show ?thesis using inv lt replace_reports_overlap [OF inv lt] by blast
qed

section \<open>Properties\<close>

definition implements_insert :: "urange list \<Rightarrow> nat \<Rightarrow> nat \<Rightarrow> urange list \<times> bool \<Rightarrow> bool" where
  "implements_insert rs s e r \<longleftrightarrow> rs_inv (fst r) \<and> rs_set (fst r) = rs_set rs \<union> {s..<e} \<and>
    (snd r \<longleftrightarrow> \<not> {s..<e} \<subseteq> rs_set rs)"

definition implements_remove :: "urange list \<Rightarrow> nat \<Rightarrow> nat \<Rightarrow> urange list \<times> bool \<Rightarrow> bool" where
  "implements_remove rs s e r \<longleftrightarrow> rs_inv (fst r) \<and> rs_set (fst r) = rs_set rs - {s..<e} \<and>
    (snd r \<longleftrightarrow> {s..<e} \<inter> rs_set rs \<noteq> {})"

text \<open>C24: both range sets implement a set of integers. Inserting a range adds its elements and reports
  whether any was new, removing it takes them out and reports whether any was there, and both keep the
  ranges non-empty, in order and apart.\<close>

theorem range_sets_implement_sets:
  assumes "rs_inv rs"
  shows "implements_insert rs s e (ars_insert (s, e) rs) \<and> implements_insert rs s e (rs_insert (s, e) rs) \<and>
    implements_remove rs s e (ars_remove (s, e) rs) \<and> implements_remove rs s e (rs_remove (s, e) rs)"
  by (simp only: implements_insert_def implements_remove_def assms simp_thms
      ars.insert_inv ars.insert_set ars.insert_changed ars.remove_inv ars.remove_set ars.remove_changed
      rs.insert_inv rs.insert_set rs.insert_changed rs.remove_inv rs.remove_set rs.remove_changed)

theorem range_sets_implement_sets_witness:
  "rs_inv [(1, 3), (5, 9)] \<and> implements_insert [(1, 3), (5, 9)] 3 5 (ars_insert (3, 5) [(1, 3), (5, 9)])"
proof -
  have inv: "rs_inv [(1, 3), (5, 9)]" by simp
  show ?thesis using inv range_sets_implement_sets [OF inv] by blast
qed

text \<open>C36: The array and the B-tree implementation are interchangeable: from the same ranges, \<open>insert\<close>
  and \<open>remove\<close> produce the same ranges and the same result.\<close>

theorem range_set_implementations_agree:
  assumes "rs_inv rs"
  shows "ars_insert x rs = rs_insert x rs \<and> ars_remove x rs = rs_remove x rs"
proof -
  obtain s e where x: "x = (s, e)" by (cases x)
  have "fst (ars_insert x rs) = fst (rs_insert x rs)"
    by (rule rs_canonical)
      (simp_all add: x assms ars.insert_inv rs.insert_inv ars.insert_set rs.insert_set)
  moreover have "snd (ars_insert x rs) = snd (rs_insert x rs)"
    by (simp add: x assms ars.insert_changed rs.insert_changed)
  ultimately show ?thesis using rs_remove_eq_ars [OF assms] by (simp add: prod_eq_iff)
qed

theorem range_set_implementations_agree_witness:
  "rs_inv [(1, 3), (5, 9)] \<and> ars_insert (2, 6) [(1, 3), (5, 9)] = rs_insert (2, 6) [(1, 3), (5, 9)] \<and>
   ars_insert (2, 6) [(1, 3), (5, 9)] = ([(1, 9)], True)"
proof -
  have inv: "rs_inv [(1, 3), (5, 9)]" by simp
  show ?thesis using inv range_set_implementations_agree [OF inv, of "(2, 6)"]
    by (simp add: ars_insert_def ars_insert_loop.simps)
qed

end
