(* ===== verification/Assembler.thy ===== *)
theory Assembler
  imports Btree_Range_Set "HOL-Library.Multiset" "HOL-Library.Code_Target_Nat"
begin

text \<open>
  \<open>quic-proto/src/connection/assembler.rs\<close>: the buffer that turns the frames of a stream, which arrive in
  any order and may overlap, into chunks for the application. In ordered mode the chunks are the stream
  from the read offset on; in unordered mode every byte is handed out once, in whatever order it came.

  The stream offsets are natural numbers: the caller has checked that they stay below \<open>2^62\<close>, so the sums
  do not overflow. The byte counters are \<open>usize\<close> and their subtractions wrap; that they never do is part of
  the invariant.
\<close>

section \<open>Buffers and the heap\<close>

record asm_buffer =
  ab_offset :: nat
  ab_bytes :: bytes
  ab_allocation_size :: nat
  ab_defragmented :: bool

definition buffer_new :: "nat \<Rightarrow> bytes \<Rightarrow> nat \<Rightarrow> asm_buffer" where
  "buffer_new offset bytes allocation_size = \<lparr>ab_offset = offset, ab_bytes = bytes,
     ab_allocation_size = allocation_size, ab_defragmented = False\<rparr>"

definition buffer_new_defragmented :: "nat \<Rightarrow> bytes \<Rightarrow> asm_buffer" where
  "buffer_new_defragmented offset bytes = \<lparr>ab_offset = offset, ab_bytes = bytes,
     ab_allocation_size = length bytes, ab_defragmented = True\<rparr>"

definition try_mark_defragment :: "nat \<Rightarrow> asm_buffer \<Rightarrow> asm_buffer" where
  "try_mark_defragment offset b =
     (let duplicate = saturating_sub offset (ab_offset b);
          b1 = b\<lparr>ab_offset := max (ab_offset b) offset\<rparr> in
      if length (ab_bytes b) \<le> duplicate then
        b1\<lparr>ab_bytes := [], ab_defragmented := True, ab_allocation_size := 0\<rparr>
      else
        let bytes = drop duplicate (ab_bytes b);
            defragmented = ab_defragmented b \<or> ab_allocation_size b \<le> length bytes * 6 div 5 in
        b1\<lparr>ab_bytes := bytes, ab_defragmented := defragmented,
           ab_allocation_size := (if defragmented then length bytes else ab_allocation_size b)\<rparr>)"

text \<open>
  \<open>BinaryHeap<Buffer>\<close> as the list of its elements in the order in which they are popped: the smallest
  offset first, and of those the longest. \<open>heap_push\<close> puts an element behind its equals; the standard
  library leaves the order of equal elements open and nothing below depends on it.
\<close>

definition ab_before :: "asm_buffer \<Rightarrow> asm_buffer \<Rightarrow> bool" where
  "ab_before a b \<longleftrightarrow> ab_offset a < ab_offset b \<or>
     ab_offset a = ab_offset b \<and> length (ab_bytes b) \<le> length (ab_bytes a)"

fun heap_push :: "asm_buffer \<Rightarrow> asm_buffer list \<Rightarrow> asm_buffer list" where
  "heap_push b [] = [b]"
| "heap_push b (c # cs) = (if ab_before c b then c # heap_push b cs else b # c # cs)"

section \<open>The assembler\<close>

datatype asm_state = Ordered | Unordered "urange list"

record assembler =
  asm_state :: asm_state
  asm_next :: "asm_buffer option"
  asm_data :: "asm_buffer list"
  asm_buffered :: nat
  asm_allocated :: nat
  asm_bytes_read :: nat
  asm_end :: nat

definition assembler_new :: assembler where
  "assembler_new = \<lparr>asm_state = Ordered, asm_next = None, asm_data = [], asm_buffered = 0,
     asm_allocated = 0, asm_bytes_read = 0, asm_end = 0\<rparr>"

definition assembler_reinit :: "assembler \<Rightarrow> assembler" where
  "assembler_reinit a = assembler_new\<lparr>asm_data := []\<rparr>"

fun is_ordered :: "asm_state \<Rightarrow> bool" where
  "is_ordered Ordered = True"
| "is_ordered (Unordered _) = False"

text \<open>\<open>if let Some(slot) = self.next.take() { self.data.push(slot); }\<close>\<close>

definition flush_slot :: "assembler \<Rightarrow> assembler" where
  "flush_slot a = (case asm_next a of None \<Rightarrow> a
     | Some slot \<Rightarrow> a\<lparr>asm_next := None, asm_data := heap_push slot (asm_data a)\<rparr>)"

text \<open>The two passes of \<open>defragment\<close> over the buffers in heap order.\<close>

fun mark_all :: "nat \<Rightarrow> asm_buffer list \<Rightarrow> asm_buffer list" where
  "mark_all offset [] = []"
| "mark_all offset (c # cs) =
     (let c' = try_mark_defragment offset c in c' # mark_all (ab_offset c' + length (ab_bytes c')) cs)"

fun defrag_loop :: "nat \<Rightarrow> bytes \<Rightarrow> asm_buffer list \<Rightarrow> asm_buffer list \<Rightarrow> asm_buffer list" where
  "defrag_loop offset buf [] heap =
     (if buf \<noteq> [] then heap_push (buffer_new_defragmented offset buf) heap else heap)"
| "defrag_loop offset buf (c # cs) heap =
     (if ab_defragmented c then
        defrag_loop offset buf cs (if ab_bytes c \<noteq> [] then heap_push c heap else heap)
      else if ab_offset c \<noteq> offset + length buf then
        defrag_loop (ab_offset c) (ab_bytes c) cs
          (if buf \<noteq> [] then heap_push (buffer_new_defragmented offset buf) heap else heap)
      else defrag_loop offset (buf @ ab_bytes c) cs heap)"

definition total_len :: "asm_buffer list \<Rightarrow> nat" where
  "total_len bs = sum_list (map (length \<circ> ab_bytes) bs)"

definition defragment :: "assembler \<Rightarrow> assembler" where
  "defragment a0 =
     (let a = flush_slot a0; marked = mark_all 0 (asm_data a) in
      a\<lparr>asm_data := defrag_loop 0 [] marked [], asm_buffered := total_len marked,
        asm_allocated := total_len marked\<rparr>)"

text \<open>\<open>Inl ()\<close> is \<open>IllegalOrderedRead\<close>.\<close>

definition ensure_ordering :: "bool \<Rightarrow> assembler \<Rightarrow> unit + assembler" where
  "ensure_ordering ordered a =
     (if ordered \<and> \<not> is_ordered (asm_state a) then Inl ()
      else if \<not> ordered \<and> is_ordered (asm_state a) then
        let a1 = flush_slot a;
            a2 = (if asm_data a1 \<noteq> [] then defragment a1 else a1);
            recvd = foldl (\<lambda>rs c. fst (rs_insert (ab_offset c, ab_offset c + length (ab_bytes c)) rs))
                      (fst (rs_insert (0, asm_bytes_read a2) [])) (asm_data a2) in
        Inr (a2\<lparr>asm_state := Unordered recvd\<rparr>)
      else Inr a)"

type_synonym chunk = "nat \<times> bytes"

definition read_slot :: "nat \<Rightarrow> asm_buffer \<Rightarrow> assembler \<Rightarrow> chunk \<times> assembler" where
  "read_slot max_length slot a =
     (if max_length < length (ab_bytes slot) then
        ((ab_offset slot, take max_length (ab_bytes slot)),
         a\<lparr>asm_bytes_read := asm_bytes_read a + max_length,
           asm_buffered := wrapping_sub (asm_buffered a) max_length,
           asm_next := Some (slot\<lparr>ab_offset := ab_offset slot + max_length,
             ab_bytes := drop max_length (ab_bytes slot)\<rparr>)\<rparr>)
      else
        ((ab_offset slot, ab_bytes slot),
         a\<lparr>asm_bytes_read := asm_bytes_read a + length (ab_bytes slot),
           asm_buffered := wrapping_sub (asm_buffered a) (length (ab_bytes slot)),
           asm_allocated := wrapping_sub (asm_allocated a) (ab_allocation_size slot),
           asm_next := None\<rparr>))"

text \<open>The end of the loop of \<open>read\<close>: hand out the chunk at the top of the heap, or its first bytes.\<close>

definition read_chunk :: "nat \<Rightarrow> asm_buffer \<Rightarrow> asm_buffer list \<Rightarrow> assembler \<Rightarrow> chunk \<times> assembler" where
  "read_chunk max_length c rest a =
     (if max_length < length (ab_bytes c) then
        ((ab_offset c, take max_length (ab_bytes c)),
         a\<lparr>asm_bytes_read := asm_bytes_read a + max_length,
           asm_buffered := wrapping_sub (asm_buffered a) max_length,
           asm_data := heap_push (c\<lparr>ab_offset := ab_offset c + max_length,
             ab_bytes := drop max_length (ab_bytes c)\<rparr>) rest\<rparr>)
      else
        ((ab_offset c, ab_bytes c),
         a\<lparr>asm_bytes_read := asm_bytes_read a + length (ab_bytes c),
           asm_buffered := wrapping_sub (asm_buffered a) (length (ab_bytes c)),
           asm_allocated := wrapping_sub (asm_allocated a) (ab_allocation_size c),
           asm_data := rest\<rparr>))"

function read_loop :: "nat \<Rightarrow> bool \<Rightarrow> assembler \<Rightarrow> chunk option \<times> assembler" where
  "read_loop max_length ordered a = (case asm_data a of
     [] \<Rightarrow> (None, a)
   | c # rest \<Rightarrow>
       if ordered then
         if asm_bytes_read a < ab_offset c then (None, a)
         else if ab_offset c + length (ab_bytes c) \<le> asm_bytes_read a then
           read_loop max_length ordered
             (a\<lparr>asm_buffered := wrapping_sub (asm_buffered a) (length (ab_bytes c)),
                asm_allocated := wrapping_sub (asm_allocated a) (ab_allocation_size c),
                asm_data := rest\<rparr>)
         else
           let start = asm_bytes_read a - ab_offset c;
               (x, a') = read_chunk max_length
                 (c\<lparr>ab_offset := ab_offset c + start, ab_bytes := drop start (ab_bytes c)\<rparr>) rest
                 (a\<lparr>asm_buffered := wrapping_sub (asm_buffered a) start\<rparr>) in
           (Some x, a')
       else let (x, a') = read_chunk max_length c rest a in (Some x, a'))"
  by pat_completeness auto
termination by (relation "measure (\<lambda>(_, _, a). length (asm_data a))") auto

declare read_loop.simps [simp del]

definition assembler_read :: "nat \<Rightarrow> bool \<Rightarrow> assembler \<Rightarrow> chunk option \<times> assembler" where
  "assembler_read max_length ordered a =
     (case (ordered, asm_next a) of
        (True, Some slot) \<Rightarrow> let (x, a') = read_slot max_length slot a in (Some x, a')
      | _ \<Rightarrow> read_loop max_length ordered a)"

text \<open>The loop over the duplicates of a new frame in unordered mode: keep what lies between them.\<close>

fun keep_new :: "nat \<Rightarrow> bytes \<Rightarrow> nat \<Rightarrow> urange list \<Rightarrow> assembler \<Rightarrow> nat \<times> bytes \<times> assembler" where
  "keep_new offset bytes allocation_size [] a = (offset, bytes, a)"
| "keep_new offset bytes allocation_size ((ds, de) # dups) a =
     (if offset < ds then
        let b = buffer_new offset (take (ds - offset) bytes) allocation_size in
        keep_new de (drop (de - ds) (drop (ds - offset) bytes)) allocation_size dups
          (a\<lparr>asm_buffered := asm_buffered a + length (ab_bytes b),
             asm_allocated := asm_allocated a + ab_allocation_size b,
             asm_data := heap_push b (asm_data a)\<rparr>)
      else keep_new de (drop (de - offset) bytes) allocation_size dups a)"

text \<open>The part of \<open>insert\<close> after duplicates have been dealt with.\<close>

definition insert_buffer :: "nat \<Rightarrow> bytes \<Rightarrow> nat \<Rightarrow> assembler \<Rightarrow> assembler" where
  "insert_buffer offset bytes allocation_size a0 =
     (if bytes = [] then a0
      else
        let b = buffer_new offset bytes allocation_size;
            a = a0\<lparr>asm_buffered := asm_buffered a0 + length bytes,
                   asm_allocated := asm_allocated a0 + allocation_size\<rparr> in
        if is_ordered (asm_state a) \<and> asm_next a = None \<and> asm_data a = [] \<and> offset = asm_bytes_read a then
          a\<lparr>asm_next := Some b\<rparr>
        else
          let a1 = flush_slot a;
              a2 = a1\<lparr>asm_data := heap_push b (asm_data a1)\<rparr>;
              buffered = min (asm_buffered a2) (wrapping_sub (asm_end a2) (asm_bytes_read a2));
              over_allocation = wrapping_sub (asm_allocated a2) buffered;
              threshold = max 32768 (buffered * 3 div 2) in
          if threshold < over_allocation then defragment a2 else a2)"

definition assembler_insert :: "nat \<Rightarrow> bytes \<Rightarrow> nat \<Rightarrow> assembler \<Rightarrow> assembler" where
  "assembler_insert offset bytes allocation_size a0 =
     (let a = a0\<lparr>asm_end := max (asm_end a0) (offset + length bytes)\<rparr> in
      case asm_state a of
        Unordered recvd \<Rightarrow>
          let (dups, it) = rs_replace_collect (rs_replace (offset, offset + length bytes) recvd);
              (offset', bytes', a') = keep_new offset bytes allocation_size dups a in
          insert_buffer offset' bytes' allocation_size
            (a'\<lparr>asm_state := Unordered (rs_replace_drop it)\<rparr>)
      | Ordered \<Rightarrow>
          if offset < asm_bytes_read a then
            if offset + length bytes \<le> asm_bytes_read a then a
            else
              let diff = asm_bytes_read a - offset in
              insert_buffer (offset + diff) (drop diff bytes) allocation_size a
          else insert_buffer offset bytes allocation_size a)"

definition assembler_clear :: "assembler \<Rightarrow> assembler" where
  "assembler_clear a = a\<lparr>asm_next := None, asm_data := [], asm_buffered := 0, asm_allocated := 0\<rparr>"

section \<open>The heap as a priority queue\<close>

text \<open>What the assembler needs of a heap: pushing adds one element and keeps the order.\<close>

locale priority_queue =
  fixes before :: "'a \<Rightarrow> 'a \<Rightarrow> bool"
    and push :: "'a \<Rightarrow> 'a list \<Rightarrow> 'a list"
  assumes push_mset: "mset (push x q) = add_mset x (mset q)"
    and push_sorted: "sorted_wrt before q \<Longrightarrow> sorted_wrt before (push x q)"
begin

lemma push_set [simp]: "set (push x q) = insert x (set q)"
  using arg_cong [OF push_mset, of set_mset] by simp

lemma push_nonempty [simp]: "push x q \<noteq> []"
  using push_mset [of x q] by auto

lemma push_sum: "sum_list (map f (push x q)) = f x + sum_list (map (f :: 'a \<Rightarrow> nat) q)"
proof -
  have "sum_list (map f xs) = sum_mset (image_mset f (mset xs))" for xs
    by (induction xs) auto
  then show ?thesis by (simp add: push_mset)
qed

end

lemma ab_before_trans: "ab_before a b \<Longrightarrow> ab_before b c \<Longrightarrow> ab_before a c"
  by (auto simp: ab_before_def)

lemma ab_before_total: "\<not> ab_before c b \<Longrightarrow> ab_before b c"
  by (auto simp: ab_before_def)

lemma heap_push_mset: "mset (heap_push b q) = add_mset b (mset q)"
  by (induction q) auto

lemma heap_push_sorted: "sorted_wrt ab_before q \<Longrightarrow> sorted_wrt ab_before (heap_push b q)"
proof (induction q)
  case (Cons c cs)
  have "set (heap_push b cs) = insert b (set cs)"
    using arg_cong [OF heap_push_mset, of set_mset b cs] by simp
  with Cons show ?case by (auto intro: ab_before_trans dest: ab_before_total)
qed simp

interpretation heap: priority_queue ab_before heap_push
  by unfold_locales (simp_all add: heap_push_mset heap_push_sorted)

section \<open>Contents of the assembler\<close>

definition covers :: "asm_buffer \<Rightarrow> nat set" where
  "covers b = {ab_offset b..<ab_offset b + length (ab_bytes b)}"

definition cov :: "asm_buffer list \<Rightarrow> nat set" where
  "cov bs = (\<Union>b \<in> set bs. covers b)"

definition total_alloc :: "asm_buffer list \<Rightarrow> nat" where
  "total_alloc bs = sum_list (map ab_allocation_size bs)"

definition content_ok :: "(nat \<Rightarrow> u8) \<Rightarrow> asm_buffer \<Rightarrow> bool" where
  "content_ok S b \<longleftrightarrow> slice S (ab_offset b) (length (ab_bytes b)) = ab_bytes b \<and>
     length (ab_bytes b) \<le> ab_allocation_size b"

definition good :: "(nat \<Rightarrow> u8) \<Rightarrow> asm_buffer \<Rightarrow> bool" where
  "good S b \<longleftrightarrow> content_ok S b \<and> ab_bytes b \<noteq> []"

lemma cov_simps [simp]: "cov [] = {}" "cov (b # bs) = covers b \<union> cov bs" "cov (heap_push b bs) = covers b \<union> cov bs"
  "cov (xs @ ys) = cov xs \<union> cov ys"
  by (auto simp: cov_def)

lemma total_len_simps [simp]: "total_len [] = 0" "total_len (b # bs) = length (ab_bytes b) + total_len bs"
  "total_len (heap_push b bs) = length (ab_bytes b) + total_len bs"
  by (simp_all add: total_len_def heap.push_sum)

lemma total_alloc_simps [simp]: "total_alloc [] = 0" "total_alloc (b # bs) = ab_allocation_size b + total_alloc bs"
  "total_alloc (heap_push b bs) = ab_allocation_size b + total_alloc bs"
  by (simp_all add: total_alloc_def heap.push_sum)

lemma finite_cov [simp]: "finite (cov bs)"
  by (simp add: cov_def covers_def)

lemma card_cov_le: "card (cov bs) \<le> total_len bs"
proof (induction bs)
  case (Cons b bs)
  have "card (covers b \<union> cov bs) \<le> card (covers b) + card (cov bs)" by (rule card_Un_le)
  with Cons show ?case by (simp add: covers_def)
qed simp

text \<open>Buffers whose lengths add up to the size of their union do not overlap.\<close>

lemma disjoint_Cons:
  "total_len (b # bs) = card (cov (b # bs)) \<longleftrightarrow>
     total_len bs = card (cov bs) \<and> covers b \<inter> cov bs = {}"
proof -
  have "card (covers b \<union> cov bs) + card (covers b \<inter> cov bs) = length (ab_bytes b) + card (cov bs)"
    using card_Un_Int [of "covers b" "cov bs"] by (simp add: covers_def)
  moreover define k u where "k = card (covers b \<inter> cov bs)" and "u = card (covers b \<union> cov bs)"
  ultimately have "u + k = length (ab_bytes b) + card (cov bs)" by simp
  then have "length (ab_bytes b) + total_len bs = u \<longleftrightarrow> total_len bs = card (cov bs) \<and> k = 0"
    using card_cov_le [of bs] by linarith
  then show ?thesis by (simp add: k_def u_def covers_def)
qed

lemma total_len_le_alloc: "\<forall>b \<in> set bs. content_ok S b \<Longrightarrow> total_len bs \<le> total_alloc bs"
  by (induction bs) (auto simp: content_ok_def)

section \<open>Defragmentation\<close>

fun chained :: "nat \<Rightarrow> asm_buffer list \<Rightarrow> bool" where
  "chained off [] = True"
| "chained off (c # cs) \<longleftrightarrow> off \<le> ab_offset c \<and> chained (ab_offset c + length (ab_bytes c)) cs"

lemma try_mark:
  assumes "content_ok S c"
  shows "covers (try_mark_defragment off c) = covers c \<inter> {off..}"
    and "content_ok S (try_mark_defragment off c)"
    and "off \<le> ab_offset (try_mark_defragment off c)"
    and "ab_defragmented (try_mark_defragment off c) \<Longrightarrow>
      ab_allocation_size (try_mark_defragment off c) = length (ab_bytes (try_mark_defragment off c))"
    and "ab_bytes c \<noteq> [] \<Longrightarrow>
      ab_offset (try_mark_defragment off c) + length (ab_bytes (try_mark_defragment off c)) =
      max off (ab_offset c + length (ab_bytes c))"
proof -
  let ?d = "off - ab_offset c" and ?c' = "try_mark_defragment off c"
  have off: "ab_offset ?c' = max (ab_offset c) off"
    and bytes: "ab_bytes ?c' = drop ?d (ab_bytes c)"
    and alloc: "ab_defragmented ?c' \<Longrightarrow> ab_allocation_size ?c' = length (ab_bytes ?c')"
      "\<not> ab_defragmented ?c' \<Longrightarrow> ab_allocation_size ?c' = ab_allocation_size c"
    by (auto simp: try_mark_defragment_def Let_def)
  show "covers ?c' = covers c \<inter> {off..}"
    unfolding covers_def off bytes by (cases "ab_offset c \<le> off") auto
  show "off \<le> ab_offset ?c'" by (simp add: off)
  show "ab_defragmented ?c' \<Longrightarrow> ab_allocation_size ?c' = length (ab_bytes ?c')" by (rule alloc(1))
  show "ab_bytes c \<noteq> [] \<Longrightarrow>
      ab_offset ?c' + length (ab_bytes ?c') = max off (ab_offset c + length (ab_bytes c))"
    unfolding off bytes by (cases "ab_bytes c") auto
  have "slice S (ab_offset c + ?d) (length (ab_bytes c) - ?d) = drop ?d (ab_bytes c)"
    using assms drop_slice [of ?d S "ab_offset c" "length (ab_bytes c)"] by (simp add: content_ok_def)
  moreover have "ab_offset c + ?d = max (ab_offset c) off" by simp
  moreover have "length (ab_bytes ?c') \<le> ab_allocation_size ?c'"
    using alloc assms bytes by (cases "ab_defragmented ?c'") (auto simp: content_ok_def)
  ultimately show "content_ok S ?c'" by (simp add: content_ok_def off bytes)
qed

lemma mark_all:
  assumes "sorted_wrt ab_before cs" and "\<forall>c \<in> set cs. good S c"
  shows "cov (mark_all off cs) = cov cs \<inter> {off..} \<and> chained off (mark_all off cs) \<and>
    (\<forall>c \<in> set (mark_all off cs). content_ok S c \<and>
       (ab_defragmented c \<longrightarrow> ab_allocation_size c = length (ab_bytes c)))"
  using assms
proof (induction cs arbitrary: off)
  case (Cons c cs)
  let ?c' = "try_mark_defragment off c"
  let ?next = "ab_offset ?c' + length (ab_bytes ?c')"
  have c: "content_ok S c" "ab_bytes c \<noteq> []" and cs: "\<forall>c \<in> set cs. good S c" "sorted_wrt ab_before cs"
    using Cons.prems by (auto simp: good_def)
  note mark = try_mark [OF c(1), of off]
  have nx: "?next = max off (ab_offset c + length (ab_bytes c))" by (rule mark(5) [OF c(2)])
  have "x \<in> covers c \<or> ?next \<le> x" if "x \<in> cov cs" "off \<le> x" for x
  proof -
    obtain d where d: "d \<in> set cs" "ab_offset d \<le> x" using \<open>x \<in> cov cs\<close> by (auto simp: cov_def covers_def)
    then have "ab_offset c \<le> x" using Cons.prems(1) by (auto simp: ab_before_def)
    then show ?thesis using \<open>off \<le> x\<close> unfolding nx by (auto simp: covers_def)
  qed
  moreover have "off \<le> ?next" by (simp add: nx)
  ultimately have "covers c \<inter> {off..} \<union> cov cs \<inter> {?next..} = (covers c \<union> cov cs) \<inter> {off..}"
    by fastforce
  then show ?case using Cons.IH [OF cs(2,1), of ?next] mark(1-4) by (simp add: Let_def)
qed simp

lemma chained_disjoint: "chained off cs \<Longrightarrow> cov cs \<subseteq> {off..} \<and> total_len cs = card (cov cs)"
proof (induction cs arbitrary: off)
  case (Cons c cs)
  let ?e = "ab_offset c + length (ab_bytes c)"
  have IH: "cov cs \<subseteq> {?e..}" "total_len cs = card (cov cs)" and off: "off \<le> ab_offset c"
    using Cons.IH [of ?e] Cons.prems by simp_all
  have "covers c \<inter> cov cs = {}" using IH(1) by (auto simp: covers_def)
  moreover have "cov (c # cs) \<subseteq> {off..}" using IH(1) off by (auto simp: covers_def)
  ultimately show ?case using IH(2) disjoint_Cons by blast
qed simp

definition compact :: "(nat \<Rightarrow> u8) \<Rightarrow> asm_buffer list \<Rightarrow> bool" where
  "compact S heap \<longleftrightarrow> sorted_wrt ab_before heap \<and>
     (\<forall>c \<in> set heap. good S c \<and> ab_allocation_size c = length (ab_bytes c))"

lemma compact_push:
  "compact S heap \<Longrightarrow> good S c \<Longrightarrow> ab_allocation_size c = length (ab_bytes c) \<Longrightarrow> compact S (heap_push c heap)"
  by (auto simp: compact_def heap.push_sorted)

lemma covers_defragmented [simp]: "covers (buffer_new_defragmented off buf) = {off..<off + length buf}"
  by (simp add: covers_def buffer_new_defragmented_def)

lemma good_defragmented: "slice S off (length buf) = buf \<Longrightarrow> buf \<noteq> [] \<Longrightarrow> good S (buffer_new_defragmented off buf)"
  by (simp add: good_def content_ok_def buffer_new_defragmented_def)

lemma buffer_new_defragmented_simps [simp]:
  "ab_offset (buffer_new_defragmented off buf) = off"
  "ab_bytes (buffer_new_defragmented off buf) = buf"
  "ab_allocation_size (buffer_new_defragmented off buf) = length buf"
  by (simp_all add: buffer_new_defragmented_def)

lemma defrag_loop:
  assumes "compact S heap" and "slice S off (length buf) = buf"
    and "\<forall>c \<in> set cs. content_ok S c \<and> (ab_defragmented c \<longrightarrow> ab_allocation_size c = length (ab_bytes c))"
  shows "compact S (defrag_loop off buf cs heap) \<and>
    cov (defrag_loop off buf cs heap) = cov heap \<union> {off..<off + length buf} \<union> cov cs \<and>
    total_len (defrag_loop off buf cs heap) = total_len heap + length buf + total_len cs"
  using assms
proof (induction cs arbitrary: off buf heap)
  case Nil
  then show ?case by (auto intro!: compact_push good_defragmented)
next
  case (Cons c cs)
  have c: "content_ok S c" "ab_defragmented c \<Longrightarrow> ab_allocation_size c = length (ab_bytes c)"
    and bytes: "slice S (ab_offset c) (length (ab_bytes c)) = ab_bytes c"
    and cs: "\<forall>c \<in> set cs. content_ok S c \<and> (ab_defragmented c \<longrightarrow> ab_allocation_size c = length (ab_bytes c))"
    using Cons.prems(3) by (auto simp: content_ok_def)
  show ?case
  proof (cases "ab_defragmented c")
    case True
    then have "compact S (if ab_bytes c \<noteq> [] then heap_push c heap else heap)"
      using Cons.prems(1) c by (auto intro!: compact_push simp: good_def)
    from Cons.IH [OF this Cons.prems(2) cs] True show ?thesis
      by (auto simp: covers_def)
  next
    case frag: False
    show ?thesis
    proof (cases "ab_offset c = off + length buf")
      case True
      have "slice S off (length (buf @ ab_bytes c)) = buf @ ab_bytes c"
        using Cons.prems(2) bytes True slice_append [of S off "length buf" "length (ab_bytes c)"] by simp
      from Cons.IH [OF Cons.prems(1) this cs]
      have "compact S (defrag_loop off buf (c # cs) heap)"
        "cov (defrag_loop off buf (c # cs) heap) =
          cov heap \<union> {off..<off + (length buf + length (ab_bytes c))} \<union> cov cs"
        "total_len (defrag_loop off buf (c # cs) heap) = total_len heap + length (buf @ ab_bytes c) + total_len cs"
        using frag True by simp_all
      moreover have "{off..<off + (length buf + length (ab_bytes c))} = {off..<off + length buf} \<union> covers c"
        unfolding covers_def True by auto
      ultimately show ?thesis by (simp add: Un_assoc)
    next
      case False
      have "compact S (if buf \<noteq> [] then heap_push (buffer_new_defragmented off buf) heap else heap)"
        using Cons.prems(1,2) by (auto intro!: compact_push good_defragmented)
      from Cons.IH [OF this bytes cs] frag False show ?thesis
        by (auto simp: covers_def)
    qed
  qed
qed

section \<open>The invariant\<close>

definition bufs :: "assembler \<Rightarrow> asm_buffer list" where
  "bufs a = (case asm_next a of None \<Rightarrow> [] | Some b \<Rightarrow> [b]) @ asm_data a"

definition asm_core :: "(nat \<Rightarrow> u8) \<Rightarrow> assembler \<Rightarrow> bool" where
  "asm_core S a \<longleftrightarrow> (\<forall>b \<in> set (bufs a). good S b) \<and> sorted_wrt ab_before (asm_data a) \<and>
     asm_buffered a = total_len (bufs a) \<and> asm_allocated a = total_alloc (bufs a) \<and>
     cov (bufs a) \<subseteq> {..<asm_end a} \<and> asm_bytes_read a \<le> asm_end a"

definition slot_ok :: "assembler \<Rightarrow> bool" where
  "slot_ok a \<longleftrightarrow> (case asm_next a of None \<Rightarrow> True
     | Some b \<Rightarrow> asm_state a = Ordered \<and> asm_data a = [] \<and> ab_offset b = asm_bytes_read a)"

text \<open>In unordered mode the buffers do not overlap, and everything received is either buffered or read.\<close>

definition state_ok :: "assembler \<Rightarrow> bool" where
  "state_ok a \<longleftrightarrow> (case asm_state a of Ordered \<Rightarrow> True
     | Unordered recvd \<Rightarrow> rs_inv recvd \<and> cov (bufs a) \<subseteq> rs_set recvd \<and> rs_set recvd \<subseteq> {..<asm_end a} \<and>
         total_len (bufs a) = card (cov (bufs a)) \<and>
         asm_bytes_read a + total_len (bufs a) = card (rs_set recvd))"

definition asm_inv :: "(nat \<Rightarrow> u8) \<Rightarrow> assembler \<Rightarrow> bool" where
  "asm_inv S a \<longleftrightarrow> asm_core S a \<and> slot_ok a \<and> state_ok a"

lemmas asm_defs = asm_inv_def asm_core_def slot_ok_def state_ok_def bufs_def

lemma asm_inv_new: "asm_inv S assembler_new"
  by (simp add: asm_defs assembler_new_def)

lemma flush_slot:
  assumes "asm_core S a" and "slot_ok a"
  shows "asm_core S (flush_slot a)" and "asm_next (flush_slot a) = None"
    and "cov (bufs (flush_slot a)) = cov (bufs a)" and "bufs (flush_slot a) = asm_data (flush_slot a)"
    and "total_len (bufs (flush_slot a)) = total_len (bufs a)"
  using assms by (auto simp: flush_slot_def asm_defs split: option.splits)

lemma flush_slot_fields [simp]:
  "asm_state (flush_slot a) = asm_state a" "asm_bytes_read (flush_slot a) = asm_bytes_read a"
  "asm_end (flush_slot a) = asm_end a"
  by (simp_all add: flush_slot_def split: option.splits)

lemma defragment_fields [simp]:
  "asm_state (defragment a) = asm_state a" "asm_bytes_read (defragment a) = asm_bytes_read a"
  "asm_end (defragment a) = asm_end a"
  by (simp_all add: defragment_def Let_def)

lemma defragment:
  assumes "asm_core S a" and "slot_ok a"
  shows "asm_core S (defragment a)" and "asm_next (defragment a) = None"
    and "cov (bufs (defragment a)) = cov (bufs a)"
    and "total_len (bufs (defragment a)) = card (cov (bufs a))"
proof -
  note flush = flush_slot [OF assms]
  let ?data = "asm_data (flush_slot a)"
  let ?marked = "mark_all 0 ?data"
  have data: "sorted_wrt ab_before ?data" "\<forall>b \<in> set ?data. good S b"
    using flush(1,4) by (simp_all add: asm_core_def)
  note mark = mark_all [OF data, of 0]
  have loop: "compact S (defrag_loop 0 [] ?marked [])" "cov (defrag_loop 0 [] ?marked []) = cov ?marked"
    "total_len (defrag_loop 0 [] ?marked []) = total_len ?marked"
    using defrag_loop [of S "[]" 0 "[]" ?marked] mark by (simp_all add: compact_def)
  have cov: "cov ?marked = cov (bufs a)" using mark flush(3,4) by simp
  have bufs: "bufs (defragment a) = defrag_loop 0 [] ?marked []"
    using flush(2) by (simp add: defragment_def bufs_def Let_def)
  have "total_alloc (bufs (defragment a)) = total_len (bufs (defragment a))"
    using loop(1) unfolding bufs compact_def total_alloc_def total_len_def
    by (intro arg_cong [of _ _ sum_list] map_cong) auto
  moreover have "cov (bufs a) \<subseteq> {..<asm_end a} \<and> asm_bytes_read a \<le> asm_end a"
    using assms(1) by (simp add: asm_core_def)
  moreover have "asm_data (defragment a) = bufs (defragment a)"
    "asm_buffered (defragment a) = total_len ?marked" "asm_allocated (defragment a) = total_len ?marked"
    unfolding bufs by (simp_all add: defragment_def Let_def)
  ultimately show "asm_core S (defragment a)"
    using loop cov unfolding asm_core_def bufs by (simp add: compact_def)
  show "asm_next (defragment a) = None" using flush(2) by (simp add: defragment_def Let_def)
  show "cov (bufs (defragment a)) = cov (bufs a)" by (simp add: bufs loop(2) cov)
  show "total_len (bufs (defragment a)) = card (cov (bufs a))"
    using chained_disjoint [of 0 ?marked] mark cov by (simp add: bufs loop(3))
qed

section \<open>Reading\<close>

lemma good_simps:
  assumes "good S c" and "k < length (ab_bytes c)"
  shows "good S (c\<lparr>ab_offset := ab_offset c + k, ab_bytes := drop k (ab_bytes c)\<rparr>)"
    and "take k (ab_bytes c) = slice S (ab_offset c) k"
proof -
  have c: "slice S (ab_offset c) (length (ab_bytes c)) = ab_bytes c" using assms(1)
    by (simp add: good_def content_ok_def)
  then have "slice S (ab_offset c + k) (length (ab_bytes c) - k) = drop k (ab_bytes c)"
    using drop_slice [of k S "ab_offset c" "length (ab_bytes c)"] by simp
  then show "good S (c\<lparr>ab_offset := ab_offset c + k, ab_bytes := drop k (ab_bytes c)\<rparr>)"
    using assms by (auto simp: good_def content_ok_def)
  show "take k (ab_bytes c) = slice S (ab_offset c) k"
    using take_slice [of k S "ab_offset c" "length (ab_bytes c)"] c assms(2) by simp
qed

text \<open>The heap and its counters, whatever the order of the list.\<close>

definition heap_ok :: "(nat \<Rightarrow> u8) \<Rightarrow> asm_buffer list \<Rightarrow> assembler \<Rightarrow> bool" where
  "heap_ok S q a \<longleftrightarrow> (\<forall>b \<in> set q. good S b) \<and> asm_buffered a = total_len q \<and>
     asm_allocated a = total_alloc q \<and> cov q \<subseteq> {..<asm_end a}"

lemma asm_core_heap_ok:
  "asm_core S a \<longleftrightarrow> heap_ok S (bufs a) a \<and> sorted_wrt ab_before (asm_data a) \<and> asm_bytes_read a \<le> asm_end a"
  by (auto simp: asm_core_def heap_ok_def)

lemma covers_advance:
  "k \<le> length (ab_bytes c) \<Longrightarrow>
   covers (c\<lparr>ab_offset := ab_offset c + k, ab_bytes := drop k (ab_bytes c)\<rparr>) = covers c - {..<ab_offset c + k}"
  by (auto simp: covers_def)

lemma advance_chunk:
  assumes "heap_ok S (c # rest) a" and "k < length (ab_bytes c)"
  shows "heap_ok S (c\<lparr>ab_offset := ab_offset c + k, ab_bytes := drop k (ab_bytes c)\<rparr> # rest)
    (a\<lparr>asm_buffered := wrapping_sub (asm_buffered a) k\<rparr>)"
  using assms good_simps(1) [of S c k] covers_advance [of k c] by (auto simp: heap_ok_def)

lemma read_chunk:
  assumes ok: "heap_ok S (c # rest) a" and sorted: "sorted_wrt ab_before rest"
    and r: "read_chunk m c rest a = ((o', bs), a')"
  shows "heap_ok S (asm_data a') a'" and "sorted_wrt ab_before (asm_data a')"
    and "o' = ab_offset c" and "slice S o' (length bs) = bs" and "length bs = min m (length (ab_bytes c))"
    and "cov (asm_data a') = (covers c - {o'..<o' + length bs}) \<union> cov rest"
    and "total_len (asm_data a') + length bs = total_len (c # rest)"
    and "asm_bytes_read a' = asm_bytes_read a + length bs"
    and "asm_next a' = asm_next a \<and> asm_end a' = asm_end a \<and> asm_state a' = asm_state a"
proof -
  have c: "good S c" using ok by (simp add: heap_ok_def)
  then have bytes: "slice S (ab_offset c) (length (ab_bytes c)) = ab_bytes c"
    by (simp add: good_def content_ok_def)
  have "o' = ab_offset c \<and> slice S o' (length bs) = bs \<and> length bs = min m (length (ab_bytes c)) \<and>
    cov (asm_data a') = (covers c - {o'..<o' + length bs}) \<union> cov rest \<and>
    total_len (asm_data a') + length bs = total_len (c # rest) \<and>
    asm_bytes_read a' = asm_bytes_read a + length bs \<and>
    (asm_next a' = asm_next a \<and> asm_end a' = asm_end a \<and> asm_state a' = asm_state a) \<and>
    sorted_wrt ab_before (asm_data a') \<and> heap_ok S (asm_data a') a'"
  proof (cases "m < length (ab_bytes c)")
    case True
    let ?c' = "c\<lparr>ab_offset := ab_offset c + m, ab_bytes := drop m (ab_bytes c)\<rparr>"
    have *: "o' = ab_offset c" "bs = slice S (ab_offset c) m"
      "a' = a\<lparr>asm_bytes_read := asm_bytes_read a + m, asm_buffered := wrapping_sub (asm_buffered a) m,
         asm_data := heap_push ?c' rest\<rparr>"
      using r True good_simps(2) [OF c True] by (auto simp: read_chunk_def)
    have "covers ?c' = covers c - {ab_offset c..<ab_offset c + m}"
      using covers_advance [of m c] True by (auto simp: covers_def)
    moreover have "heap_ok S (heap_push ?c' rest) a'"
      using advance_chunk [OF ok True] by (simp add: heap_ok_def * heap.push_set)
    ultimately show ?thesis using True sorted by (simp add: * heap.push_sorted)
  next
    case False
    have *: "o' = ab_offset c" "bs = ab_bytes c"
      "a' = a\<lparr>asm_bytes_read := asm_bytes_read a + length (ab_bytes c),
         asm_buffered := wrapping_sub (asm_buffered a) (length (ab_bytes c)),
         asm_allocated := wrapping_sub (asm_allocated a) (ab_allocation_size c), asm_data := rest\<rparr>"
      using r False by (auto simp: read_chunk_def)
    have "heap_ok S rest a'" using ok by (simp add: heap_ok_def *)
    then show ?thesis using False sorted bytes by (simp add: * covers_def)
  qed
  then show "heap_ok S (asm_data a') a'" and "sorted_wrt ab_before (asm_data a')"
    and "o' = ab_offset c" and "slice S o' (length bs) = bs" and "length bs = min m (length (ab_bytes c))"
    and "cov (asm_data a') = (covers c - {o'..<o' + length bs}) \<union> cov rest"
    and "total_len (asm_data a') + length bs = total_len (c # rest)"
    and "asm_bytes_read a' = asm_bytes_read a + length bs"
    and "asm_next a' = asm_next a \<and> asm_end a' = asm_end a \<and> asm_state a' = asm_state a"
    by blast+
qed

text \<open>What a read in ordered mode does to the assembler \<open>a\<close>.\<close>

definition ordered_read :: "(nat \<Rightarrow> u8) \<Rightarrow> nat \<Rightarrow> assembler \<Rightarrow> chunk option \<times> assembler \<Rightarrow> bool" where
  "ordered_read S m a r = (case r of
     (None, a') \<Rightarrow> asm_bytes_read a \<notin> cov (bufs a) \<and> asm_bytes_read a' = asm_bytes_read a \<and>
       cov (bufs a') \<inter> {asm_bytes_read a..} = cov (bufs a) \<inter> {asm_bytes_read a..}
   | (Some (off, bs), a') \<Rightarrow> off = asm_bytes_read a \<and> asm_bytes_read a \<in> cov (bufs a) \<and>
       slice S off (length bs) = bs \<and> length bs \<le> m \<and> (0 < m \<longrightarrow> bs \<noteq> []) \<and>
       asm_bytes_read a' = off + length bs \<and>
       cov (bufs a') \<inter> {asm_bytes_read a'..} = cov (bufs a) \<inter> {asm_bytes_read a'..})"

lemma Int_atLeast_mono:
  fixes A B :: "nat set"
  assumes "A \<inter> {x..} = B \<inter> {x..}" and "x \<le> y"
  shows "A \<inter> {y..} = B \<inter> {y..}"
proof -
  have "C \<inter> {y..} = (C \<inter> {x..}) \<inter> {y..}" for C :: "nat set" using assms(2) by auto
  then show ?thesis using assms(1) by metis
qed

lemma ordered_read_cong:
  assumes "ordered_read S m a1 r" and "asm_bytes_read a1 = asm_bytes_read a"
    and eq: "cov (bufs a1) \<inter> {asm_bytes_read a..} = cov (bufs a) \<inter> {asm_bytes_read a..}"
  shows "ordered_read S m a r"
proof -
  have mem: "asm_bytes_read a \<in> cov (bufs a1) \<longleftrightarrow> asm_bytes_read a \<in> cov (bufs a)" using eq by auto
  obtain x a' where r: "r = (x, a')" by (cases r)
  show ?thesis
  proof (cases x)
    case None
    then show ?thesis using assms(1,2) eq mem by (simp add: ordered_read_def r)
  next
    case (Some y)
    obtain off bs where y: "y = (off, bs)" by (cases y)
    have "asm_bytes_read a' = asm_bytes_read a + length bs"
      using assms(1,2) by (simp add: ordered_read_def r Some y)
    then have eq': "cov (bufs a1) \<inter> {asm_bytes_read a'..} = cov (bufs a) \<inter> {asm_bytes_read a'..}"
      by (intro Int_atLeast_mono [OF eq]) simp
    show ?thesis
      using assms(1) unfolding ordered_read_def r Some y prod.case option.case assms(2) mem eq' .
  qed
qed

lemma read_loop_ordered:
  assumes "asm_core S a" and "asm_next a = None"
  shows "ordered_read S m a (read_loop m True a) \<and> asm_core S (snd (read_loop m True a)) \<and>
    asm_next (snd (read_loop m True a)) = None \<and> asm_end (snd (read_loop m True a)) = asm_end a \<and>
    asm_state (snd (read_loop m True a)) = asm_state a"
  using assms
proof (induction m True a rule: read_loop.induct)
  case (1 m a)
  have bufs: "bufs a = asm_data a" using 1(3) by (simp add: bufs_def)
  show ?case
  proof (cases "asm_data a")
    case Nil
    then have "read_loop m True a = (None, a)" by (subst read_loop.simps) simp
    then show ?thesis using 1(2,3) bufs Nil by (simp add: ordered_read_def)
  next
    case (Cons c rest)
    note core = 1(2) [unfolded asm_core_heap_ok bufs Cons]
    have c: "ab_bytes c \<noteq> []" using core by (simp add: heap_ok_def good_def)
    have first: "\<forall>b \<in> set rest. ab_offset c \<le> ab_offset b" and sorted: "sorted_wrt ab_before rest"
      using core by (auto simp: ab_before_def)
    consider (wait) "asm_bytes_read a < ab_offset c"
      | (stale) "ab_offset c + length (ab_bytes c) \<le> asm_bytes_read a"
      | (take) "ab_offset c \<le> asm_bytes_read a" "asm_bytes_read a < ab_offset c + length (ab_bytes c)"
      by linarith
    then show ?thesis
    proof cases
      case wait
      then have "read_loop m True a = (None, a)" by (subst read_loop.simps) (simp add: Cons)
      moreover have "asm_bytes_read a \<notin> cov (bufs a)"
        using wait first unfolding bufs Cons by (fastforce simp: cov_def covers_def)
      ultimately show ?thesis using 1(2,3) by (simp add: ordered_read_def)
    next
      case stale
      let ?a1 = "a\<lparr>asm_buffered := wrapping_sub (asm_buffered a) (length (ab_bytes c)),
        asm_allocated := wrapping_sub (asm_allocated a) (ab_allocation_size c), asm_data := rest\<rparr>"
      have step: "read_loop m True a = read_loop m True ?a1"
        using stale c by (subst read_loop.simps) (auto simp: Cons)
      have core1: "asm_core S ?a1" and next1: "asm_next ?a1 = None" and bufs1: "bufs ?a1 = rest"
        using core 1(3) by (auto simp: asm_core_heap_ok heap_ok_def bufs_def)
      have IH: "ordered_read S m ?a1 (read_loop m True ?a1) \<and> asm_core S (snd (read_loop m True ?a1)) \<and>
          asm_next (snd (read_loop m True ?a1)) = None \<and> asm_end (snd (read_loop m True ?a1)) = asm_end ?a1 \<and>
          asm_state (snd (read_loop m True ?a1)) = asm_state ?a1"
        by (rule 1(1) [OF Cons _ _ _ core1 next1]) (use stale c in auto)
      have "cov (bufs ?a1) \<inter> {asm_bytes_read a..} = cov (bufs a) \<inter> {asm_bytes_read a..}"
        using stale unfolding bufs1 bufs Cons by (auto simp: covers_def)
      then have "ordered_read S m a (read_loop m True ?a1)"
        using ordered_read_cong [OF conjunct1 [OF IH], of a] by simp
      then show ?thesis using IH by (simp add: step)
    next
      case take
      define k where "k = asm_bytes_read a - ab_offset c"
      define c' where "c' = c\<lparr>ab_offset := ab_offset c + k, ab_bytes := drop k (ab_bytes c)\<rparr>"
      define a1 where "a1 = a\<lparr>asm_buffered := wrapping_sub (asm_buffered a) k\<rparr>"
      have k: "k < length (ab_bytes c)" "ab_offset c + k = asm_bytes_read a" using take by (auto simp: k_def)
      obtain off bs a' where r: "read_chunk m c' rest a1 = ((off, bs), a')" by (metis prod.exhaust)
      have step: "read_loop m True a = (Some (off, bs), a')"
        using take r by (subst read_loop.simps) (simp add: Cons Let_def k_def [symmetric] c'_def [symmetric]
            a1_def [symmetric])
      note rc = read_chunk [OF advance_chunk [OF conjunct1 [OF core] k(1), folded c'_def a1_def] sorted r]
      have a1: "asm_next a1 = None" "asm_end a1 = asm_end a" "asm_state a1 = asm_state a"
        "asm_bytes_read a1 = asm_bytes_read a" using 1(3) by (simp_all add: a1_def)
      have bufs': "bufs a' = asm_data a'" using rc(9) a1 by (simp add: bufs_def)
      have cov: "covers c' = covers c - {..<asm_bytes_read a}"
        using covers_advance [of k c] k by (simp add: c'_def)
      have off: "off = asm_bytes_read a" using rc(3) k(2) by (simp add: c'_def)
      have br: "asm_bytes_read a' = off + length bs" using rc(8) a1 off by simp
      have "off + length bs \<le> asm_end a"
        using core rc(5) k by (auto simp: heap_ok_def covers_def off c'_def subset_eq)
      then have "asm_core S a'" using rc(1,2,9) a1 by (simp add: asm_core_heap_ok bufs' br)
      moreover have "cov (bufs a') \<inter> {asm_bytes_read a'..} = cov (bufs a) \<inter> {asm_bytes_read a'..}"
        unfolding bufs' bufs rc(6) cov Cons br off by auto
      moreover have "asm_bytes_read a \<in> cov (bufs a)" using take unfolding bufs Cons by (simp add: covers_def)
      moreover have "0 < m \<longrightarrow> bs \<noteq> []" using rc(5) k(1) by (auto simp: c'_def)
      ultimately show ?thesis
        using rc(4,5,9) a1 br off by (simp add: step ordered_read_def)
    qed
  qed
qed

lemma range_below: "{a..<b} \<subseteq> {..<e} \<Longrightarrow> a < b \<Longrightarrow> b \<le> (e :: nat)"
  by (drule subsetD [of _ _ "b - 1"]) auto

lemma read_slot:
  assumes core: "asm_core S a" and slot: "slot_ok a" "asm_next a = Some b"
    and r: "read_slot m b a = (x, a')"
  shows "ordered_read S m a (Some x, a')" and "asm_core S a'" and "slot_ok a'"
    and "asm_end a' = asm_end a \<and> asm_state a' = asm_state a"
proof -
  have a: "asm_data a = []" "ab_offset b = asm_bytes_read a" "bufs a = [b]" and st: "asm_state a = Ordered"
    using slot by (simp_all add: slot_ok_def bufs_def)
  have b: "good S b" "slice S (ab_offset b) (length (ab_bytes b)) = ab_bytes b" "ab_bytes b \<noteq> []"
    and ok: "heap_ok S [b] a"
    using core a by (auto simp: asm_core_heap_ok heap_ok_def good_def content_ok_def)
  have le: "ab_offset b + length (ab_bytes b) \<le> asm_end a"
    using ok b(3) by (intro range_below) (auto simp: heap_ok_def covers_def)
  have "ordered_read S m a (Some x, a') \<and> asm_core S a' \<and> slot_ok a' \<and>
      asm_end a' = asm_end a \<and> asm_state a' = asm_state a"
  proof (cases "m < length (ab_bytes b)")
    case True
    let ?b' = "b\<lparr>ab_offset := ab_offset b + m, ab_bytes := drop m (ab_bytes b)\<rparr>"
    have x: "x = (asm_bytes_read a, slice S (asm_bytes_read a) m)"
      and a': "a' = a\<lparr>asm_bytes_read := asm_bytes_read a + m, asm_buffered := wrapping_sub (asm_buffered a) m,
         asm_next := Some ?b'\<rparr>"
      using r True good_simps(2) [OF b(1) True] a(2) by (auto simp: read_slot_def)
    have bufs': "bufs a' = [?b']" using a(1) by (simp add: bufs_def a')
    have "heap_ok S [?b'] a'" using advance_chunk [OF ok True] by (simp add: heap_ok_def a')
    then have "asm_core S a'"
      using le a(1,2) True unfolding asm_core_heap_ok bufs' by (simp add: a')
    moreover have "slot_ok a'" using a st by (simp add: slot_ok_def a')
    moreover have "ordered_read S m a (Some x, a')"
    proof -
      have br: "asm_bytes_read a' = asm_bytes_read a + m" by (simp add: a')
      have "covers ?b' \<inter> {asm_bytes_read a + m..} = covers b \<inter> {asm_bytes_read a + m..}"
        unfolding a(2) [symmetric] covers_advance [OF less_imp_le [OF True]] by auto
      moreover have "asm_bytes_read a \<in> covers b" using b(3) a(2) by (simp add: covers_def)
      ultimately show ?thesis by (simp add: ordered_read_def x bufs' a(3) br)
    qed
    ultimately show ?thesis by (simp add: a')
  next
    case False
    have x: "x = (asm_bytes_read a, ab_bytes b)"
      and a': "a' = a\<lparr>asm_bytes_read := asm_bytes_read a + length (ab_bytes b),
         asm_buffered := wrapping_sub (asm_buffered a) (length (ab_bytes b)),
         asm_allocated := wrapping_sub (asm_allocated a) (ab_allocation_size b), asm_next := None\<rparr>"
      using r False a(2) by (auto simp: read_slot_def)
    have bufs': "bufs a' = []" using a(1) by (simp add: bufs_def a')
    have "asm_core S a'"
      using le a(1,2) ok unfolding asm_core_heap_ok bufs' by (simp add: a' heap_ok_def)
    moreover have "ordered_read S m a (Some x, a')"
      using False b a by (auto simp: ordered_read_def x bufs' covers_def) (simp_all add: a')
    ultimately show ?thesis using a by (simp add: slot_ok_def a')
  qed
  then show "ordered_read S m a (Some x, a')" and "asm_core S a'" and "slot_ok a'"
    and "asm_end a' = asm_end a \<and> asm_state a' = asm_state a" by auto
qed

lemma assembler_read_ordered:
  assumes "asm_inv S a" and "asm_state a = Ordered"
  shows "ordered_read S m a (assembler_read m True a)" and "asm_inv S (snd (assembler_read m True a))"
    and "asm_state (snd (assembler_read m True a)) = Ordered"
proof -
  have core: "asm_core S a" and slot: "slot_ok a" using assms(1) by (simp_all add: asm_inv_def)
  have "ordered_read S m a (assembler_read m True a) \<and> asm_inv S (snd (assembler_read m True a)) \<and>
      asm_state (snd (assembler_read m True a)) = Ordered"
  proof (cases "asm_next a")
    case None
    then have "assembler_read m True a = read_loop m True a" by (simp add: assembler_read_def)
    then show ?thesis
      using read_loop_ordered [OF core None, of m] assms(2) by (simp add: asm_inv_def slot_ok_def state_ok_def)
  next
    case (Some b)
    obtain x a' where r: "read_slot m b a = (x, a')" by (metis prod.exhaust)
    then have "assembler_read m True a = (Some x, a')" by (simp add: assembler_read_def Some)
    then show ?thesis
      using read_slot [OF core slot Some r] assms(2) by (simp add: asm_inv_def state_ok_def)
  qed
  then show "ordered_read S m a (assembler_read m True a)" and "asm_inv S (snd (assembler_read m True a))"
    and "asm_state (snd (assembler_read m True a)) = Ordered" by auto
qed

text \<open>Unordered mode: any buffered chunk may come, and it leaves the buffer.\<close>

lemma assembler_read_unordered:
  assumes inv: "asm_inv S a" and st: "asm_state a = Unordered recvd"
    and r: "assembler_read m False a = (x, a')"
  shows "asm_inv S a'" and "asm_state a' = Unordered recvd" and "x = None \<longleftrightarrow> cov (bufs a) = {}"
    and "\<And>off bs. x = Some (off, bs) \<Longrightarrow> slice S off (length bs) = bs \<and> length bs \<le> m \<and> (0 < m \<longrightarrow> bs \<noteq> []) \<and>
      {off..<off + length bs} \<subseteq> cov (bufs a) \<and> cov (bufs a') = cov (bufs a) - {off..<off + length bs} \<and>
      asm_bytes_read a' = asm_bytes_read a + length bs"
proof -
  have core: "asm_core S a" and nx: "asm_next a = None" and state: "state_ok a"
    using inv st by (auto simp: asm_inv_def slot_ok_def split: option.splits)
  have bufs: "bufs a = asm_data a" using nx by (simp add: bufs_def)
  have loop: "assembler_read m False a = read_loop m False a" by (simp add: assembler_read_def)
  have "asm_inv S a' \<and> asm_state a' = Unordered recvd \<and> (x = None \<longleftrightarrow> cov (bufs a) = {}) \<and>
    (\<forall>off bs. x = Some (off, bs) \<longrightarrow> slice S off (length bs) = bs \<and> length bs \<le> m \<and> (0 < m \<longrightarrow> bs \<noteq> []) \<and>
      {off..<off + length bs} \<subseteq> cov (bufs a) \<and> cov (bufs a') = cov (bufs a) - {off..<off + length bs} \<and>
      asm_bytes_read a' = asm_bytes_read a + length bs)"
  proof (cases "asm_data a")
    case Nil
    then have "x = None" "a' = a" using r loop by (simp_all add: read_loop.simps [of m False a])
    then show ?thesis using inv st bufs Nil by simp
  next
    case (Cons c rest)
    obtain off bs b where rc': "read_chunk m c rest a = ((off, bs), b)" by (metis prod.exhaust)
    then have x: "x = Some (off, bs)" and b: "b = a'"
      using r loop by (simp_all add: read_loop.simps [of m False a] Cons)
    note ok = core [unfolded asm_core_heap_ok bufs Cons]
    have sorted: "sorted_wrt ab_before rest" using ok by simp
    note rc = read_chunk [OF conjunct1 [OF ok] sorted rc' [unfolded b]]
    have bufs': "bufs a' = asm_data a'" using rc(9) nx by (simp add: bufs_def)
    have c: "ab_bytes c \<noteq> []" using ok by (simp add: heap_ok_def good_def)
    have sub: "{off..<off + length bs} \<subseteq> covers c" using rc(3,5) by (auto simp: covers_def)
    have st_a: "rs_inv recvd" "cov (bufs a) \<subseteq> rs_set recvd" "rs_set recvd \<subseteq> {..<asm_end a}"
      "total_len (c # rest) = card (cov (c # rest))" "asm_bytes_read a + total_len (c # rest) = card (rs_set recvd)"
      using state unfolding state_ok_def st bufs Cons by simp_all
    have disj: "covers c \<inter> cov rest = {}" "total_len rest = card (cov rest)"
      using st_a(4) disjoint_Cons by blast+
    have cov': "cov (bufs a') = cov (bufs a) - {off..<off + length bs}"
      using rc(6) disj(1) sub unfolding bufs' bufs Cons by auto
    have "card (cov (bufs a')) = card (cov (bufs a)) - length bs"
      unfolding cov' using sub by (subst card_Diff_subset) (auto simp: bufs Cons)
    then have tl: "total_len (asm_data a') = card (cov (asm_data a'))"
      using rc(7) st_a(4) by (simp add: bufs' bufs Cons)
    have "card (rs_set recvd) \<le> asm_end a"
      using card_mono [OF _ st_a(3)] by simp
    then have br: "asm_bytes_read a' \<le> asm_end a'" using rc(7,8,9) st_a(5) by simp
    have "asm_core S a'" using rc(1,2) br by (simp add: asm_core_heap_ok bufs')
    moreover have "state_ok a'"
      using rc(7,8,9) st st_a tl cov' unfolding state_ok_def bufs' by (auto simp: bufs')
    ultimately have "asm_inv S a'" using rc(9) nx by (simp add: asm_inv_def slot_ok_def)
    moreover have "cov (bufs a) \<noteq> {}" using c unfolding bufs Cons by (auto simp: covers_def)
    moreover have "0 < m \<longrightarrow> bs \<noteq> []" using rc(5) c by (auto simp: min_def split: if_splits)
    ultimately show ?thesis
      using rc(4,5,8,9) st x sub cov' unfolding bufs Cons by (auto simp: Cons)
  qed
  then show "asm_inv S a'" and "asm_state a' = Unordered recvd" and "x = None \<longleftrightarrow> cov (bufs a) = {}"
    and "\<And>off bs. x = Some (off, bs) \<Longrightarrow> slice S off (length bs) = bs \<and> length bs \<le> m \<and> (0 < m \<longrightarrow> bs \<noteq> []) \<and>
      {off..<off + length bs} \<subseteq> cov (bufs a) \<and> cov (bufs a') = cov (bufs a) - {off..<off + length bs} \<and>
      asm_bytes_read a' = asm_bytes_read a + length bs" by auto
qed

section \<open>Inserting\<close>

lemma buffer_new_simps [simp]:
  "ab_offset (buffer_new off bs k) = off" "ab_bytes (buffer_new off bs k) = bs"
  "ab_allocation_size (buffer_new off bs k) = k" "covers (buffer_new off bs k) = {off..<off + length bs}"
  by (simp_all add: buffer_new_def covers_def)

lemma good_buffer_new: "0 < n \<Longrightarrow> n \<le> k \<Longrightarrow> good S (buffer_new off (slice S off n) k)"
  by (simp add: good_def content_ok_def)

text \<open>\<open>a'\<close> holds what \<open>a\<close> held and the bytes from \<open>off\<close> on, and nothing else has changed.\<close>

definition inserted :: "(nat \<Rightarrow> u8) \<Rightarrow> assembler \<Rightarrow> nat set \<Rightarrow> assembler \<Rightarrow> bool" where
  "inserted S a new a' \<longleftrightarrow> asm_core S a' \<and> slot_ok a' \<and> cov (bufs a') = cov (bufs a) \<union> new \<and>
     total_len (bufs a') \<in> {total_len (bufs a) + card new, card (cov (bufs a'))} \<and>
     asm_state a' = asm_state a \<and> asm_bytes_read a' = asm_bytes_read a \<and> asm_end a' = asm_end a"

lemma if_either: "(if c then x else y) = y \<or> (if c then x else y) = x"
  by simp

lemma insert_buffer:
  assumes core: "asm_core S a" and slot: "slot_ok a" and "n \<le> k" and "off + n \<le> asm_end a"
  shows "inserted S a {off..<off + n} (insert_buffer off (slice S off n) k a)"
proof (cases "n = 0")
  case True
  then show ?thesis using core slot by (simp add: insert_buffer_def inserted_def)
next
  case False
  define b where "b = buffer_new off (slice S off n) k"
  define a0 where "a0 = a\<lparr>asm_buffered := asm_buffered a + n, asm_allocated := asm_allocated a + k\<rparr>"
  have good: "good S b" and b: "length (ab_bytes b) = n" "ab_allocation_size b = k" "ab_offset b = off"
    "covers b = {off..<off + n}"
    using False assms(3) by (simp_all add: b_def good_buffer_new)
  have unfold: "insert_buffer off (slice S off n) k a =
      (if is_ordered (asm_state a0) \<and> asm_next a0 = None \<and> asm_data a0 = [] \<and> off = asm_bytes_read a0
       then a0\<lparr>asm_next := Some b\<rparr>
       else
         let a1 = flush_slot a0;
             a2 = a1\<lparr>asm_data := heap_push b (asm_data a1)\<rparr>;
             buffered = min (asm_buffered a2) (wrapping_sub (asm_end a2) (asm_bytes_read a2));
             over_allocation = wrapping_sub (asm_allocated a2) buffered;
             threshold = max 32768 (buffered * 3 div 2) in
         if threshold < over_allocation then defragment a2 else a2)"
    using False by (simp add: insert_buffer_def a0_def b_def Let_def)
  show ?thesis
  proof (cases "is_ordered (asm_state a0) \<and> asm_next a0 = None \<and> asm_data a0 = [] \<and> off = asm_bytes_read a0")
    case True
    then have eq: "insert_buffer off (slice S off n) k a = a0\<lparr>asm_next := Some b\<rparr>"
      unfolding unfold by (rule if_P)
    have bufs: "bufs a = []" "bufs (a0\<lparr>asm_next := Some b\<rparr>) = [b]"
      using True by (simp_all add: bufs_def a0_def)
    have "asm_state a = Ordered" using True by (cases "asm_state a") (simp_all add: a0_def)
    then show ?thesis
      using core good b assms(4) True unfolding inserted_def eq bufs asm_core_heap_ok
      by (auto simp: heap_ok_def slot_ok_def a0_def)
  next
    case slow: False
    define a2 where "a2 = (flush_slot a0)\<lparr>asm_data := heap_push b (asm_data (flush_slot a0))\<rparr>"
    note flush = flush_slot [OF core slot]
    have flush0: "asm_data (flush_slot a0) = asm_data (flush_slot a)" "asm_next (flush_slot a0) = None"
      "asm_buffered (flush_slot a0) = asm_buffered a + n" "asm_allocated (flush_slot a0) = asm_allocated a + k"
      by (simp_all add: flush_slot_def a0_def split: option.splits)
    have bufs2: "bufs a2 = heap_push b (bufs (flush_slot a))"
      using flush(4) flush0 by (simp add: a2_def bufs_def)
    have fields: "asm_state a2 = asm_state a" "asm_bytes_read a2 = asm_bytes_read a" "asm_end a2 = asm_end a"
      "asm_next a2 = None" "asm_data a2 = heap_push b (asm_data (flush_slot a))"
      using flush0 by (simp_all add: a2_def) (simp_all add: a0_def)
    have "asm_buffered (flush_slot a) = asm_buffered a" "asm_allocated (flush_slot a) = asm_allocated a"
      by (simp_all add: flush_slot_def split: option.splits)
    moreover have range_sub: "{off..<off + n} \<subseteq> {..<asm_end a}" using assms(4) by auto
    moreover have "asm_buffered a2 = asm_buffered a + n" "asm_allocated a2 = asm_allocated a + k"
      using flush0(3,4) by (simp_all add: a2_def)
    ultimately have "heap_ok S (bufs a2) a2"
      using flush(1) good b assms(4) range_sub unfolding asm_core_heap_ok heap_ok_def bufs2
      by (simp add: fields)
    then have core2: "asm_core S a2"
      using flush(1) core by (simp add: asm_core_heap_ok fields heap.push_sorted)
    have slot2: "slot_ok a2" by (simp add: slot_ok_def fields)
    have cov2: "cov (bufs a2) = cov (bufs a) \<union> {off..<off + n}" "total_len (bufs a2) = total_len (bufs a) + n"
      using flush(3,5) b by (auto simp: bufs2)
    have "insert_buffer off (slice S off n) k a = a2 \<or> insert_buffer off (slice S off n) k a = defragment a2"
      unfolding unfold if_not_P [OF slow] Let_def a2_def by (rule if_either)
    then show ?thesis
    proof
      assume "insert_buffer off (slice S off n) k a = a2"
      then show ?thesis using core2 slot2 cov2 fields by (simp add: inserted_def)
    next
      assume "insert_buffer off (slice S off n) k a = defragment a2"
      then show ?thesis
        using defragment [OF core2 slot2] cov2 fields by (simp add: inserted_def slot_ok_def)
    qed
  qed
qed

lemma rs_rest_above: "rs_inv ((s, e) # rs) \<Longrightarrow> rs_set rs \<subseteq> {e..}"
  by (fastforce simp: rs_set_def)

lemma keep_new:
  assumes "rs_inv dups" and "\<forall>(s, e) \<in> set dups. off \<le> s \<and> e \<le> off + n"
    and "heap_ok S (asm_data a) a" and "sorted_wrt ab_before (asm_data a)" and "n \<le> k"
    and "off + n \<le> asm_end a" and "keep_new off (slice S off n) k dups a = (off', bs, a')"
  shows "off \<le> off' \<and> off' \<le> off + n \<and> bs = slice S off' (off + n - off') \<and> rs_set dups \<subseteq> {off..<off'} \<and>
    heap_ok S (asm_data a') a' \<and> sorted_wrt ab_before (asm_data a') \<and>
    cov (asm_data a') = cov (asm_data a) \<union> ({off..<off'} - rs_set dups) \<and>
    total_len (asm_data a') = total_len (asm_data a) + card ({off..<off'} - rs_set dups) \<and>
    asm_state a' = asm_state a \<and> asm_bytes_read a' = asm_bytes_read a \<and> asm_end a' = asm_end a \<and>
    asm_next a' = asm_next a"
  using assms
proof (induction dups arbitrary: off n a)
  case Nil
  then show ?case by (auto simp: rs_set_def)
next
  case (Cons d dups)
  obtain ds de where d: "d = (ds, de)" by (cases d)
  have inv: "rs_inv dups" "ds < de" and above: "rs_set dups \<subseteq> {de..}"
    and range: "off \<le> ds" "de \<le> off + n" "\<forall>(s, e) \<in> set dups. de \<le> s \<and> e \<le> de + (off + n - de)"
    using Cons.prems(1,2) rs_rest_above [of ds de dups] by (fastforce simp: d)+
  define n' where "n' = off + n - de"
  have n': "de + n' = off + n" "n' \<le> k" using range(2) Cons.prems(5) inv(2) range(1) by (auto simp: n'_def)
  note set = rs_set_Cons [of ds de dups]
  show ?case
  proof (cases "off < ds")
    case True
    let ?b = "buffer_new off (slice S off (ds - off)) k"
    let ?a = "a\<lparr>asm_buffered := asm_buffered a + (ds - off), asm_allocated := asm_allocated a + k,
      asm_data := heap_push ?b (asm_data a)\<rparr>"
    have "take (ds - off) (slice S off n) = slice S off (ds - off)"
      "drop (de - ds) (drop (ds - off) (slice S off n)) = slice S de n'"
      using range inv(2) True by (simp_all add: n'_def min_def add.commute)
    then have call: "keep_new de (slice S de n') k dups ?a = (off', bs, a')"
      using Cons.prems(7) True by (simp only: d keep_new.simps if_True Let_def buffer_new_simps length_slice)
    have "good S ?b" using True range Cons.prems(5) inv(2) by (intro good_buffer_new) auto
    then have "heap_ok S (asm_data ?a) ?a"
      using Cons.prems(3,6) range inv(2) True by (auto simp: heap_ok_def)
    from Cons.IH [OF inv(1) range(3) [folded n'_def] this _ n'(2) _ call]
    have IH: "de \<le> off'" "off' \<le> de + n'" "bs = slice S off' (de + n' - off')" "rs_set dups \<subseteq> {de..<off'}"
      "heap_ok S (asm_data a') a'" "sorted_wrt ab_before (asm_data a')"
      "cov (asm_data a') = cov (asm_data ?a) \<union> ({de..<off'} - rs_set dups)"
      "total_len (asm_data a') = total_len (asm_data ?a) + card ({de..<off'} - rs_set dups)"
      "asm_state a' = asm_state a \<and> asm_bytes_read a' = asm_bytes_read a \<and> asm_end a' = asm_end a \<and>
       asm_next a' = asm_next a"
      using Cons.prems(4,6) n'(1) by (auto simp: heap.push_sorted)
    have new: "{off..<off'} - rs_set (d # dups) = {off..<ds} \<union> ({de..<off'} - rs_set dups)"
      using IH(1) range inv(2) True above unfolding d set by auto
    have "card ({off..<off'} - rs_set (d # dups)) = (ds - off) + card ({de..<off'} - rs_set dups)"
      unfolding new using inv(2) by (subst card_Un_disjoint) auto
    moreover have "rs_set (d # dups) \<subseteq> {off..<off'}" using IH(1,4) range(1) inv(2) unfolding d set by auto
    ultimately show ?thesis using IH n'(1) range inv(2) True by (auto simp: new)
  next
    case False
    then have off: "off = ds" using range by simp
    have call: "keep_new de (slice S de n') k dups a = (off', bs, a')"
      using Cons.prems(7) off range inv(2) by (simp add: d n'_def add.commute)
    from Cons.IH [OF inv(1) range(3) [folded n'_def] Cons.prems(3,4) n'(2) _ call]
    have IH: "de \<le> off'" "off' \<le> de + n'" "bs = slice S off' (de + n' - off')" "rs_set dups \<subseteq> {de..<off'}"
      "heap_ok S (asm_data a') a'" "sorted_wrt ab_before (asm_data a')"
      "cov (asm_data a') = cov (asm_data a) \<union> ({de..<off'} - rs_set dups)"
      "total_len (asm_data a') = total_len (asm_data a) + card ({de..<off'} - rs_set dups)"
      "asm_state a' = asm_state a \<and> asm_bytes_read a' = asm_bytes_read a \<and> asm_end a' = asm_end a \<and>
       asm_next a' = asm_next a"
      using Cons.prems(6) n'(1) by auto
    have new: "{off..<off'} - rs_set (d # dups) = {de..<off'} - rs_set dups"
      using IH(1) inv(2) above off unfolding d set by auto
    moreover have "rs_set (d # dups) \<subseteq> {off..<off'}" using IH(1,4) range(1) inv(2) unfolding d set by auto
    ultimately show ?thesis using IH n'(1) range inv(2) by auto
  qed
qed

lemma asm_core_grow_end: "asm_core S a \<Longrightarrow> asm_end a \<le> e \<Longrightarrow> asm_core S (a\<lparr>asm_end := e\<rparr>)"
  by (auto simp: asm_core_def bufs_def split: option.splits)

lemma slot_ok_grow_end [simp]: "slot_ok (a\<lparr>asm_end := e\<rparr>) = slot_ok a"
  by (simp add: slot_ok_def split: option.split)

lemma bufs_simps [simp]: "bufs (a\<lparr>asm_end := e\<rparr>) = bufs a" "bufs (a\<lparr>asm_state := st\<rparr>) = bufs a"
  by (simp_all add: bufs_def)

lemma assembler_insert_ordered:
  assumes inv: "asm_inv S a" and st: "asm_state a = Ordered" and "n \<le> k"
  shows "asm_inv S (assembler_insert off (slice S off n) k a)"
    and "asm_state (assembler_insert off (slice S off n) k a) = Ordered"
    and "asm_bytes_read (assembler_insert off (slice S off n) k a) = asm_bytes_read a"
    and "cov (bufs (assembler_insert off (slice S off n) k a)) =
      cov (bufs a) \<union> ({off..<off + n} \<inter> {asm_bytes_read a..})"
proof -
  let ?r = "asm_bytes_read a"
  define e where "e = max (asm_end a) (off + n)"
  define a1 where "a1 = a\<lparr>asm_end := e\<rparr>"
  define new where "new = {off..<off + n} \<inter> {?r..}"
  have core: "asm_core S a1" and slot: "slot_ok a1"
    using inv asm_core_grow_end [of S a e] by (simp_all add: asm_inv_def a1_def e_def)
  have a1: "asm_state a1 = Ordered" "asm_bytes_read a1 = ?r" "bufs a1 = bufs a" "off + n \<le> asm_end a1"
    using st by (simp_all add: a1_def e_def)
  have "inserted S a1 new (assembler_insert off (slice S off n) k a)"
  proof (cases "off < ?r")
    case False
    then have "new = {off..<off + n}" by (auto simp: new_def)
    moreover have "assembler_insert off (slice S off n) k a = insert_buffer off (slice S off n) k a1"
      using st False by (simp add: assembler_insert_def a1_def e_def Let_def)
    ultimately show ?thesis using insert_buffer [OF core slot assms(3) a1(4)] by simp
  next
    case before: True
    show ?thesis
    proof (cases "off + n \<le> ?r")
      case True
      then have "new = {}" by (auto simp: new_def)
      moreover have "assembler_insert off (slice S off n) k a = a1"
        using st True before by (simp add: assembler_insert_def a1_def e_def Let_def)
      ultimately show ?thesis using core slot by (simp add: inserted_def)
    next
      case False
      then have "new = {?r..<?r + (off + n - ?r)}" using before by (auto simp: new_def)
      moreover have "assembler_insert off (slice S off n) k a = insert_buffer ?r (slice S ?r (off + n - ?r)) k a1"
        using st False before by (simp add: assembler_insert_def a1_def e_def Let_def add.commute)
      ultimately show ?thesis
        using insert_buffer [OF core slot, of "off + n - ?r" k ?r] assms(3) a1(4) before False by auto
    qed
  qed
  then show "asm_inv S (assembler_insert off (slice S off n) k a)"
    and "asm_state (assembler_insert off (slice S off n) k a) = Ordered"
    and "asm_bytes_read (assembler_insert off (slice S off n) k a) = asm_bytes_read a"
    and "cov (bufs (assembler_insert off (slice S off n) k a)) =
      cov (bufs a) \<union> ({off..<off + n} \<inter> {asm_bytes_read a..})"
    using a1 by (auto simp: inserted_def asm_inv_def state_ok_def new_def)
qed

section \<open>Ordered streams\<close>

text \<open>
  The stream \<open>S\<close> is cut into frames in any way, the frames arrive in any order, overlapping or repeated,
  and the application reads in between. The result is what the application has read so far.
\<close>

datatype asm_op = Insert nat nat nat | Read nat

fun asm_step :: "(nat \<Rightarrow> u8) \<Rightarrow> asm_op \<Rightarrow> bytes \<times> assembler \<Rightarrow> bytes \<times> assembler" where
  "asm_step S (Insert off n k) (out, a) = (out, assembler_insert off (slice S off n) k a)"
| "asm_step S (Read m) (out, a) = (case assembler_read m True a of
     (None, a') \<Rightarrow> (out, a') | (Some (off, bs), a') \<Rightarrow> (out @ bs, a'))"

fun asm_run :: "(nat \<Rightarrow> u8) \<Rightarrow> asm_op list \<Rightarrow> bytes \<times> assembler \<Rightarrow> bytes \<times> assembler" where
  "asm_run S [] s = s"
| "asm_run S (op # ops) s = asm_run S ops (asm_step S op s)"

definition received :: "asm_op list \<Rightarrow> nat set" where
  "received ops = (\<Union>op \<in> set ops. case op of Insert off n k \<Rightarrow> {off..<off + n} | Read m \<Rightarrow> {})"

definition frame_sized :: "asm_op \<Rightarrow> bool" where
  "frame_sized op = (case op of Insert off n k \<Rightarrow> n \<le> k | Read m \<Rightarrow> True)"

definition stream_ok :: "(nat \<Rightarrow> u8) \<Rightarrow> nat set \<Rightarrow> bytes \<times> assembler \<Rightarrow> bool" where
  "stream_ok S R s \<longleftrightarrow> asm_inv S (snd s) \<and> asm_state (snd s) = Ordered \<and>
     fst s = slice S 0 (asm_bytes_read (snd s)) \<and>
     cov (bufs (snd s)) \<inter> {asm_bytes_read (snd s)..} = R \<inter> {asm_bytes_read (snd s)..}"

lemma stream_ok_step:
  assumes ok: "stream_ok S R (out, a)" and "frame_sized op"
  shows "stream_ok S (R \<union> received [op]) (asm_step S op (out, a))"
proof (cases op)
  case (Insert off n k)
  have inv: "asm_inv S a" "asm_state a = Ordered" and le: "n \<le> k"
    using assms by (simp_all add: stream_ok_def frame_sized_def Insert)
  note ins = assembler_insert_ordered [OF inv le, of off]
  have "cov (bufs a) \<inter> {asm_bytes_read a..} = R \<inter> {asm_bytes_read a..}" using ok by (simp add: stream_ok_def)
  then have "cov (bufs (assembler_insert off (slice S off n) k a)) \<inter> {asm_bytes_read a..} =
      (R \<union> {off..<off + n}) \<inter> {asm_bytes_read a..}"
    unfolding ins(4) Int_Un_distrib2 by auto
  then show ?thesis using ok ins(1-3) by (simp add: stream_ok_def Insert received_def)
next
  case (Read m)
  have inv: "asm_inv S a" "asm_state a = Ordered" using ok by (simp_all add: stream_ok_def)
  obtain x a' where r: "assembler_read m True a = (x, a')" by (metis prod.exhaust)
  have rd: "ordered_read S m a (x, a')" "asm_inv S a'" "asm_state a' = Ordered"
    using assembler_read_ordered [OF inv, of m] r by simp_all
  have out: "out = slice S 0 (asm_bytes_read a)"
    and cov: "cov (bufs a) \<inter> {asm_bytes_read a..} = R \<inter> {asm_bytes_read a..}"
    using ok by (simp_all add: stream_ok_def)
  show ?thesis
  proof (cases x)
    case None
    then show ?thesis using rd cov out by (simp add: stream_ok_def Read received_def r ordered_read_def)
  next
    case (Some y)
    obtain off bs where y: "y = (off, bs)" by (cases y)
    have *: "off = asm_bytes_read a" "slice S off (length bs) = bs" "asm_bytes_read a' = off + length bs"
      "cov (bufs a') \<inter> {asm_bytes_read a'..} = cov (bufs a) \<inter> {asm_bytes_read a'..}"
      using rd(1) unfolding ordered_read_def Some y prod.case option.case by blast+
    have "out @ bs = slice S 0 (asm_bytes_read a')"
      using slice_append [of S 0 "asm_bytes_read a" "length bs"] out *(1-3) by simp
    moreover have "cov (bufs a) \<inter> {asm_bytes_read a'..} = R \<inter> {asm_bytes_read a'..}"
      by (rule Int_atLeast_mono [OF cov]) (simp add: *(1,3))
    ultimately show ?thesis
      using rd(2,3) *(4) by (simp add: stream_ok_def Read received_def r Some y)
  qed
qed

lemma stream_ok_run:
  "stream_ok S R s \<Longrightarrow> \<forall>op \<in> set ops. frame_sized op \<Longrightarrow> stream_ok S (R \<union> received ops) (asm_run S ops s)"
proof (induction ops arbitrary: R s)
  case Nil
  then show ?case by (simp add: received_def)
next
  case (Cons op ops)
  have "stream_ok S (R \<union> received [op]) (asm_step S op s)"
    using stream_ok_step [of S R "fst s" "snd s" op] Cons.prems by simp
  from Cons.IH [OF this] Cons.prems(2) show ?case by (simp add: received_def Un_assoc)
qed

text \<open>C22: the assembler delivers the stream. Whatever way the peer cuts its stream into frames, in whatever
  order they arrive, overlap or repeat, and however the application's ordered reads interleave with them,
  the bytes it has read are exactly the beginning of the stream, and a read comes back empty-handed only
  when the next byte has not arrived yet.\<close>

theorem assembler_delivers_stream:
  assumes "\<forall>op \<in> set ops. frame_sized op" and "asm_run S ops ([], assembler_new) = (out, a)"
  shows "out = slice S 0 (asm_bytes_read a) \<and>
    (fst (assembler_read m True a) = None \<longleftrightarrow> asm_bytes_read a \<notin> received ops)"
proof -
  have "stream_ok S {} ([], assembler_new)"
    using asm_inv_new [of S] by (simp add: stream_ok_def) (simp add: assembler_new_def bufs_def)
  from stream_ok_run [OF this assms(1)] assms(2)
  have ok: "asm_inv S a" "asm_state a = Ordered" "out = slice S 0 (asm_bytes_read a)"
    "cov (bufs a) \<inter> {asm_bytes_read a..} = received ops \<inter> {asm_bytes_read a..}"
    by (simp_all add: stream_ok_def)
  then have "asm_bytes_read a \<in> cov (bufs a) \<longleftrightarrow> asm_bytes_read a \<in> received ops" by auto
  then show ?thesis
    using assembler_read_ordered(1) [OF ok(1,2), of m] ok(3)
    by (auto simp: ordered_read_def split: prod.splits option.splits)
qed

theorem assembler_delivers_stream_witness:
  "\<exists>out a. asm_run of_nat [Insert 2 3 3, Read 9, Insert 0 4 4, Read 9] ([], assembler_new) = (out, a) \<and>
     out = slice of_nat 0 (asm_bytes_read a)"
proof -
  obtain out a where r: "asm_run of_nat [Insert 2 3 3, Read 9, Insert 0 4 4, Read 9] ([], assembler_new) = (out, a)"
    by (metis prod.exhaust)
  have "\<forall>op \<in> set [Insert 2 3 3, Read 9, Insert 0 4 4, Read 9]. frame_sized op" by (simp add: frame_sized_def)
  from assembler_delivers_stream [OF this r] show ?thesis using r by blast
qed

section \<open>Unordered streams\<close>

lemma assembler_insert_unordered:
  assumes inv: "asm_inv S a" and st: "asm_state a = Unordered recvd" and "0 < n" and "n \<le> k"
  shows "\<exists>recvd'. asm_inv S (assembler_insert off (slice S off n) k a) \<and>
    asm_state (assembler_insert off (slice S off n) k a) = Unordered recvd' \<and>
    rs_set recvd' = rs_set recvd \<union> {off..<off + n} \<and>
    asm_bytes_read (assembler_insert off (slice S off n) k a) = asm_bytes_read a \<and>
    cov (bufs (assembler_insert off (slice S off n) k a)) = cov (bufs a) \<union> ({off..<off + n} - rs_set recvd)"
proof -
  define a1 where "a1 = a\<lparr>asm_end := max (asm_end a) (off + n)\<rparr>"
  have core: "asm_core S a1" and nx: "asm_next a1 = None"
    using inv st asm_core_grow_end [of S a "max (asm_end a) (off + n)"]
    by (auto simp: asm_inv_def a1_def slot_ok_def split: option.splits)
  have data: "bufs a = asm_data a1" "bufs a1 = asm_data a1" using nx by (simp_all add: bufs_def a1_def)
  have st_a: "rs_inv recvd" "cov (bufs a) \<subseteq> rs_set recvd" "rs_set recvd \<subseteq> {..<asm_end a}"
    "total_len (bufs a) = card (cov (bufs a))" "asm_bytes_read a + total_len (bufs a) = card (rs_set recvd)"
    using inv st by (simp_all add: asm_inv_def state_ok_def)
  obtain dups it where coll: "rs_replace_collect (rs_replace (off, off + n) recvd) = (dups, it)"
    by (metis prod.exhaust)
  obtain off' bs a2 where keep: "keep_new off (slice S off n) k dups a1 = (off', bs, a2)"
    by (metis prod.exhaust)
  define recvd' where "recvd' = rs_replace_drop it"
  have dups: "rs_inv dups" "rs_set dups = rs_set recvd \<inter> {off..<off + n}" "rs_inv recvd'"
    "rs_set recvd' = rs_set recvd \<union> {off..<off + n}"
    using rs_replace_collected [OF st_a(1) _ coll] assms(3) by (simp_all add: recvd'_def)
  have "\<forall>(s, e) \<in> set dups. off \<le> s \<and> e \<le> off + n"
  proof (clarify)
    fix s e assume se: "(s, e) \<in> set dups"
    then have "s < e" using dups(1) rs_inv_nonempty by blast
    then have "s \<in> rs_set dups" "e - 1 \<in> rs_set dups" using se by (auto simp: rs_set_def intro!: bexI [OF _ se])
    then show "off \<le> s \<and> e \<le> off + n" using dups(2) \<open>s < e\<close> by auto
  qed
  note kn = keep_new [OF dups(1) this _ _ assms(4) _ keep]
  have a2: "off \<le> off'" "off' \<le> off + n" "bs = slice S off' (off + n - off')" "rs_set dups \<subseteq> {off..<off'}"
    "heap_ok S (asm_data a2) a2" "sorted_wrt ab_before (asm_data a2)"
    "cov (asm_data a2) = cov (bufs a) \<union> ({off..<off'} - rs_set dups)"
    "total_len (asm_data a2) = total_len (bufs a) + card ({off..<off'} - rs_set dups)"
    "asm_state a2 = Unordered recvd" "asm_bytes_read a2 = asm_bytes_read a" "asm_end a2 = asm_end a1"
    "asm_next a2 = None"
    using kn core data nx st unfolding asm_core_heap_ok by (auto simp: a1_def)
  define a3 where "a3 = a2\<lparr>asm_state := Unordered recvd'\<rparr>"
  have bufs3: "bufs a3 = asm_data a2" using a2(12) by (simp add: bufs_def a3_def)
  have core3: "asm_core S a3"
    using a2(5,6,10,11) core unfolding asm_core_heap_ok bufs3 by (simp add: heap_ok_def a3_def a1_def)
  have slot3: "slot_ok a3" using a2(12) by (simp add: slot_ok_def a3_def)
  define a' where "a' = assembler_insert off (slice S off n) k a"
  have "a' = insert_buffer off' (slice S off' (off + n - off')) k a3"
    using st coll keep a2(3)
    by (simp add: a'_def assembler_insert_def a1_def [symmetric] recvd'_def a3_def) (simp add: a1_def)
  moreover have "off' + (off + n - off') \<le> asm_end a3" using a2(2,11) by (simp add: a3_def a1_def)
  ultimately have ins: "inserted S a3 {off'..<off + n} a'"
    using insert_buffer [OF core3 slot3, of "off + n - off'" k off'] assms(4) a2(1,2) by simp
  have cov': "cov (bufs a') = cov (bufs a) \<union> ({off..<off + n} - rs_set recvd)"
    using ins a2(1,2,4,7) dups(2) unfolding inserted_def bufs3 by auto
  have disj: "cov (bufs a) \<inter> ({off..<off + n} - rs_set recvd) = {}" using st_a(2) by auto
  have "{off..<off + n} - rs_set recvd = ({off..<off'} - rs_set dups) \<union> {off'..<off + n}"
    using a2(1,2,4) dups(2) by auto
  then have card_new: "card ({off..<off + n} - rs_set recvd) = card ({off..<off'} - rs_set dups) + card {off'..<off + n}"
    by (simp only:) (rule card_Un_disjoint; auto)
  have card': "card (cov (bufs a')) = card (cov (bufs a)) + card ({off..<off + n} - rs_set recvd)"
    unfolding cov' using disj by (subst card_Un_disjoint) auto
  have tl: "total_len (bufs a') = card (cov (bufs a'))"
    using ins a2(8) st_a(4) card_new card' unfolding inserted_def bufs3 by auto
  have "card (rs_set recvd') = card (rs_set recvd) + card ({off..<off + n} - rs_set recvd)"
    using card_Un_disjoint [of "rs_set recvd" "{off..<off + n} - rs_set recvd"] finite_subset [OF st_a(3)]
    by (simp add: dups(4))
  moreover have "asm_end a' = max (asm_end a) (off + n)" "asm_bytes_read a' = asm_bytes_read a"
    "asm_state a' = Unordered recvd'"
    using ins a2(10,11) by (simp_all add: inserted_def a3_def a1_def)
  moreover have "cov (bufs a') \<subseteq> rs_set recvd'" using cov' dups(4) st_a(2) by auto
  moreover have "rs_set recvd \<union> {off..<off + n} \<subseteq> {..<max (asm_end a) (off + n)}" using st_a(3) by auto
  ultimately have "state_ok a'"
    using dups(3,4) tl card' st_a(4,5) by (simp add: state_ok_def)
  then have "asm_inv S a'" using ins by (simp add: asm_inv_def inserted_def)
  then show ?thesis
    using dups(4) cov' ins a2(10) unfolding a'_def [symmetric] by (auto simp: inserted_def a3_def)
qed


lemma asm_inv_unordered_start:
  "asm_inv S (assembler_new\<lparr>asm_state := Unordered []\<rparr>)"
  by (simp add: asm_inv_def asm_core_def slot_ok_def state_ok_def bufs_def assembler_new_def rs_set_def)


text \<open>
  Changing to unordered mode. What is still buffered must lie beyond the read offset; a duplicate that an
  ordered read has passed but not yet thrown away breaks this.
\<close>

lemma foldl_rs_insert:
  assumes "rs_inv rs"
  shows "rs_inv (foldl (\<lambda>rs c. fst (rs_insert (ab_offset c, ab_offset c + length (ab_bytes c)) rs)) rs cs) \<and>
    rs_set (foldl (\<lambda>rs c. fst (rs_insert (ab_offset c, ab_offset c + length (ab_bytes c)) rs)) rs cs) =
      rs_set rs \<union> cov cs"
  using assms
proof (induction cs arbitrary: rs)
  case (Cons c cs)
  let ?rs = "fst (rs_insert (ab_offset c, ab_offset c + length (ab_bytes c)) rs)"
  have "rs_inv ?rs" "rs_set ?rs = rs_set rs \<union> covers c"
    using Cons.prems by (simp_all add: rs.insert_inv rs.insert_set covers_def)
  then show ?case using Cons.IH [of ?rs] by auto
qed simp

text \<open>An assembler may change from ordered to unordered reads as long as it buffers nothing below its
  read offset: afterwards it has received what was read and what is buffered, and keeps the invariant of
  unordered mode. Going back is refused.\<close>

theorem ensure_ordering_switch:
  assumes "asm_inv S a" and "asm_state a = Ordered" and "cov (bufs a) \<subseteq> {asm_bytes_read a..}"
  shows "\<exists>a' recvd. ensure_ordering False a = Inr a' \<and> asm_inv S a' \<and> asm_state a' = Unordered recvd \<and>
    rs_set recvd = {..<asm_bytes_read a} \<union> cov (bufs a) \<and> cov (bufs a') = cov (bufs a) \<and>
    asm_bytes_read a' = asm_bytes_read a \<and> ensure_ordering True a' = Inl ()"
proof -
  have core: "asm_core S a" and slot: "slot_ok a" using assms(1) by (simp_all add: asm_inv_def)
  define a1 where "a1 = flush_slot a"
  define a2 where "a2 = (if asm_data a1 \<noteq> [] then defragment a1 else a1)"
  note flush = flush_slot [OF core slot, folded a1_def]
  have slot1: "slot_ok a1" using flush(2) by (simp add: slot_ok_def)
  note defrag = defragment [OF flush(1) slot1]
  have fields: "asm_bytes_read a2 = asm_bytes_read a" "asm_end a2 = asm_end a" "asm_state a2 = Ordered"
    "asm_next a2 = None"
    using assms(2) flush(2) defrag(2) by (simp_all add: a2_def a1_def)
  have core2: "asm_core S a2" using flush(1) defrag(1) by (simp add: a2_def)
  have cov2: "cov (bufs a2) = cov (bufs a)" using flush(3) defrag(3) by (simp add: a2_def)
  have tl2: "total_len (bufs a2) = card (cov (bufs a2))"
    using defrag(3,4) flush(4) by (simp add: a2_def)
  have bufs2: "bufs a2 = asm_data a2" using fields(4) by (simp add: bufs_def)
  define recvd where "recvd = foldl (\<lambda>rs c. fst (rs_insert (ab_offset c, ab_offset c + length (ab_bytes c)) rs))
      (fst (rs_insert (0, asm_bytes_read a2) [])) (asm_data a2)"
  have "rs_inv (fst (rs_insert (0, asm_bytes_read a2) []))"
    "rs_set (fst (rs_insert (0, asm_bytes_read a2) [])) = {..<asm_bytes_read a}"
    using fields(1) rs.insert_set [of "[]" 0] by (auto simp: rs.insert_inv rs_set_def [of "[]"])
  then have recvd: "rs_inv recvd" "rs_set recvd = {..<asm_bytes_read a} \<union> cov (bufs a)"
    using foldl_rs_insert cov2 unfolding recvd_def bufs2 by simp_all
  have en: "ensure_ordering False a = Inr (a2\<lparr>asm_state := Unordered recvd\<rparr>)"
    using assms(2) by (simp add: ensure_ordering_def a1_def [symmetric] a2_def [symmetric] recvd_def Let_def)
  have "card ({..<asm_bytes_read a} \<union> cov (bufs a)) = asm_bytes_read a + card (cov (bufs a))"
    using assms(3) by (subst card_Un_disjoint) auto
  moreover have "cov (bufs a) \<subseteq> {..<asm_end a}" "asm_bytes_read a \<le> asm_end a"
    using core by (simp_all add: asm_core_def)
  moreover have "asm_core S (a2\<lparr>asm_state := Unordered recvd\<rparr>)" using core2 by (simp add: asm_core_def)
  ultimately have "asm_inv S (a2\<lparr>asm_state := Unordered recvd\<rparr>)"
    using recvd tl2 cov2 fields by (auto simp: asm_inv_def slot_ok_def state_ok_def)
  then show ?thesis
    using en recvd cov2 fields by (auto simp: ensure_ordering_def)
qed

theorem ensure_ordering_switch_witness:
  "\<exists>a' recvd. ensure_ordering False (assembler_insert 2 (slice of_nat 2 3) 3 assembler_new) = Inr a' \<and>
     asm_state a' = Unordered recvd"
proof -
  let ?a = "assembler_insert 2 (slice of_nat 2 3) 3 assembler_new"
  have new: "asm_state assembler_new = Ordered" "asm_bytes_read assembler_new = 0" by (simp_all add: assembler_new_def)
  have ins: "asm_inv of_nat ?a" "asm_state ?a = Ordered" "asm_bytes_read ?a = 0"
    using assembler_insert_ordered [OF asm_inv_new new(1), where S = of_nat and n = 3 and k = 3 and off = 2] new(2)
    by simp_all
  then have "cov (bufs ?a) \<subseteq> {asm_bytes_read ?a..}" by simp
  from ensure_ordering_switch [OF ins(1,2) this] show ?thesis by blast
qed

text \<open>Without that condition the change goes wrong. After a frame has been received twice and read once in
  order, an unordered read hands its bytes out again, and the number of bytes read passes the end of the
  stream.\<close>

theorem switch_repeats_duplicate:
  "let a0 = assembler_insert 0 [7, 8] 2 (assembler_insert 0 [7, 8] 2 assembler_new);
       (x, a1) = assembler_read 2 True a0 in
   x = Some (0, [7, 8]) \<and>
   (\<exists>a2 a3. ensure_ordering False a1 = Inr a2 \<and> assembler_read 2 False a2 = (Some (0, [7, 8]), a3) \<and>
      asm_bytes_read a3 = 4 \<and> asm_end a3 = 2)"
proof -
  let ?b = "buffer_new 0 [7, 8] 2"
  have a0: "assembler_insert 0 [7, 8] 2 (assembler_insert 0 [7, 8] 2 assembler_new) =
      assembler_new\<lparr>asm_data := [?b, ?b], asm_buffered := 4, asm_allocated := 4, asm_end := 2\<rparr>"
    by code_simp
  have a1: "assembler_read 2 True (assembler_new\<lparr>asm_data := [?b, ?b], asm_buffered := 4, asm_allocated := 4,
        asm_end := 2\<rparr>) =
      (Some (0, [7, 8]), assembler_new\<lparr>asm_data := [?b], asm_buffered := 2, asm_allocated := 2,
        asm_bytes_read := 2, asm_end := 2\<rparr>)"
    by code_simp
  have a2: "ensure_ordering False (assembler_new\<lparr>asm_data := [?b], asm_buffered := 2, asm_allocated := 2,
        asm_bytes_read := 2, asm_end := 2\<rparr>) =
      Inr (assembler_new\<lparr>asm_state := Unordered [(0, 2)], asm_data := [?b\<lparr>ab_defragmented := True\<rparr>],
        asm_buffered := 2, asm_allocated := 2, asm_bytes_read := 2, asm_end := 2\<rparr>)"
    by code_simp
  have a3: "assembler_read 2 False (assembler_new\<lparr>asm_state := Unordered [(0, 2)],
        asm_data := [?b\<lparr>ab_defragmented := True\<rparr>], asm_buffered := 2, asm_allocated := 2,
        asm_bytes_read := 2, asm_end := 2\<rparr>) =
      (Some (0, [7, 8]), assembler_new\<lparr>asm_state := Unordered [(0, 2)], asm_bytes_read := 4, asm_end := 2\<rparr>)"
    by code_simp
  show ?thesis unfolding a0 Let_def a1 prod.case a2 by (auto simp: a3)
qed

text \<open>An empty frame upsets unordered mode. It leaves an empty range in the set of received offsets, and
  the next frame that covers it stops looking for duplicates there: the two bytes at offset 4 are
  buffered twice.\<close>

theorem empty_frame_repeats_bytes:
  "let a = assembler_insert 0 [0, 1, 2, 3, 4, 5] 6 (assembler_insert 2 [] 0
         (assembler_insert 4 [4, 5] 2 (assembler_new\<lparr>asm_state := Unordered []\<rparr>))) in
   total_len (bufs a) = 8 \<and> asm_end a = 6"
  by code_simp

end
