(* ===== verification/Var_Int.thy ===== *)
theory Var_Int
  imports Quic_Prelude
begin

text \<open>
  \<open>quic-proto/src/coding.rs\<close> and \<open>quic-proto/src/varint.rs\<close>: the fixed-width codecs and the QUIC
  variable-length integer. The trait \<open>Codec\<close> is the locale \<open>codec\<close>: what an encoder and a decoder owe
  each other. Every implementation of the trait is an interpretation of it, and the facts about
  sequences of encoded values are proved once, in the locale.
\<close>

section \<open>The codec interface\<close>

locale codec =
  fixes encode :: "'a \<Rightarrow> packet_writer"
    and decode :: "'a coding_parser"
    and valid :: "'a \<Rightarrow> bool"
  assumes encode_total: "valid x \<Longrightarrow> \<exists>bs. encode x = Some bs"
    and decode_encode: "valid x \<Longrightarrow> encode x = Some bs \<Longrightarrow> decode (bs @ rest) = Some (x, rest)"
    and encode_nonempty: "valid x \<Longrightarrow> encode x = Some bs \<Longrightarrow> bs \<noteq> []"
    and decode_suffix: "decode bs = Some (x, rest) \<Longrightarrow> \<exists>pre. pre \<noteq> [] \<and> bs = pre @ rest"
    and decode_valid: "decode bs = Some (x, rest) \<Longrightarrow> valid x"
begin

lemma decode_shorter: "decode bs = Some (x, rest) \<Longrightarrow> length rest < length bs"
  using decode_suffix by fastforce

lemma prefix_free:
  assumes "valid x" and "valid y" and "encode x = Some p" and "encode y = Some q"
    and "p @ r = q @ s"
  shows "x = y \<and> r = s"
  using decode_encode [OF assms(1,3), of r] decode_encode [OF assms(2,4), of s] assms(5) by simp

text \<open>A list of values written one after another, read back by \<open>n\<close> calls of \<open>get\<close>.\<close>

definition encode_all :: "'a list \<Rightarrow> packet_writer" where
  "encode_all xs = wcat (map encode xs)"

fun decode_n :: "nat \<Rightarrow> 'a list coding_parser" where
  "decode_n 0 bs = Some ([], bs)"
| "decode_n (Suc n) bs =
     (case decode bs of None \<Rightarrow> None
      | Some (x, rest) \<Rightarrow> map_option (\<lambda>(xs, rest'). (x # xs, rest')) (decode_n n rest))"

lemma encode_all_total: "\<forall>x \<in> set xs. valid x \<Longrightarrow> \<exists>bs. encode_all xs = Some bs"
proof (induction xs)
  case (Cons x xs)
  then obtain a b where "encode x = Some a" and "encode_all xs = Some b"
    using encode_total [of x] by auto
  then show ?case by (simp add: encode_all_def)
qed (simp add: encode_all_def)

lemma decode_n_encode_all:
  "\<forall>x \<in> set xs. valid x \<Longrightarrow> encode_all xs = Some bs \<Longrightarrow>
   decode_n (length xs) (bs @ rest) = Some (xs, rest)"
proof (induction xs arbitrary: bs)
  case (Cons x xs)
  then obtain a b where ab: "encode x = Some a" "encode_all xs = Some b" "bs = a @ b"
    by (auto simp: encode_all_def split: option.splits)
  with Cons show ?case
    using decode_encode [of x a "b @ rest"] by auto
qed (simp add: encode_all_def)

end

section \<open>Fixed-width integers\<close>

text \<open>
  \<open>get_uint k\<close> reads \<open>k\<close> big-endian bytes; \<open>put_uint k\<close> writes them. The trait implementations for
  \<open>u8\<close>, \<open>u16\<close>, \<open>u32\<close> and \<open>u64\<close> are the instances \<open>k = 1, 2, 4, 8\<close>, each behind its own length check.
\<close>

definition put_uint :: "nat \<Rightarrow> nat \<Rightarrow> packet_writer" where
  "put_uint k x = Some (be_bytes k x)"

definition get_uint :: "nat \<Rightarrow> nat coding_parser" where
  "get_uint k bs = (if length bs < k then None else Some (be_val (take k bs), drop k bs))"

definition u8_encode :: "u8 \<Rightarrow> packet_writer" where
  "u8_encode b = Some [b]"

definition u8_decode :: "u8 coding_parser" where
  "u8_decode bs = (if length bs < 1 then None else Some (hd bs, tl bs))"

definition u16_encode :: "nat \<Rightarrow> packet_writer" where
  "u16_encode x = put_uint 2 x"

definition u16_decode :: "nat coding_parser" where
  "u16_decode bs = (if length bs < 2 then None else get_uint 2 bs)"

definition u32_encode :: "nat \<Rightarrow> packet_writer" where
  "u32_encode x = put_uint 4 x"

definition u32_decode :: "nat coding_parser" where
  "u32_decode bs = (if length bs < 4 then None else get_uint 4 bs)"

definition u64_encode :: "nat \<Rightarrow> packet_writer" where
  "u64_encode x = put_uint 8 x"

definition u64_decode :: "nat coding_parser" where
  "u64_decode bs = (if length bs < 8 then None else get_uint 8 bs)"

definition ipv4_encode :: "bytes \<Rightarrow> packet_writer" where
  "ipv4_encode octets = Some octets"

definition ipv4_decode :: "bytes coding_parser" where
  "ipv4_decode bs = (if length bs < 4 then None else take_bytes 4 bs)"

definition ipv6_encode :: "bytes \<Rightarrow> packet_writer" where
  "ipv6_encode octets = Some octets"

definition ipv6_decode :: "bytes coding_parser" where
  "ipv6_decode bs = (if length bs < 16 then None else take_bytes 16 bs)"

lemma get_uint_be_bytes [simp]: "get_uint k (be_bytes k x @ rest) = Some (x mod 256 ^ k, rest)"
  by (simp add: get_uint_def be_val_be_bytes)

lemma get_uint_SomeD:
  assumes "get_uint k bs = Some (x, rest)"
  shows "x < 256 ^ k \<and> bs = be_bytes k x @ rest"
proof -
  from assms have k: "k \<le> length bs" and x: "x = be_val (take k bs)" and r: "rest = drop k bs"
    by (auto simp: get_uint_def split: if_splits)
  have "length (take k bs) = k" using k by simp
  then have "x < 256 ^ k" and "be_bytes k x = take k bs"
    using be_val_less [of "take k bs"] be_bytes_be_val [of "take k bs"] x by auto
  then show ?thesis using r by simp
qed

lemma be_bytes_eq_Nil_iff [simp]: "be_bytes k x = [] \<longleftrightarrow> k = 0"
  using length_be_bytes [of k x] by (cases k) auto

text \<open>One argument serves the three widths above a byte.\<close>

lemma uint_codec:
  assumes "0 < k" and "\<And>x. enc x = put_uint k x"
    and "\<And>bs. dec bs = (if length bs < k then None else get_uint k bs)"
  shows "codec enc dec (fits k)"
proof
  fix bs rest and x :: nat
  assume "dec bs = Some (x, rest)"
  then have *: "get_uint k bs = Some (x, rest)" by (auto simp: assms(3) split: if_splits)
  from get_uint_SomeD [OF *] show "\<exists>pre. pre \<noteq> [] \<and> bs = pre @ rest"
    using assms(1) by auto
  from get_uint_SomeD [OF *] show "fits k x" by (simp add: fits_def)
qed (use assms in \<open>auto simp: put_uint_def fits_def\<close>)

interpretation u8_codec: codec u8_encode u8_decode "\<lambda>_. True"
proof
  fix bs :: bytes and x rest
  assume "u8_decode bs = Some (x, rest)"
  then have "bs = [x] @ rest" by (cases bs) (auto simp: u8_decode_def split: if_splits)
  then show "\<exists>pre. pre \<noteq> [] \<and> bs = pre @ rest" by blast
qed (auto simp: u8_encode_def u8_decode_def)

interpretation u16_codec: codec u16_encode u16_decode "fits 2"
  by (rule uint_codec) (simp_all add: u16_encode_def u16_decode_def)

interpretation u32_codec: codec u32_encode u32_decode "fits 4"
  by (rule uint_codec) (simp_all add: u32_encode_def u32_decode_def)

interpretation u64_codec: codec u64_encode u64_decode "fits 8"
  by (rule uint_codec) (simp_all add: u64_encode_def u64_decode_def)

lemma octets_codec:
  assumes "0 < k" and "\<And>x. enc x = Some x"
    and "\<And>bs. dec bs = (if length bs < k then None else take_bytes k bs)"
  shows "codec enc dec (\<lambda>x. length x = k)"
proof
  fix bs rest and x :: bytes
  assume "dec bs = Some (x, rest)"
  then have *: "take_bytes k bs = Some (x, rest)" by (auto simp: assms(3) split: if_splits)
  then show "length x = k" by (simp add: take_bytes_Some_iff)
  with * assms(1) show "\<exists>pre. pre \<noteq> [] \<and> bs = pre @ rest"
    by (intro exI [of _ x]) (auto simp: take_bytes_Some_iff)
qed (use assms in auto)

interpretation ipv4_codec: codec ipv4_encode ipv4_decode "\<lambda>x. length x = 4"
  by (rule octets_codec) (simp_all add: ipv4_encode_def ipv4_decode_def)

interpretation ipv6_codec: codec ipv6_encode ipv6_decode "\<lambda>x. length x = 16"
  by (rule octets_codec) (simp_all add: ipv6_encode_def ipv6_decode_def)

section \<open>Variable-length integers\<close>

definition varint_max :: nat where
  "varint_max = 2 ^ 62 - 1"

text \<open>The values a \<open>VarInt\<close> may hold.\<close>

definition is_varint :: "nat \<Rightarrow> bool" where
  "is_varint x \<longleftrightarrow> x \<le> varint_max"

lemma is_varint_iff: "is_varint x \<longleftrightarrow> x < 2 ^ 62"
  by (simp add: is_varint_def varint_max_def) linarith

definition varint_from_u64 :: "nat \<Rightarrow> nat option" where
  "varint_from_u64 x = (if x < 2 ^ 62 then Some x else None)"

text \<open>\<open>TryFrom<u128>\<close>: first the conversion to \<open>u64\<close>, then \<open>from_u64\<close>; both errors are the same.\<close>

definition varint_try_from_u128 :: "nat \<Rightarrow> nat option" where
  "varint_try_from_u128 x = (if x < 2 ^ 64 then varint_from_u64 x else None)"

text \<open>\<open>None\<close> is the panic on a malformed value.\<close>

definition varint_size :: "nat \<Rightarrow> nat option" where
  "varint_size x =
     (if x < 2 ^ 6 then Some 1
      else if x < 2 ^ 14 then Some 2
      else if x < 2 ^ 30 then Some 4
      else if x < 2 ^ 62 then Some 8
      else None)"

definition varint_encode :: "nat \<Rightarrow> packet_writer" where
  "varint_encode x =
     (if x < 2 ^ 6 then Some [of_nat x]
      else if x < 2 ^ 14 then put_uint 2 (unat (push_bit 14 1 OR of_nat x :: 16 word))
      else if x < 2 ^ 30 then put_uint 4 (unat (push_bit 30 2 OR of_nat x :: 32 word))
      else if x < 2 ^ 62 then put_uint 8 (unat (push_bit 62 3 OR of_nat x :: 64 word))
      else None)"

definition varint_decode :: "nat coding_parser" where
  "varint_decode bs =
     (case bs of
        [] \<Rightarrow> None
      | b # r \<Rightarrow>
          let tag = drop_bit 6 b; buf0 = b AND 63 in
          if tag = 0 then Some (unat buf0, r)
          else if tag = 1 then
            (if length r < 1 then None else Some (be_val (buf0 # take 1 r), drop 1 r))
          else if tag = 2 then
            (if length r < 3 then None else Some (be_val (buf0 # take 3 r), drop 3 r))
          else
            (if length r < 7 then None else Some (be_val (buf0 # take 7 r), drop 7 r)))"

text \<open>\<open>BufExt::get_var\<close> and \<open>BufMutExt::write_var\<close>; the latter unwraps \<open>from_u64\<close>.\<close>

definition get_var :: "nat coding_parser" where
  "get_var bs = varint_decode bs"

definition write_var :: "nat \<Rightarrow> packet_writer" where
  "write_var x = (case varint_from_u64 x of None \<Rightarrow> None | Some v \<Rightarrow> varint_encode v)"

subsection \<open>Encoding and decoding agree\<close>

lemma be_bytes_Cons: "be_bytes (Suc k) v = of_nat (v div 256 ^ k mod 256) # be_bytes k v"
proof (induction k arbitrary: v)
  case (Suc k)
  have "be_bytes (Suc (Suc k)) v = be_bytes (Suc k) (v div 256) @ [of_nat (v mod 256)]" by simp
  also have "\<dots> = of_nat (v div 256 div 256 ^ k mod 256) # be_bytes k (v div 256) @ [of_nat (v mod 256)]"
    by (simp only: Suc.IH append_Cons)
  finally show ?case by (simp add: div_mult2_eq)
qed simp

lemma be_val_Cons: "be_val (b # bs) = unat b * 256 ^ length bs + be_val bs"
proof (induction bs rule: rev_induct)
  case Nil
  show ?case by (simp add: be_val_def)
next
  case (snoc c bs)
  have "be_val ((b # bs) @ [c]) = be_val (b # bs) * 256 + unat c" by (rule be_val_snoc)
  with snoc.IH show ?case by (simp add: algebra_simps)
qed

lemma unat_tagged:
  assumes "x < 2 ^ k" and "t * 2 ^ k + x < 2 ^ LENGTH('a::len)"
  shows "unat (push_bit k (of_nat t) OR of_nat x :: 'a word) = t * 2 ^ k + x"
proof -
  have "push_bit k (of_nat t) OR of_nat x = (push_bit k (of_nat t) + of_nat x :: 'a word)"
  proof (rule disjunctive_add [symmetric])
    fix n
    show "\<not> bit (push_bit k (of_nat t) :: 'a word) n \<or> \<not> bit (of_nat x :: 'a word) n"
    proof (cases "n < k")
      case False
      then have "x < 2 ^ n" using assms(1) by (meson leI order_less_le_trans one_le_numeral power_increasing)
      then have "\<not> bit x n" by (simp add: bit_iff_odd)
      then show ?thesis by (simp add: bit_simps)
    qed (simp add: bit_push_bit_iff)
  qed
  also have "\<dots> = of_nat (t * 2 ^ k + x)" by (simp add: push_bit_eq_mult)
  finally show ?thesis using assms(2) by (simp only: unat_of_nat) simp
qed

lemma byte_tag:
  assumes "t < 4" and "y < 64" and "b = (of_nat (t * 64 + y) :: u8)"
  shows "drop_bit 6 b = of_nat t" and "unat (b AND 63) = y"
proof -
  have b: "unat b = t * 64 + y"
    using assms by (simp only: assms(3) unat_of_nat) simp
  have "unat (drop_bit 6 b) = drop_bit 6 (unat b)" by (rule unat_drop_bit_eq)
  also have "\<dots> = t" using assms(2) by (simp add: b drop_bit_eq_div)
  finally have "unat (drop_bit 6 b) = t" .
  then show "drop_bit 6 b = of_nat t"
    using assms(1) by (simp add: word_unat_eq_iff unat_of_nat)
  have "unat (b AND 63) = unat (take_bit 6 b)"
    by (simp add: take_bit_eq_mask mask_eq_exp_minus_1)
  also have "\<dots> = take_bit 6 (unat b)" by (rule unsigned_take_bit_eq)
  also have "\<dots> = y" using assms(2) by (simp add: b take_bit_eq_mod)
  finally show "unat (b AND 63) = y" .
qed

lemma tagged_bytes:
  assumes "x < 64 * 256 ^ k" and "t < 4" and "n = Suc k"
  obtains y tl where "y < 64" and "be_bytes n (t * (64 * 256 ^ k) + x) = of_nat (t * 64 + y) # tl"
    and "length tl = k" and "y * 256 ^ k + be_val tl = x"
proof
  let ?v = "t * (64 * 256 ^ k) + x"
  let ?y = "x div 256 ^ k"
  show "?y < 64" using assms(1) by (simp add: less_mult_imp_div_less)
  have v: "?v = (t * 64) * 256 ^ k + x" by simp
  have "?v div 256 ^ k = t * 64 + ?y"
    unfolding v by (rule div_mult_self3) simp
  then show "be_bytes n ?v = of_nat (t * 64 + ?y) # be_bytes k ?v"
    using \<open>?y < 64\<close> assms(2) by (simp only: assms(3) be_bytes_Cons) simp
  have "?v mod 256 ^ k = x mod 256 ^ k"
    unfolding v by (rule mod_mult_self3)
  then show "?y * 256 ^ k + be_val (be_bytes k ?v) = x"
    by (simp only: be_val_be_bytes div_mult_mod_eq)
qed simp

lemma varint_encode_wide:
  assumes "2 ^ 6 \<le> x" and "is_varint x"
  shows "\<exists>k t. (k, t) \<in> {(1, 1), (3, 2), (7, 3)} \<and> x < 64 * 256 ^ k \<and>
    varint_size x = Some (Suc k) \<and>
    varint_encode x = Some (be_bytes (Suc k) (t * (64 * 256 ^ k) + x))"
proof -
  have le: "x < 2 ^ 62" using assms(2) by (simp only: is_varint_iff)
  consider "x < 2 ^ 14" | "2 ^ 14 \<le> x" "x < 2 ^ 30" | "2 ^ 30 \<le> x" by linarith
  then show ?thesis
  proof cases
    case 1
    then have "x < 64 * 256 ^ 1 \<and> varint_size x = Some (Suc 1) \<and>
      varint_encode x = Some (be_bytes (Suc 1) (1 * (64 * 256 ^ 1) + x))"
      using assms unat_tagged [of x 14 1, where 'a = 16]
      by (simp add: varint_encode_def varint_size_def put_uint_def del: One_nat_def)
    then show ?thesis by blast
  next
    case 2
    then have "x < 64 * 256 ^ 3 \<and> varint_size x = Some (Suc 3) \<and>
      varint_encode x = Some (be_bytes (Suc 3) (2 * (64 * 256 ^ 3) + x))"
      using unat_tagged [of x 30 2, where 'a = 32]
      by (simp add: varint_encode_def varint_size_def put_uint_def)
    then show ?thesis by blast
  next
    case 3
    then have "x < 64 * 256 ^ 7 \<and> varint_size x = Some (Suc 7) \<and>
      varint_encode x = Some (be_bytes (Suc 7) (3 * (64 * 256 ^ 7) + x))"
      using le unat_tagged [of x 62 3, where 'a = 64]
      by (simp add: varint_encode_def varint_size_def put_uint_def)
    then show ?thesis by blast
  qed
qed

lemma varint_decode_tagged:
  assumes "(k, t) \<in> {(0, 0), (1, 1), (3, 2), (7, 3)}" and "y < 64" and "length tls = k"
  shows "varint_decode (of_nat (t * 64 + y) # tls @ rest) = Some (y * 256 ^ k + be_val tls, rest)"
proof -
  let ?b = "of_nat (t * 64 + y) :: u8"
  have t: "t < 4" using assms(1) by auto
  have tag: "drop_bit 6 ?b = of_nat t" and low: "unat (?b AND 63) = y"
    by (rule byte_tag [OF t assms(2) refl])+
  have val: "be_val ((?b AND 63) # tls) = y * 256 ^ k + be_val tls"
    using assms(3) low by (simp only: be_val_Cons)
  have tk: "take k (tls @ rest) = tls" "drop k (tls @ rest) = rest" using assms(3) by auto
  from assms(1) consider "k = 0" "t = 0" | "k = 1" "t = 1" | "k = 3" "t = 2" | "k = 7" "t = 3"
    by auto
  then show ?thesis
    using tag low val tk assms(3)
    by cases (simp_all only: varint_decode_def list.case Let_def, auto)
qed

lemma varint_roundtrip:
  assumes "is_varint x"
  shows "\<exists>bs. varint_encode x = Some bs \<and> varint_size x = Some (length bs) \<and> bs \<noteq> [] \<and>
    (\<forall>rest. varint_decode (bs @ rest) = Some (x, rest))"
proof (cases "x < 2 ^ 6")
  case True
  then have "varint_decode ([of_nat x] @ rest) = Some (x, rest)" for rest
    using varint_decode_tagged [of 0 0 x "[]" rest] by simp
  with True show ?thesis by (simp add: varint_encode_def varint_size_def)
next
  case False
  then obtain k t where kt: "(k, t) \<in> {(1, 1), (3, 2), (7, 3)}" and x: "x < 64 * 256 ^ k"
    and size: "varint_size x = Some (Suc k)"
    and enc: "varint_encode x = Some (be_bytes (Suc k) (t * (64 * 256 ^ k) + x))"
    using varint_encode_wide [of x] assms by (metis linorder_not_less)
  have "t < 4" using kt by auto
  then obtain y tls where *: "y < 64" "length tls = k" "y * 256 ^ k + be_val tls = x"
    "be_bytes (Suc k) (t * (64 * 256 ^ k) + x) = of_nat (t * 64 + y) # tls"
    using tagged_bytes [OF x _ refl, of t] by blast
  let ?bs = "of_nat (t * 64 + y) # tls"
  have "varint_decode (?bs @ rest) = Some (x, rest)" for rest
    using varint_decode_tagged [of k t y tls rest] kt * by auto
  moreover have "varint_encode x = Some ?bs" using enc *(4) by (simp only:)
  moreover have "varint_size x = Some (length ?bs)" using size *(2) by simp
  ultimately show ?thesis by blast
qed

lemma varint_decode_SomeD:
  assumes "varint_decode bs = Some (x, rest)"
  obtains b tls k where "bs = b # tls @ rest" and "length tls = k" and "k \<in> {0, 1, 3, 7}"
    and "x = be_val ((b AND 63) # tls)"
proof -
  from assms obtain b r where bs: "bs = b # r" by (cases bs) (auto simp: varint_decode_def)
  define n where "n = (if drop_bit 6 b = 0 then 0 else if drop_bit 6 b = 1 then 1
    else if drop_bit 6 b = 2 then 3 else (7 :: nat))"
  have "n \<le> length r \<and> x = be_val ((b AND 63) # take n r) \<and> rest = drop n r"
    using assms unfolding bs varint_decode_def n_def
    by (auto simp: Let_def be_val_Cons Suc_le_eq split: if_splits)
  moreover have "n \<in> {0, 1, 3, 7}" by (simp add: n_def)
  ultimately show thesis using that [of b "take n r" n] bs by simp
qed

lemma varint_decode_bound:
  assumes "varint_decode bs = Some (x, rest)"
  shows "is_varint x"
proof -
  obtain b tls k where *: "length tls = k" "k \<in> {0, 1, 3, 7}" "x = be_val ((b AND 63) # tls)"
    using varint_decode_SomeD [OF assms] by metis
  have "unat (b AND 63) \<le> unat (63 :: u8)"
    by (rule word_and_le1 [THEN word_le_nat_alt [THEN iffD1]])
  then have "unat (b AND 63) * 256 ^ k \<le> 63 * 256 ^ k" by (intro mult_le_mono1) simp
  then have "x < 63 * 256 ^ k + 256 ^ k"
    using * be_val_less [of tls] by (simp only: be_val_Cons add_le_less_mono)
  also have "\<dots> \<le> 2 ^ 62" using *(2) by auto
  finally show ?thesis by (simp only: is_varint_iff)
qed

interpretation varint_codec: codec varint_encode varint_decode is_varint
proof
  fix x :: nat and bs rest
  assume "is_varint x"
  with varint_roundtrip show "\<exists>bs. varint_encode x = Some bs" by blast
  assume "varint_encode x = Some bs"
  with \<open>is_varint x\<close> varint_roundtrip [of x]
  show "varint_decode (bs @ rest) = Some (x, rest)" and "bs \<noteq> []" by auto
next
  fix x bs rest
  assume *: "varint_decode bs = Some (x, rest)"
  then show "is_varint x" by (rule varint_decode_bound)
  from varint_decode_SomeD [OF *] show "\<exists>pre. pre \<noteq> [] \<and> bs = pre @ rest"
    by (metis append_Cons list.distinct(1))
qed

lemma varint_from_u64_iff: "varint_from_u64 x = (if is_varint x then Some x else None)"
  by (simp only: varint_from_u64_def is_varint_iff)

lemma write_var_valid: "is_varint x \<Longrightarrow> write_var x = varint_encode x"
  by (simp add: write_var_def varint_from_u64_iff)

lemma write_var_small: "x < 64 \<Longrightarrow> write_var x = Some [of_nat x]"
  by (simp add: write_var_valid is_varint_iff varint_encode_def)

lemma write_var_None_iff: "write_var x = None \<longleftrightarrow> \<not> is_varint x"
  using varint_codec.encode_total [of x] by (auto simp: write_var_def varint_from_u64_iff)

text \<open>\<open>write_var\<close> and \<open>get_var\<close> form a codec of their own: the one every frame field uses.\<close>

interpretation var_codec: codec write_var get_var is_varint
  by unfold_locales
    (auto simp: write_var_valid get_var_def varint_codec.encode_total
      varint_codec.decode_encode varint_decode_bound
      dest: varint_codec.encode_nonempty varint_codec.decode_suffix)

text \<open>The bytes of a value, for the goals in which many values are written one after another.\<close>

definition var_bytes :: "nat \<Rightarrow> bytes" where
  "var_bytes x = the (write_var x)"

lemma write_var_bytes [codec_simps]: "is_varint x \<Longrightarrow> write_var x = Some (var_bytes x)"
  using var_codec.encode_total by (fastforce simp: var_bytes_def)

lemma get_var_bytes [codec_simps]: "is_varint x \<Longrightarrow> get_var (var_bytes x @ rest) = Some (x, rest)"
  using var_codec.decode_encode write_var_bytes by blast

lemma var_bytes_nonempty [simp]: "is_varint x \<Longrightarrow> var_bytes x \<noteq> []"
  using var_codec.encode_nonempty write_var_bytes by blast

lemma varint_size_bytes: "is_varint x \<Longrightarrow> varint_size x = Some (length (var_bytes x))"
  using varint_roundtrip [of x] write_var_bytes [of x] by (auto simp: write_var_valid)

lemma length_var_bytes_le: "is_varint x \<Longrightarrow> length (var_bytes x) \<le> 8"
  using varint_size_bytes [of x] by (auto simp: varint_size_def split: if_splits)

lemma var_bytes_small [simp]: "x < 64 \<Longrightarrow> var_bytes x = [of_nat x]"
  by (simp add: var_bytes_def write_var_small)

text \<open>A read depends on the bytes it consumes only.\<close>

lemma get_var_prefix:
  assumes "get_var bs = Some (x, rest)"
  obtains pre where "pre \<noteq> []" and "bs = pre @ rest" and "\<And>s. get_var (pre @ s) = Some (x, s)"
proof -
  from assms obtain b r where bs: "bs = b # r"
    by (cases bs) (auto simp: get_var_def varint_decode_def)
  define n where "n = (if drop_bit 6 b = 0 then 0 else if drop_bit 6 b = 1 then 1
    else if drop_bit 6 b = 2 then 3 else (7 :: nat))"
  have "n \<le> length r \<and> rest = drop n r \<and> (\<forall>s. varint_decode ((b # take n r) @ s) = Some (x, s))"
    using assms unfolding bs get_var_def varint_decode_def n_def
    by (auto simp: Let_def Suc_le_eq split: if_splits)
  then show thesis using that [of "b # take n r"] bs by (auto simp: get_var_def)
qed

section \<open>Properties\<close>

text \<open>A value below \<open>2^62\<close> is written in exactly \<open>size\<close> bytes, and reading them back in front of any
  further bytes gives the value and leaves those bytes.\<close>

theorem varint_write_read:
  assumes "is_varint x"
  shows "\<exists>bs. write_var x = Some bs \<and> varint_size x = Some (length bs) \<and>
    length bs \<in> {1, 2, 4, 8} \<and> get_var (bs @ rest) = Some (x, rest)"
proof -
  obtain bs where "varint_encode x = Some bs" "varint_size x = Some (length bs)"
    "varint_decode (bs @ rest) = Some (x, rest)"
    using varint_roundtrip [OF assms] by blast
  moreover have "length bs \<in> {1, 2, 4, 8}"
    using calculation(2) by (auto simp: varint_size_def split: if_splits)
  ultimately show ?thesis using assms by (simp add: write_var_valid get_var_def)
qed

theorem varint_write_read_witness:
  "is_varint 15293 \<and> (\<exists>bs. write_var 15293 = Some bs \<and> varint_size 15293 = Some (length bs) \<and>
    length bs \<in> {1, 2, 4, 8} \<and> get_var (bs @ [7]) = Some (15293, [7]))"
proof -
  have "is_varint 15293" by (simp add: is_varint_iff)
  then show ?thesis using varint_write_read [of 15293 "[7]"] by blast
qed

text \<open>Whatever bytes arrive, a successful read yields a value below \<open>2^62\<close> and consumes one, two, four
  or eight of them; a read fails only on a buffer shorter than eight bytes.\<close>

theorem varint_read_total:
  "(case get_var bs of
      Some (x, rest) \<Rightarrow> is_varint x \<and> (\<exists>pre. bs = pre @ rest \<and> length pre \<in> {1, 2, 4, 8})
    | None \<Rightarrow> length bs < 8)"
proof (cases "get_var bs")
  case None
  then show ?thesis
    by (auto simp: get_var_def varint_decode_def Let_def split: list.splits if_splits)
next
  case (Some r)
  obtain x rest where r: "r = (x, rest)" by (cases r)
  with Some have dec: "varint_decode bs = Some (x, rest)" by (simp add: get_var_def)
  obtain b tls k where "bs = b # tls @ rest" "length tls = k" "k \<in> {0, 1, 3, 7}"
    using varint_decode_SomeD [OF dec] by metis
  then have "\<exists>pre. bs = pre @ rest \<and> length pre \<in> {1, 2, 4, 8}"
    by (intro exI [of _ "b # tls"]) auto
  then show ?thesis using Some r varint_decode_bound [OF dec] by simp
qed

section \<open>Parsers consume their input\<close>

definition shrinks :: "('e, 'a) parser \<Rightarrow> bool" where
  "shrinks p \<longleftrightarrow> (\<forall>bs x rest. p bs = Inr (x, rest) \<longrightarrow> length rest \<le> length bs)"

lemma shrinks_preturn [intro!]: "shrinks (preturn x)"
  by (simp add: shrinks_def)

lemma shrinks_pfail [intro!]: "shrinks (pfail e)"
  by (simp add: shrinks_def)

lemma shrinks_pbind [intro!]: "shrinks p \<Longrightarrow> (\<And>x. shrinks (f x)) \<Longrightarrow> shrinks (pbind p f)"
  unfolding shrinks_def by (blast elim: pbind_InrE intro: le_trans)

lemma shrinks_var [intro!]: "shrinks (ptry e get_var)"
  unfolding shrinks_def using var_codec.decode_shorter by (blast elim: ptry_InrE intro: less_imp_le)

lemma shrinks_take_bytes [intro!]: "shrinks (ptry e (take_bytes n))"
  unfolding shrinks_def by (auto elim!: ptry_InrE simp: take_bytes_Some_iff)

lemma shrinks_u8 [intro!]: "shrinks (ptry e u8_decode)"
  unfolding shrinks_def using u8_codec.decode_shorter by (blast elim: ptry_InrE intro: less_imp_le)

lemma shrinks_u64 [intro!]: "shrinks (ptry e u64_decode)"
  unfolding shrinks_def using u64_codec.decode_shorter by (blast elim: ptry_InrE intro: less_imp_le)

lemma shrinks_varint [intro!]: "shrinks (ptry e varint_decode)"
  unfolding shrinks_def using varint_codec.decode_shorter by (blast elim: ptry_InrE intro: less_imp_le)

lemma shrinks_u16 [intro!]: "shrinks (ptry e u16_decode)"
  unfolding shrinks_def using u16_codec.decode_shorter by (blast elim: ptry_InrE intro: less_imp_le)

lemma shrinks_ipv4 [intro!]: "shrinks (ptry e ipv4_decode)"
  unfolding shrinks_def using ipv4_codec.decode_shorter by (blast elim: ptry_InrE intro: less_imp_le)

lemma shrinks_ipv6 [intro!]: "shrinks (ptry e ipv6_decode)"
  unfolding shrinks_def using ipv6_codec.decode_shorter by (blast elim: ptry_InrE intro: less_imp_le)

lemma shrinks_if: "shrinks p \<Longrightarrow> shrinks q \<Longrightarrow> shrinks (if b then p else q)"
  by simp

lemma shrinks_case_option:
  "shrinks p \<Longrightarrow> (\<And>x. shrinks (q x)) \<Longrightarrow> shrinks (case y of None \<Rightarrow> p | Some x \<Rightarrow> q x)"
  by (cases y) auto

end
