(* ===== verification/Proto_Types.thy ===== *)
theory Proto_Types
  imports Var_Int
begin

text \<open>
  Identifiers and constants every layer uses: \<open>quic-proto/src/lib.rs\<close> (\<open>Side\<close>, \<open>Dir\<close>, \<open>StreamId\<close>),
  \<open>quic-proto/src/shared.rs\<close> (\<open>ConnectionId\<close>, \<open>EcnCodepoint\<close>) and \<open>quic-proto/src/transport_error.rs\<close>
  (\<open>Code\<close>, \<open>Error\<close>). A \<open>ConnectionId\<close> (a length and a zero-padded array) is represented by the byte
  slice it dereferences to, on which its derived equality depends.
\<close>

section \<open>Constants of the crate\<close>

definition LOC_CID_COUNT :: nat where "LOC_CID_COUNT = 8"
definition RESET_TOKEN_SIZE :: nat where "RESET_TOKEN_SIZE = 16"
definition MAX_CID_SIZE :: nat where "MAX_CID_SIZE = 20"
definition MAX_STREAM_COUNT :: nat where "MAX_STREAM_COUNT = 2 ^ 60"

section \<open>Sides, directions and stream identifiers\<close>

datatype side = Client | Server

datatype dir = Bi | Uni

fun side_not :: "side \<Rightarrow> side" where
  "side_not Client = Server"
| "side_not Server = Client"

fun side_code :: "side \<Rightarrow> nat" where
  "side_code Client = 0"
| "side_code Server = 1"

fun dir_code :: "dir \<Rightarrow> nat" where
  "dir_code Bi = 0"
| "dir_code Uni = 1"

type_synonym stream_id = nat

text \<open>\<open>index << 2\<close> on \<open>u64\<close> drops the bits shifted out.\<close>

definition stream_id_new :: "side \<Rightarrow> dir \<Rightarrow> nat \<Rightarrow> stream_id" where
  "stream_id_new initiator d index =
     (take_bit 64 (push_bit 2 index) OR push_bit 1 (dir_code d)) OR side_code initiator"

definition stream_id_initiator :: "stream_id \<Rightarrow> side" where
  "stream_id_initiator i = (if i AND 1 = 0 then Client else Server)"

definition stream_id_dir :: "stream_id \<Rightarrow> dir" where
  "stream_id_dir i = (if i AND 2 = 0 then Bi else Uni)"

definition stream_id_index :: "stream_id \<Rightarrow> nat" where
  "stream_id_index i = drop_bit 2 i"

definition stream_id_encode :: "stream_id \<Rightarrow> packet_writer" where
  "stream_id_encode i = write_var i"

definition stream_id_decode :: "stream_id coding_parser" where
  "stream_id_decode bs = varint_decode bs"

lemma stream_id_new_arith:
  assumes "index < 2 ^ 62"
  shows "stream_id_new s d index = 4 * index + 2 * dir_code d + side_code s"
proof -
  have tb: "take_bit 64 (push_bit 2 index) = 4 * index"
    using assms by (simp add: push_bit_eq_mult take_bit_eq_mod mult.commute)
  have "(4 * index OR 2 * dir_code d) OR side_code s = 4 * index OR (2 * dir_code d OR side_code s)"
    by (simp add: or.assoc)
  also have "2 * dir_code d OR side_code s = 2 * dir_code d + side_code s"
    using nat_or_add [of "side_code s" 1 "dir_code d"] by (cases s) (simp_all add: mult.commute)
  also have "4 * index OR (2 * dir_code d + side_code s) = 4 * index + (2 * dir_code d + side_code s)"
    using nat_or_add [of "2 * dir_code d + side_code s" 2 index]
    by (cases s; cases d) (simp_all add: mult.commute)
  finally have "(4 * index OR 2 * dir_code d) OR side_code s = 4 * index + 2 * dir_code d + side_code s"
    by simp
  moreover have "push_bit 1 (dir_code d) = 2 * dir_code d" by (simp add: push_bit_eq_mult)
  ultimately show ?thesis by (simp only: stream_id_new_def tb)
qed

lemma stream_id_fields:
  "stream_id_initiator i = (if even i then Client else Server)"
  "stream_id_dir i = (if i div 2 mod 2 = 0 then Bi else Uni)"
  "stream_id_index i = i div 4"
proof -
  show "stream_id_initiator i = (if even i then Client else Server)"
    by (simp add: stream_id_initiator_def and_one_eq odd_iff_mod_2_eq_one)
  show "stream_id_index i = i div 4" by (simp add: stream_id_index_def drop_bit_eq_div)
  have "i AND 2 = 0 \<longleftrightarrow> \<not> bit i 1" using and_exp_eq_0_iff_not_bit [of i 1] by simp
  then show "stream_id_dir i = (if i div 2 mod 2 = 0 then Bi else Uni)"
    by (simp add: stream_id_dir_def bit_iff_odd odd_iff_mod_2_eq_one)
qed

text \<open>A stream identifier is its initiator, direction and index.\<close>

lemma stream_id_roundtrip:
  assumes "index < 2 ^ 62"
  shows "stream_id_initiator (stream_id_new s d index) = s"
    and "stream_id_dir (stream_id_new s d index) = d"
    and "stream_id_index (stream_id_new s d index) = index"
proof -
  have *: "stream_id_new s d index = 4 * index + 2 * dir_code d + side_code s"
    by (rule stream_id_new_arith [OF assms])
  show "stream_id_initiator (stream_id_new s d index) = s"
    unfolding * stream_id_fields by (cases s) simp_all
  show "stream_id_dir (stream_id_new s d index) = d"
    unfolding * stream_id_fields by (cases s; cases d) simp_all
  show "stream_id_index (stream_id_new s d index) = index"
    unfolding * stream_id_fields by (cases s; cases d) simp_all
qed

lemma stream_id_new_fields:
  assumes "i < 2 ^ 62"
  shows "stream_id_new (stream_id_initiator i) (stream_id_dir i) (stream_id_index i) = i"
proof -
  have "i div 4 < 2 ^ 62" using assms by (rule le_less_trans [OF div_le_dividend])
  then have "stream_id_new (stream_id_initiator i) (stream_id_dir i) (stream_id_index i) =
      4 * (i div 4) + 2 * dir_code (stream_id_dir i) + side_code (stream_id_initiator i)"
    using stream_id_new_arith by (simp add: stream_id_fields(3))
  also have "\<dots> = 4 * (i div 4) + 2 * (i div 2 mod 2) + i mod 2"
    by (auto simp: stream_id_fields even_iff_mod_2_eq_zero)
  also have "\<dots> = i" by presburger
  finally show ?thesis .
qed

section \<open>Connection identifiers\<close>

type_synonym connection_id = bytes

definition cid_decode_long :: "connection_id coding_parser" where
  "cid_decode_long bs =
     (case u8_decode bs of
        None \<Rightarrow> None
      | Some (l, rest) \<Rightarrow>
          if unat l > MAX_CID_SIZE \<or> length rest < unat l then None else take_bytes (unat l) rest)"

definition cid_encode_long :: "connection_id \<Rightarrow> packet_writer" where
  "cid_encode_long cid = wcat [Some [of_nat (length cid)], Some cid]"

interpretation cid_codec: codec cid_encode_long cid_decode_long "\<lambda>c. length c \<le> MAX_CID_SIZE"
proof
  fix cid bs rest
  assume "length cid \<le> MAX_CID_SIZE" and "cid_encode_long cid = Some bs"
  moreover then have "unat (of_nat (length cid) :: u8) = length cid"
    by (simp add: MAX_CID_SIZE_def unat_of_nat)
  ultimately show "cid_decode_long (bs @ rest) = Some (cid, rest)"
    by (auto simp: cid_encode_long_def cid_decode_long_def u8_decode_def)
next
  fix bs x rest
  assume *: "cid_decode_long bs = Some (x, rest)"
  then obtain b r where bs: "bs = b # r"
    by (cases bs) (auto simp: cid_decode_long_def u8_decode_def)
  with * have r: "r = x @ rest" "length x = unat b" "unat b \<le> MAX_CID_SIZE"
    by (auto simp: cid_decode_long_def u8_decode_def take_bytes_Some_iff split: if_splits)
  then show "length x \<le> MAX_CID_SIZE" by simp
  show "\<exists>pre. pre \<noteq> [] \<and> bs = pre @ rest"
    using bs r by (intro exI [of _ "b # x"]) simp
qed (auto simp: cid_encode_long_def)

section \<open>Explicit congestion notification\<close>

datatype ecn_codepoint = Ect0 | Ect1 | Ce

definition ecn_from_bits :: "u8 \<Rightarrow> ecn_codepoint option" where
  "ecn_from_bits x =
     (let b = x AND 3 in
      if b = 2 then Some Ect0 else if b = 1 then Some Ect1 else if b = 3 then Some Ce else None)"

section \<open>Transport errors\<close>

text \<open>The error codes of \<open>transport_error.rs\<close>; equality of \<open>Error\<close>s compares the code only.\<close>

type_synonym transport_code = nat

definition NO_ERROR :: transport_code where "NO_ERROR = 0"
definition INTERNAL_ERROR :: transport_code where "INTERNAL_ERROR = 1"
definition FLOW_CONTROL_ERROR :: transport_code where "FLOW_CONTROL_ERROR = 3"
definition STREAM_LIMIT_ERROR :: transport_code where "STREAM_LIMIT_ERROR = 4"
definition STREAM_STATE_ERROR :: transport_code where "STREAM_STATE_ERROR = 5"
definition FINAL_SIZE_ERROR :: transport_code where "FINAL_SIZE_ERROR = 6"
definition FRAME_ENCODING_ERROR :: transport_code where "FRAME_ENCODING_ERROR = 7"
definition TRANSPORT_PARAMETER_ERROR :: transport_code where "TRANSPORT_PARAMETER_ERROR = 8"
definition CONNECTION_ID_LIMIT_ERROR :: transport_code where "CONNECTION_ID_LIMIT_ERROR = 9"
definition PROTOCOL_VIOLATION :: transport_code where "PROTOCOL_VIOLATION = 10"

record transport_error =
  te_code :: transport_code
  te_frame :: "nat option"
  te_reason :: string

definition te_new :: "transport_code \<Rightarrow> string \<Rightarrow> transport_error" where
  "te_new c r = \<lparr>te_code = c, te_frame = None, te_reason = r\<rparr>"

end
