(* ===== verification/Frame.thy ===== *)
theory Frame
  imports Proto_Types Range_Set
begin

text \<open>
  \<open>quic-proto/src/frame.rs\<close>: the frames of a packet payload, their encoders and the iterator that
  parses a payload. \<open>VarInt\<close>, \<open>StreamId\<close>, \<open>FrameType\<close> and the error codes are numbers below \<open>2^62\<close>, all
  written and read as variable-length integers.
\<close>

section \<open>Frame types\<close>

type_synonym frame_type = nat

definition PADDING :: frame_type where "PADDING = 0x00"
definition PING :: frame_type where "PING = 0x01"
definition ACK :: frame_type where "ACK = 0x02"
definition ACK_ECN :: frame_type where "ACK_ECN = 0x03"
definition RESET_STREAM :: frame_type where "RESET_STREAM = 0x04"
definition STOP_SENDING :: frame_type where "STOP_SENDING = 0x05"
definition CRYPTO :: frame_type where "CRYPTO = 0x06"
definition NEW_TOKEN :: frame_type where "NEW_TOKEN = 0x07"
definition MAX_DATA :: frame_type where "MAX_DATA = 0x10"
definition MAX_STREAM_DATA :: frame_type where "MAX_STREAM_DATA = 0x11"
definition MAX_STREAMS_BIDI :: frame_type where "MAX_STREAMS_BIDI = 0x12"
definition MAX_STREAMS_UNI :: frame_type where "MAX_STREAMS_UNI = 0x13"
definition DATA_BLOCKED :: frame_type where "DATA_BLOCKED = 0x14"
definition STREAM_DATA_BLOCKED :: frame_type where "STREAM_DATA_BLOCKED = 0x15"
definition STREAMS_BLOCKED_BIDI :: frame_type where "STREAMS_BLOCKED_BIDI = 0x16"
definition STREAMS_BLOCKED_UNI :: frame_type where "STREAMS_BLOCKED_UNI = 0x17"
definition NEW_CONNECTION_ID :: frame_type where "NEW_CONNECTION_ID = 0x18"
definition RETIRE_CONNECTION_ID :: frame_type where "RETIRE_CONNECTION_ID = 0x19"
definition PATH_CHALLENGE :: frame_type where "PATH_CHALLENGE = 0x1a"
definition PATH_RESPONSE :: frame_type where "PATH_RESPONSE = 0x1b"
definition CONNECTION_CLOSE :: frame_type where "CONNECTION_CLOSE = 0x1c"
definition APPLICATION_CLOSE :: frame_type where "APPLICATION_CLOSE = 0x1d"
definition HANDSHAKE_DONE :: frame_type where "HANDSHAKE_DONE = 0x1e"
definition ACK_FREQUENCY :: frame_type where "ACK_FREQUENCY = 0xaf"
definition IMMEDIATE_ACK :: frame_type where "IMMEDIATE_ACK = 0x1f"

definition STREAM_TYS_start :: frame_type where "STREAM_TYS_start = 0x08"
definition DATAGRAM_TYS_start :: frame_type where "DATAGRAM_TYS_start = 0x30"

lemmas frame_types =
  PADDING_def PING_def ACK_def ACK_ECN_def
  RESET_STREAM_def STOP_SENDING_def CRYPTO_def NEW_TOKEN_def
  MAX_DATA_def MAX_STREAM_DATA_def MAX_STREAMS_BIDI_def MAX_STREAMS_UNI_def
  DATA_BLOCKED_def STREAM_DATA_BLOCKED_def STREAMS_BLOCKED_BIDI_def STREAMS_BLOCKED_UNI_def
  NEW_CONNECTION_ID_def RETIRE_CONNECTION_ID_def PATH_CHALLENGE_def PATH_RESPONSE_def
  CONNECTION_CLOSE_def APPLICATION_CLOSE_def HANDSHAKE_DONE_def ACK_FREQUENCY_def
  IMMEDIATE_ACK_def STREAM_TYS_start_def DATAGRAM_TYS_start_def

text \<open>\<open>FrameType::stream\<close> and \<open>FrameType::datagram\<close>: the flag bits of the types that have them.\<close>

definition ft_stream :: "frame_type \<Rightarrow> u8 option" where
  "ft_stream ty = (if 0x08 \<le> ty \<and> ty \<le> 0x0f then Some (of_nat ty) else None)"

definition ft_datagram :: "frame_type \<Rightarrow> u8 option" where
  "ft_datagram ty = (if 0x30 \<le> ty \<and> ty \<le> 0x31 then Some (of_nat ty) else None)"

definition si_fin :: "u8 \<Rightarrow> bool" where "si_fin b \<longleftrightarrow> b AND 1 \<noteq> 0"
definition si_len :: "u8 \<Rightarrow> bool" where "si_len b \<longleftrightarrow> b AND 2 \<noteq> 0"
definition si_off :: "u8 \<Rightarrow> bool" where "si_off b \<longleftrightarrow> b AND 4 \<noteq> 0"
definition di_len :: "u8 \<Rightarrow> bool" where "di_len b \<longleftrightarrow> b AND 1 \<noteq> 0"

section \<open>Frames\<close>

record ecn_counts =
  ect0 :: nat
  ect1 :: nat
  ce :: nat

record ack =
  ack_largest :: nat
  ack_delay :: nat
  ack_additional :: bytes
  ack_ecn :: "ecn_counts option"

record reset_stream =
  rst_id :: stream_id
  rst_error_code :: nat
  rst_final_offset :: nat

record stop_sending =
  ss_id :: stream_id
  ss_error_code :: nat

record connection_close =
  cc_error_code :: transport_code
  cc_frame_type :: "frame_type option"
  cc_reason :: bytes

record application_close =
  ac_error_code :: nat
  ac_reason :: bytes

datatype close = Connection connection_close | Application application_close

record stream_frame =
  sf_id :: stream_id
  sf_offset :: nat
  sf_fin :: bool
  sf_data :: bytes

record crypto_frame =
  cf_offset :: nat
  cf_data :: bytes

record new_connection_id =
  nci_sequence :: nat
  nci_retire_prior_to :: nat
  nci_id :: connection_id
  nci_reset_token :: bytes

record ack_frequency_frame =
  af_sequence :: nat
  af_ack_eliciting_threshold :: nat
  af_request_max_ack_delay :: nat
  af_reordering_threshold :: nat

datatype frame =
    Padding | Ping | Ack ack | ResetStream reset_stream | StopSending stop_sending
  | Crypto crypto_frame | NewToken bytes | Stream stream_frame | MaxData nat
  | MaxStreamData stream_id nat | MaxStreams dir nat | DataBlocked nat
  | StreamDataBlocked stream_id nat | StreamsBlocked dir nat | NewConnectionId new_connection_id
  | RetireConnectionId nat | PathChallenge nat | PathResponse nat | Close close | Datagram bytes
  | AckFrequency ack_frequency_frame | ImmediateAck | HandshakeDone

definition frame_ty :: "frame \<Rightarrow> frame_type" where
  "frame_ty f = (case f of
     Padding \<Rightarrow> PADDING | ResetStream _ \<Rightarrow> RESET_STREAM
   | Close (Connection _) \<Rightarrow> CONNECTION_CLOSE | Close (Application _) \<Rightarrow> APPLICATION_CLOSE
   | MaxData _ \<Rightarrow> MAX_DATA | MaxStreamData _ _ \<Rightarrow> MAX_STREAM_DATA
   | MaxStreams Bi _ \<Rightarrow> MAX_STREAMS_BIDI | MaxStreams Uni _ \<Rightarrow> MAX_STREAMS_UNI
   | Ping \<Rightarrow> PING | DataBlocked _ \<Rightarrow> DATA_BLOCKED | StreamDataBlocked _ _ \<Rightarrow> STREAM_DATA_BLOCKED
   | StreamsBlocked Bi _ \<Rightarrow> STREAMS_BLOCKED_BIDI | StreamsBlocked Uni _ \<Rightarrow> STREAMS_BLOCKED_UNI
   | StopSending _ \<Rightarrow> STOP_SENDING | RetireConnectionId _ \<Rightarrow> RETIRE_CONNECTION_ID | Ack _ \<Rightarrow> ACK
   | Stream x \<Rightarrow> (STREAM_TYS_start OR (if sf_fin x then 1 else 0)) OR (if sf_offset x \<noteq> 0 then 4 else 0)
   | PathChallenge _ \<Rightarrow> PATH_CHALLENGE | PathResponse _ \<Rightarrow> PATH_RESPONSE
   | NewConnectionId _ \<Rightarrow> NEW_CONNECTION_ID | Crypto _ \<Rightarrow> CRYPTO | NewToken _ \<Rightarrow> NEW_TOKEN
   | Datagram _ \<Rightarrow> DATAGRAM_TYS_start | AckFrequency _ \<Rightarrow> ACK_FREQUENCY
   | ImmediateAck \<Rightarrow> IMMEDIATE_ACK | HandshakeDone \<Rightarrow> HANDSHAKE_DONE)"

fun is_ack_eliciting :: "frame \<Rightarrow> bool" where
  "is_ack_eliciting (Ack _) = False"
| "is_ack_eliciting Padding = False"
| "is_ack_eliciting (Close _) = False"
| "is_ack_eliciting _ = True"

section \<open>Encoders\<close>

definition close_from_transport_error :: "transport_error \<Rightarrow> connection_close" where
  "close_from_transport_error x = \<lparr>cc_error_code = te_code x, cc_frame_type = te_frame x,
     cc_reason = map (\<lambda>c. of_char c) (te_reason x)\<rparr>"

text \<open>
  The reason is cut to what the limit leaves; a length is \<open>unwrap\<close>ped as a \<open>VarInt\<close>, and \<open>max_len - 3 - \<dots>\<close>
  is \<open>usize\<close> arithmetic.
\<close>

definition connection_close_len :: "connection_close \<Rightarrow> nat \<Rightarrow> nat option" where
  "connection_close_len x max_len =
     (case (varint_size (case cc_frame_type x of None \<Rightarrow> 0 | Some t \<Rightarrow> t), varint_size (length (cc_reason x))) of
        (Some n, Some m) \<Rightarrow>
          Some (min (length (cc_reason x)) (wrapping_sub (wrapping_sub (wrapping_sub max_len 3) n) m))
      | _ \<Rightarrow> None)"

definition connection_close_encode :: "connection_close \<Rightarrow> nat \<Rightarrow> packet_writer" where
  "connection_close_encode x max_len =
     (case connection_close_len x max_len of
        None \<Rightarrow> None
      | Some actual_len \<Rightarrow>
          wcat [write_var CONNECTION_CLOSE, write_var (cc_error_code x),
                write_var (case cc_frame_type x of None \<Rightarrow> 0 | Some t \<Rightarrow> t),
                write_var actual_len, Some (take actual_len (cc_reason x))])"

definition application_close_len :: "application_close \<Rightarrow> nat \<Rightarrow> nat option" where
  "application_close_len x max_len =
     map_option (\<lambda>m. min (length (ac_reason x)) (wrapping_sub (wrapping_sub max_len 3) m))
       (varint_size (length (ac_reason x)))"

definition application_close_encode :: "application_close \<Rightarrow> nat \<Rightarrow> packet_writer" where
  "application_close_encode x max_len =
     (case application_close_len x max_len of
        None \<Rightarrow> None
      | Some actual_len \<Rightarrow>
          wcat [write_var APPLICATION_CLOSE, write_var (ac_error_code x),
                write_var actual_len, Some (take actual_len (ac_reason x))])"

fun close_encode :: "close \<Rightarrow> nat \<Rightarrow> packet_writer" where
  "close_encode (Connection x) max_len = connection_close_encode x max_len"
| "close_encode (Application x) max_len = application_close_encode x max_len"

definition ecn_counts_encode :: "ecn_counts \<Rightarrow> packet_writer" where
  "ecn_counts_encode x = wcat [write_var (ect0 x), write_var (ect1 x), write_var (ce x)]"

definition ecn_counts_add :: "ecn_counts \<Rightarrow> ecn_codepoint \<Rightarrow> ecn_counts" where
  "ecn_counts_add x rhs = (case rhs of
     Ect0 \<Rightarrow> x\<lparr>ect0 := wrapping_add (ect0 x) 1\<rparr>
   | Ect1 \<Rightarrow> x\<lparr>ect1 := wrapping_add (ect1 x) 1\<rparr>
   | Ce \<Rightarrow> x\<lparr>ce := wrapping_add (ce x) 1\<rparr>)"

definition ecn_counts_ZERO :: ecn_counts where
  "ecn_counts_ZERO = \<lparr>ect0 = 0, ect1 = 0, ce = 0\<rparr>"

fun ack_blocks_encode :: "nat \<Rightarrow> urange list \<Rightarrow> packet_writer" where
  "ack_blocks_encode prev [] = Some []"
| "ack_blocks_encode prev ((s, e) # rest) =
     wcat [write_var (wrapping_sub (wrapping_sub prev e) 1), write_var (wrapping_sub (wrapping_sub e s) 1),
           ack_blocks_encode s rest]"

text \<open>\<open>Ack::encode\<close> from the highest range down; no range at all is a panic.\<close>

definition ack_encode :: "nat \<Rightarrow> urange list \<Rightarrow> ecn_counts option \<Rightarrow> packet_writer" where
  "ack_encode delay ranges ecn = (case rev ranges of
     [] \<Rightarrow> None
   | (s, e) # rest \<Rightarrow>
       wcat [write_var (if ecn \<noteq> None then ACK_ECN else ACK), write_var (wrapping_sub e 1), write_var delay,
             write_var (wrapping_sub (length ranges) 1), write_var (wrapping_sub (wrapping_sub e s) 1),
             ack_blocks_encode s rest,
             (case ecn of Some x \<Rightarrow> ecn_counts_encode x | None \<Rightarrow> Some [])])"

record stream_meta =
  sm_id :: stream_id
  sm_offsets :: urange
  sm_fin :: bool

definition stream_meta_encode :: "stream_meta \<Rightarrow> bool \<Rightarrow> packet_writer" where
  "stream_meta_encode m len =
     (let ty = ((STREAM_TYS_start OR (if fst (sm_offsets m) \<noteq> 0 then 4 else 0))
                  OR (if len then 2 else 0)) OR (if sm_fin m then 1 else 0) in
      wcat [write_var ty, write_var (sm_id m),
            (if fst (sm_offsets m) \<noteq> 0 then write_var (fst (sm_offsets m)) else Some []),
            (if len then write_var (wrapping_sub (snd (sm_offsets m)) (fst (sm_offsets m))) else Some [])])"

definition crypto_encode :: "crypto_frame \<Rightarrow> packet_writer" where
  "crypto_encode x = wcat [write_var CRYPTO, write_var (cf_offset x), write_var (length (cf_data x)),
     Some (cf_data x)]"

definition new_token_encode :: "bytes \<Rightarrow> packet_writer" where
  "new_token_encode token = wcat [write_var NEW_TOKEN, write_var (length token), Some token]"

definition new_token_size :: "bytes \<Rightarrow> nat option" where
  "new_token_size token = map_option (\<lambda>n. 1 + n + length token) (varint_size (length token))"

definition reset_stream_encode :: "reset_stream \<Rightarrow> packet_writer" where
  "reset_stream_encode x = wcat [write_var RESET_STREAM, write_var (rst_id x),
     write_var (rst_error_code x), write_var (rst_final_offset x)]"

definition stop_sending_encode :: "stop_sending \<Rightarrow> packet_writer" where
  "stop_sending_encode x = wcat [write_var STOP_SENDING, write_var (ss_id x), write_var (ss_error_code x)]"

definition new_connection_id_encode :: "new_connection_id \<Rightarrow> packet_writer" where
  "new_connection_id_encode x = wcat [write_var NEW_CONNECTION_ID, write_var (nci_sequence x),
     write_var (nci_retire_prior_to x), u8_encode (of_nat (length (nci_id x))), Some (nci_id x),
     Some (nci_reset_token x)]"

definition datagram_encode :: "bytes \<Rightarrow> bool \<Rightarrow> packet_writer" where
  "datagram_encode data len = wcat [write_var (DATAGRAM_TYS_start OR (if len then 1 else 0)),
     (if len then write_var (length data) else Some []), Some data]"

definition datagram_size :: "bytes \<Rightarrow> bool \<Rightarrow> nat option" where
  "datagram_size data len =
     (if len then map_option (\<lambda>n. 1 + n + length data) (varint_size (length data))
      else Some (1 + length data))"

definition ack_frequency_encode :: "ack_frequency_frame \<Rightarrow> packet_writer" where
  "ack_frequency_encode x = wcat [write_var ACK_FREQUENCY, write_var (af_sequence x),
     write_var (af_ack_eliciting_threshold x), write_var (af_request_max_ack_delay x),
     write_var (af_reordering_threshold x)]"

text \<open>\<open>SIZE_BOUND\<close> of the frames that have one.\<close>

definition CONNECTION_CLOSE_SIZE_BOUND :: nat where "CONNECTION_CLOSE_SIZE_BOUND = 1 + 8 + 8 + 8"
definition APPLICATION_CLOSE_SIZE_BOUND :: nat where "APPLICATION_CLOSE_SIZE_BOUND = 1 + 8 + 8"
definition STREAM_SIZE_BOUND :: nat where "STREAM_SIZE_BOUND = 1 + 8 + 8 + 8"
definition CRYPTO_SIZE_BOUND :: nat where "CRYPTO_SIZE_BOUND = 17"
definition RESET_STREAM_SIZE_BOUND :: nat where "RESET_STREAM_SIZE_BOUND = 1 + 8 + 8 + 8"
definition STOP_SENDING_SIZE_BOUND :: nat where "STOP_SENDING_SIZE_BOUND = 1 + 8 + 8"
definition NEW_CONNECTION_ID_SIZE_BOUND :: nat where
  "NEW_CONNECTION_ID_SIZE_BOUND = 1 + 8 + 8 + 1 + MAX_CID_SIZE + RESET_TOKEN_SIZE"
definition RETIRE_CONNECTION_ID_SIZE_BOUND :: nat where "RETIRE_CONNECTION_ID_SIZE_BOUND = 9"
definition DATAGRAM_SIZE_BOUND :: nat where "DATAGRAM_SIZE_BOUND = 1 + 8"

lemmas size_bounds = CONNECTION_CLOSE_SIZE_BOUND_def APPLICATION_CLOSE_SIZE_BOUND_def STREAM_SIZE_BOUND_def
  CRYPTO_SIZE_BOUND_def RESET_STREAM_SIZE_BOUND_def STOP_SENDING_SIZE_BOUND_def
  NEW_CONNECTION_ID_SIZE_BOUND_def RETIRE_CONNECTION_ID_SIZE_BOUND_def DATAGRAM_SIZE_BOUND_def

section \<open>Parsing a payload\<close>

datatype iter_err = UnexpectedEnd | InvalidFrameId | Malformed

fun iter_err_reason :: "iter_err \<Rightarrow> string" where
  "iter_err_reason UnexpectedEnd = ''unexpected end''"
| "iter_err_reason InvalidFrameId = ''invalid frame ID''"
| "iter_err_reason Malformed = ''malformed''"

abbreviation var :: "(iter_err, nat) parser" where
  "var \<equiv> ptry UnexpectedEnd get_var"

definition take_len :: "(iter_err, bytes) parser" where
  "take_len = pbind var (\<lambda>len. ptry UnexpectedEnd (take_bytes len))"

definition take_remaining :: "(iter_err, bytes) parser" where
  "take_remaining bs = Inr (bs, [])"

fun scan_ack_loop :: "nat \<Rightarrow> nat \<Rightarrow> (iter_err, nat) parser" where
  "scan_ack_loop 0 smallest = preturn smallest"
| "scan_ack_loop (Suc n) smallest =
     pbind var (\<lambda>gap. case checked_sub smallest (gap + 2) of
       None \<Rightarrow> pfail Malformed
     | Some smallest' \<Rightarrow>
         pbind var (\<lambda>block. case checked_sub smallest' block of
           None \<Rightarrow> pfail Malformed
         | Some smallest'' \<Rightarrow> scan_ack_loop n smallest''))"

definition scan_ack_blocks :: "bytes \<Rightarrow> nat \<Rightarrow> nat \<Rightarrow> iter_err + nat" where
  "scan_ack_blocks buf largest n =
     (case pbind var (\<lambda>first_block. case checked_sub largest first_block of
             None \<Rightarrow> pfail Malformed
           | Some smallest \<Rightarrow> scan_ack_loop n smallest) buf of
        Inl e \<Rightarrow> Inl e
      | Inr (_, rest) \<Rightarrow> Inr (length buf - length rest))"

definition ack_decode :: "frame_type \<Rightarrow> (iter_err, frame) parser" where
  "ack_decode ty =
     pbind var (\<lambda>largest. pbind var (\<lambda>delay. pbind var (\<lambda>extra_blocks. \<lambda>bs.
       case scan_ack_blocks bs largest extra_blocks of
         Inl e \<Rightarrow> Inl e
       | Inr n \<Rightarrow>
           pbind (if ty \<noteq> ACK_ECN then preturn None
                  else pbind var (\<lambda>x. pbind var (\<lambda>y. pbind var (\<lambda>z.
                    preturn (Some \<lparr>ect0 = x, ect1 = y, ce = z\<rparr>)))))
             (\<lambda>ecn. preturn (Ack \<lparr>ack_largest = largest, ack_delay = delay,
                ack_additional = take n bs, ack_ecn = ecn\<rparr>))
             (drop n bs))))"

definition new_connection_id_decode :: "(iter_err, frame) parser" where
  "new_connection_id_decode =
     pbind var (\<lambda>sequence. pbind var (\<lambda>retire_prior_to.
       if retire_prior_to > sequence then pfail Malformed
       else pbind (ptry UnexpectedEnd u8_decode) (\<lambda>b.
         let len = unat b in
         if len > MAX_CID_SIZE \<or> len = 0 then pfail Malformed
         else pbind (ptry UnexpectedEnd (take_bytes len)) (\<lambda>id.
           pbind (ptry UnexpectedEnd (take_bytes RESET_TOKEN_SIZE)) (\<lambda>reset_token.
             preturn (NewConnectionId \<lparr>nci_sequence = sequence, nci_retire_prior_to = retire_prior_to,
               nci_id = id, nci_reset_token = reset_token\<rparr>))))))"

definition stream_decode :: "u8 \<Rightarrow> (iter_err, frame) parser" where
  "stream_decode s =
     pbind var (\<lambda>id. pbind (if si_off s then var else preturn 0) (\<lambda>offset.
       pbind (if si_len s then take_len else take_remaining) (\<lambda>data.
         preturn (Stream \<lparr>sf_id = id, sf_offset = offset, sf_fin = si_fin s, sf_data = data\<rparr>))))"

text \<open>The body of \<open>try_next\<close> after the type has been read.\<close>

definition frame_body :: "frame_type \<Rightarrow> (iter_err, frame) parser" where
  "frame_body ty =
    (if ty = PADDING then preturn Padding
     else if ty = RESET_STREAM then pbind var (\<lambda>id. pbind var (\<lambda>code. pbind var (\<lambda>off.
       preturn (ResetStream \<lparr>rst_id = id, rst_error_code = code, rst_final_offset = off\<rparr>))))
     else if ty = CONNECTION_CLOSE then pbind var (\<lambda>code. pbind var (\<lambda>x. pbind take_len (\<lambda>reason.
       preturn (Close (Connection \<lparr>cc_error_code = code,
         cc_frame_type = (if x = 0 then None else Some x), cc_reason = reason\<rparr>)))))
     else if ty = APPLICATION_CLOSE then pbind var (\<lambda>code. pbind take_len (\<lambda>reason.
       preturn (Close (Application \<lparr>ac_error_code = code, ac_reason = reason\<rparr>))))
     else if ty = MAX_DATA then pbind var (\<lambda>x. preturn (MaxData x))
     else if ty = MAX_STREAM_DATA then pbind var (\<lambda>id. pbind var (\<lambda>off. preturn (MaxStreamData id off)))
     else if ty = MAX_STREAMS_BIDI then pbind var (\<lambda>n. preturn (MaxStreams Bi n))
     else if ty = MAX_STREAMS_UNI then pbind var (\<lambda>n. preturn (MaxStreams Uni n))
     else if ty = PING then preturn Ping
     else if ty = DATA_BLOCKED then pbind var (\<lambda>off. preturn (DataBlocked off))
     else if ty = STREAM_DATA_BLOCKED then
       pbind var (\<lambda>id. pbind var (\<lambda>off. preturn (StreamDataBlocked id off)))
     else if ty = STREAMS_BLOCKED_BIDI then pbind var (\<lambda>n. preturn (StreamsBlocked Bi n))
     else if ty = STREAMS_BLOCKED_UNI then pbind var (\<lambda>n. preturn (StreamsBlocked Uni n))
     else if ty = STOP_SENDING then pbind var (\<lambda>id. pbind var (\<lambda>code.
       preturn (StopSending \<lparr>ss_id = id, ss_error_code = code\<rparr>)))
     else if ty = RETIRE_CONNECTION_ID then pbind var (\<lambda>n. preturn (RetireConnectionId n))
     else if ty = ACK \<or> ty = ACK_ECN then ack_decode ty
     else if ty = PATH_CHALLENGE then pbind (ptry UnexpectedEnd u64_decode) (\<lambda>x. preturn (PathChallenge x))
     else if ty = PATH_RESPONSE then pbind (ptry UnexpectedEnd u64_decode) (\<lambda>x. preturn (PathResponse x))
     else if ty = NEW_CONNECTION_ID then new_connection_id_decode
     else if ty = CRYPTO then pbind var (\<lambda>off. pbind take_len (\<lambda>data.
       preturn (Crypto \<lparr>cf_offset = off, cf_data = data\<rparr>)))
     else if ty = NEW_TOKEN then pbind take_len (\<lambda>token. preturn (NewToken token))
     else if ty = HANDSHAKE_DONE then preturn HandshakeDone
     else if ty = ACK_FREQUENCY then pbind var (\<lambda>a. pbind var (\<lambda>b. pbind var (\<lambda>c. pbind var (\<lambda>d.
       preturn (AckFrequency \<lparr>af_sequence = a, af_ack_eliciting_threshold = b,
         af_request_max_ack_delay = c, af_reordering_threshold = d\<rparr>)))))
     else if ty = IMMEDIATE_ACK then preturn ImmediateAck
     else case ft_stream ty of
         Some s \<Rightarrow> stream_decode s
       | None \<Rightarrow> (case ft_datagram ty of
             Some d \<Rightarrow> pbind (if di_len d then take_len else take_remaining) (\<lambda>data. preturn (Datagram data))
           | None \<Rightarrow> pfail InvalidFrameId))"

definition try_next :: "(iter_err, frame) parser" where
  "try_next = pbind var frame_body"

record frame_iter =
  fi_bytes :: bytes
  fi_last_ty :: "frame_type option"

definition frame_iter_new :: "bytes \<Rightarrow> transport_error + frame_iter" where
  "frame_iter_new payload =
     (if payload = [] then Inl (te_new PROTOCOL_VIOLATION ''packet payload is empty'')
      else Inr \<lparr>fi_bytes = payload, fi_last_ty = None\<rparr>)"

type_synonym invalid_frame = "frame_type option \<times> string"

definition frame_iter_next :: "frame_iter \<Rightarrow> (invalid_frame + frame) option \<times> frame_iter" where
  "frame_iter_next it =
     (if fi_bytes it = [] then (None, it)
      else
        let last_ty = (case get_var (fi_bytes it) of Some (ty, _) \<Rightarrow> Some ty | None \<Rightarrow> fi_last_ty it) in
        case try_next (fi_bytes it) of
          Inr (f, rest) \<Rightarrow> (Some (Inr f), \<lparr>fi_bytes = rest, fi_last_ty = last_ty\<rparr>)
        | Inl e \<Rightarrow> (Some (Inl (last_ty, iter_err_reason e)), \<lparr>fi_bytes = [], fi_last_ty = last_ty\<rparr>))"

definition invalid_frame_error :: "invalid_frame \<Rightarrow> transport_error" where
  "invalid_frame_error err =
     (te_new FRAME_ENCODING_ERROR (snd err))\<lparr>te_frame := fst err\<rparr>"

section \<open>The ranges of an ACK frame\<close>

text \<open>
  \<open>AckIter::next\<close>: the next range, inclusive at both ends. The outer \<open>None\<close> is the panic of \<open>unwrap\<close> on a
  cut-off block; a gap that is cut off leaves the buffer one byte shorter and \<open>largest\<close> as it was.
\<close>

type_synonym ack_iter = "nat \<times> bytes"

definition ack_iter_next :: "ack_iter \<Rightarrow> (urange \<times> ack_iter) option option" where
  "ack_iter_next it = (case it of (largest, data) \<Rightarrow>
     if data = [] then Some None
     else case get_var data of
         None \<Rightarrow> None
       | Some (block, r) \<Rightarrow>
           let item = (wrapping_sub largest block, largest) in
           (case get_var r of
              Some (gap, r') \<Rightarrow> Some (Some (item, wrapping_sub largest (wrapping_add (wrapping_add block gap) 2), r'))
            | None \<Rightarrow> Some (Some (item, largest, drop 1 r))))"

lemma ack_iter_next_shorter:
  "ack_iter_next it = Some (Some (x, it')) \<Longrightarrow> length (snd it') < length (snd it)"
  by (auto simp: ack_iter_next_def Let_def split: if_splits option.splits prod.splits
      dest!: var_codec.decode_shorter)

function ack_iter_collect :: "ack_iter \<Rightarrow> urange list option" where
  "ack_iter_collect it = (case ack_iter_next it of
     None \<Rightarrow> None
   | Some None \<Rightarrow> Some []
   | Some (Some (x, it')) \<Rightarrow> map_option (\<lambda>xs. x # xs) (ack_iter_collect it'))"
  by pat_completeness auto
termination
  by (relation "measure (length \<circ> snd)") (use ack_iter_next_shorter in fastforce)+

declare ack_iter_collect.simps [simp del]

section \<open>ACK frames\<close>

lemma wcat_var_Cons:
  "wcat (write_var x # ws) = Some z \<longleftrightarrow> is_varint x \<and> (\<exists>y. wcat ws = Some y \<and> z = var_bytes x @ y)"
proof (cases "is_varint x")
  case False
  then show ?thesis using write_var_None_iff [of x] by simp
qed (auto simp: write_var_bytes)

lemma wcat_Nil_iff: "wcat [] = Some z \<longleftrightarrow> z = []"
  by auto

lemma var_bytes_read [simp]: "is_varint x \<Longrightarrow> ptry e get_var (var_bytes x @ rest) = Inr (x, rest)"
  by (simp add: get_var_bytes)

lemma is_varint_le: "is_varint x \<Longrightarrow> y \<le> x \<Longrightarrow> is_varint y"
  by (simp add: is_varint_def)

lemma rs_inv_rev_Cons:
  "rs_inv (rev ((s, e) # l)) \<longleftrightarrow> s < e \<and> rs_inv (rev l) \<and> (\<forall>(s', e') \<in> set l. e' < s)"
  by (auto simp: rs_inv_append)

text \<open>An inclusive range as \<open>AckIter\<close> yields it.\<close>

definition inclusive :: "urange \<Rightarrow> urange" where
  "inclusive x = (fst x, snd x - 1)"

lemma ack_iter_collect_Nil [simp]: "ack_iter_collect (largest, []) = Some []"
  by (subst ack_iter_collect.simps) (simp add: ack_iter_next_def)

lemma ack_iter_collect_last:
  assumes "get_var data = Some (block, [])" and "block \<le> largest"
  shows "ack_iter_collect (largest, data) = Some [(largest - block, largest)]"
proof -
  have "get_var [] = None" by (simp add: get_var_def varint_decode_def)
  moreover have "data \<noteq> []" using assms calculation by auto
  ultimately show ?thesis
    using assms by (subst ack_iter_collect.simps) (simp add: ack_iter_next_def Let_def)
qed

lemma ack_iter_collect_step:
  assumes "get_var data = Some (block, r)" and "get_var r = Some (gap, r')"
    and "block + gap + 2 \<le> largest" and "is_varint block" and "is_varint gap"
  shows "ack_iter_collect (largest, data) =
    map_option (\<lambda>xs. (largest - block, largest) # xs) (ack_iter_collect (largest - (block + gap + 2), r'))"
proof -
  have "data \<noteq> []" using assms(1) by (auto simp: get_var_def varint_decode_def)
  moreover have "wrapping_add (wrapping_add block gap) 2 = block + gap + 2"
    using assms(4,5) by (simp add: wrapping_add_def is_varint_iff)
  ultimately show ?thesis
    using assms by (subst ack_iter_collect.simps) (simp add: ack_iter_next_def Let_def)
qed

text \<open>What \<open>scan_ack_blocks\<close> accepted can be iterated without a panic or an underflow.\<close>

lemma scan_ack_loop_collect:
  assumes "get_var buf = Some (block, r)" and "block \<le> largest"
    and "scan_ack_loop n (largest - block) r = Inr (sm, rest)"
  shows "\<exists>pre l. buf = pre @ rest \<and> length l = n \<and> rs_inv (rev ((largest - block, largest + 1) # l)) \<and>
    ack_iter_collect (largest, pre) = Some (map inclusive ((largest - block, largest + 1) # l))"
  using assms
proof (induction n arbitrary: buf block r largest)
  case 0
  obtain p where p: "buf = p @ r" "\<And>s. get_var (p @ s) = Some (block, s)"
    using get_var_prefix [OF 0(1)] by metis
  then show ?case
    using 0 p(2) [of "[]"] by (intro exI [of _ p] exI [of _ "[]"])
      (auto simp: ack_iter_collect_last inclusive_def)
next
  case (Suc n)
  from Suc.prems(3) obtain gap r1 block' r2 where
    gap: "get_var r = Some (gap, r1)" "gap + 2 \<le> largest - block" and
    block': "get_var r1 = Some (block', r2)" "block' \<le> largest - (block + gap + 2)" and
    loop: "scan_ack_loop n (largest - (block + gap + 2) - block') r2 = Inr (sm, rest)"
    by (auto simp: checked_sub_def diff_diff_left add.assoc split: if_splits option.splits
        elim!: pbind_InrE ptry_InrE)
  let ?largest' = "largest - (block + gap + 2)"
  obtain pre l where IH: "r1 = pre @ rest" "length l = n"
    "rs_inv (rev ((?largest' - block', ?largest' + 1) # l))"
    "ack_iter_collect (?largest', pre) = Some (map inclusive ((?largest' - block', ?largest' + 1) # l))"
    using Suc.IH [OF block'(1,2) loop] by blast
  obtain p where p: "buf = p @ r" "\<And>s. get_var (p @ s) = Some (block, s)"
    using get_var_prefix [OF Suc.prems(1)] by metis
  obtain q where q: "r = q @ r1" "\<And>s. get_var (q @ s) = Some (gap, s)"
    using get_var_prefix [OF gap(1)] by metis
  have valid: "is_varint block" "is_varint gap"
    using var_codec.decode_valid Suc.prems(1) gap(1) by blast+
  have step: "ack_iter_collect (largest, p @ q @ pre) =
      map_option (\<lambda>xs. (largest - block, largest) # xs) (ack_iter_collect (?largest', pre))"
    by (rule ack_iter_collect_step [OF p(2) q(2) _ valid]) (use gap(2) Suc.prems(2) in linarith)
  have "?largest' + 1 < largest - block" using gap(2) Suc.prems(2) by linarith
  moreover from IH(3) have "\<forall>(s', e') \<in> set l. e' < ?largest' - block'"
    by (simp add: rs_inv_rev_Cons del: rev.simps)
  ultimately have "\<forall>(s', e') \<in> set ((?largest' - block', ?largest' + 1) # l). e' < largest - block"
    by fastforce
  then have "rs_inv (rev ((largest - block, largest + 1) # (?largest' - block', ?largest' + 1) # l))"
    using IH(3) by (subst rs_inv_rev_Cons) simp
  moreover have "buf = (p @ q @ pre) @ rest" using p(1) q(1) IH(1) by simp
  ultimately show ?case
    using step IH(2,4)
    by (intro exI [of _ "p @ q @ pre"] exI [of _ "(?largest' - block', ?largest' + 1) # l"])
      (simp add: inclusive_def)
qed

lemma scan_ack_blocks_collect:
  assumes "scan_ack_blocks buf largest n = Inr k"
  shows "k \<le> length buf \<and> (\<exists>l. length l = Suc n \<and> rs_inv (rev l) \<and> snd (hd l) = Suc largest \<and>
    ack_iter_collect (largest, take k buf) = Some (map inclusive l))"
proof -
  obtain block r sm rest where
    *: "get_var buf = Some (block, r)" "block \<le> largest"
      "scan_ack_loop n (largest - block) r = Inr (sm, rest)" "k = length buf - length rest"
    using assms by (auto simp: scan_ack_blocks_def checked_sub_def split: sum.splits option.splits if_splits
        elim!: pbind_InrE ptry_InrE)
  obtain pre l where "buf = pre @ rest" "length l = n"
    "rs_inv (rev ((largest - block, largest + 1) # l))"
    "ack_iter_collect (largest, pre) = Some (map inclusive ((largest - block, largest + 1) # l))"
    using scan_ack_loop_collect [OF *(1-3)] by blast
  then show ?thesis
    using *(4) by (intro conjI exI [of _ "(largest - block, largest + 1) # l"]) auto
qed

text \<open>C26: an ACK frame that the parser accepts, whatever bytes the peer sent, can be iterated to the end
  without a panic or an underflow. The ranges it yields start at the largest acknowledged packet, go
  strictly down, are non-empty and never touch each other.\<close>

theorem parsed_ack_iterates:
  assumes "try_next bs = Inr (Ack a, rest)"
  shows "\<exists>l. ack_iter_collect (ack_largest a, ack_additional a) = Some (map inclusive l) \<and>
    l \<noteq> [] \<and> rs_inv (rev l) \<and> snd (hd l) = Suc (ack_largest a)"
proof -
  from assms obtain ty r where ty: "frame_body ty r = Inr (Ack a, rest)"
    unfolding try_next_def by (rule pbind_InrE)
  then have "ack_decode ty r = Inr (Ack a, rest)"
    by (auto simp: frame_body_def new_connection_id_decode_def stream_decode_def take_len_def
        take_remaining_def Let_def split: if_splits option.splits elim!: pbind_InrE ptry_InrE)
  then obtain buf n k where scan: "scan_ack_blocks buf (ack_largest a) n = Inr k"
    and add: "ack_additional a = take k buf"
    by (auto simp: ack_decode_def split: if_splits sum.splits elim!: pbind_InrE)
  obtain l where "length l = Suc n" "rs_inv (rev l)" "snd (hd l) = Suc (ack_largest a)"
    "ack_iter_collect (ack_largest a, take k buf) = Some (map inclusive l)"
    using scan_ack_blocks_collect [OF scan] by blast
  then show ?thesis by (intro exI [of _ l]) (auto simp: add)
qed

theorem parsed_ack_iterates_witness:
  "try_next [2, 10, 0, 1, 2, 3, 1] =
     Inr (Ack \<lparr>ack_largest = 10, ack_delay = 0, ack_additional = [2, 3, 1], ack_ecn = None\<rparr>, []) \<and>
   (\<exists>l. ack_iter_collect (10, [2, 3, 1]) = Some (map inclusive l) \<and> rs_inv (rev l))"
proof -
  have ok: "try_next [2, 10, 0, 1, 2, 3, 1] =
     Inr (Ack \<lparr>ack_largest = 10, ack_delay = 0, ack_additional = [2, 3, 1], ack_ecn = None\<rparr>, [])"
    by code_simp
  then show ?thesis using parsed_ack_iterates [OF ok] by auto
qed

text \<open>Encoding the ranges below one that starts at \<open>s\<close>.\<close>

lemma ack_blocks_encode_total:
  assumes "rs_inv (rev l)" and "\<forall>(s', e') \<in> set l. e' < s" and "is_varint s"
  shows "\<exists>bs. ack_blocks_encode s l = Some bs \<and>
    (\<forall>r. \<exists>sm. scan_ack_loop (length l) s (bs @ r) = Inr (sm, r))"
  using assms
proof (induction l arbitrary: s)
  case (Cons x l)
  obtain s' e' where x: "x = (s', e')" by (cases x)
  have *: "s' < e'" "rs_inv (rev l)" "\<forall>(a, b) \<in> set l. b < s'"
    using Cons.prems(1) unfolding x rs_inv_rev_Cons by auto
  have lt: "e' < s" using Cons.prems(2) x by simp
  then have v: "is_varint s'" "is_varint (s - e' - 1)" "is_varint (e' - s' - 1)"
    using Cons.prems(3) *(1) by (auto intro: is_varint_le [of s])
  obtain bs where bs: "ack_blocks_encode s' l = Some bs"
    "\<And>r. \<exists>sm. scan_ack_loop (length l) s' (bs @ r) = Inr (sm, r)"
    using Cons.IH [OF *(2,3) v(1)] by blast
  have "s - Suc (s - e' - Suc 0 + Suc 0) = e' - Suc 0" "e' - Suc 0 - (e' - s' - Suc 0) = s'"
    "e' - Suc s' \<le> e' - Suc 0" "Suc (Suc (s - Suc e')) \<le> s"
    using lt *(1) by simp_all
  with v lt *(1) bs show ?case
    by (simp add: x write_var_bytes checked_sub_def)
qed simp

lemma ack_blocks_collect:
  assumes "rs_inv (rev ((s, e) # l))" and "is_varint e" and "ack_blocks_encode s l = Some bs"
  shows "ack_iter_collect (e - 1, var_bytes (e - s - 1) @ bs) = Some (map inclusive ((s, e) # l))"
  using assms
proof (induction l arbitrary: s e bs)
  case Nil
  then have "is_varint (e - s - 1)" by (auto intro: is_varint_le [of e])
  then show ?case
    using Nil ack_iter_collect_last [of "var_bytes (e - s - 1)" "e - s - 1" "e - 1"]
      get_var_bytes [of "e - s - 1" "[]"] by (simp add: inclusive_def)
next
  case (Cons x l)
  obtain s' e' where x: "x = (s', e')" by (cases x)
  from Cons.prems(1) have *: "s < e" "rs_inv (rev ((s', e') # l))" "e' < s" "s' < e'"
    unfolding x by (auto simp: rs_inv_append)
  have v: "is_varint e'" "is_varint (s - e' - 1)" "is_varint (e' - s' - 1)" "is_varint (e - s - 1)"
    using Cons.prems(2) *(1,3) by (auto intro: is_varint_le [of e])
  obtain bs' where bs': "ack_blocks_encode s' l = Some bs'"
    and bs: "bs = var_bytes (s - e' - 1) @ var_bytes (e' - s' - 1) @ bs'"
    using Cons.prems(3) v *(3,4) by (auto simp: x write_var_bytes split: option.splits)
  have "ack_iter_collect (e - 1, var_bytes (e - s - 1) @ bs) =
      map_option (\<lambda>xs. (e - 1 - (e - s - 1), e - 1) # xs)
        (ack_iter_collect (e - 1 - (e - s - 1 + (s - e' - 1) + 2), var_bytes (e' - s' - 1) @ bs'))"
    unfolding bs
    by (rule ack_iter_collect_step [OF get_var_bytes [OF v(4)] get_var_bytes [OF v(2)] _ v(4,2)])
      (use *(1,3,4) in linarith)
  moreover have "e - 1 - (e - s - 1 + (s - e' - 1) + 2) = e' - 1" "e - 1 - (e - s - 1) = s"
    using *(1,3,4) by linarith+
  ultimately show ?case
    using Cons.IH [OF *(2) v(1) bs'] by (simp add: inclusive_def x)
qed

definition ecn_valid :: "ecn_counts option \<Rightarrow> bool" where
  "ecn_valid ecn = (case ecn of None \<Rightarrow> True
     | Some x \<Rightarrow> is_varint (ect0 x) \<and> is_varint (ect1 x) \<and> is_varint (ce x))"

text \<open>The frame that the parser makes of encoded ranges.\<close>

definition ack_of :: "nat \<Rightarrow> urange list \<Rightarrow> ecn_counts option \<Rightarrow> ack" where
  "ack_of delay ranges ecn = \<lparr>ack_largest = snd (last ranges) - 1, ack_delay = delay,
     ack_additional = var_bytes (snd (last ranges) - fst (last ranges) - 1) @
       the (ack_blocks_encode (fst (last ranges)) (tl (rev ranges))),
     ack_ecn = ecn\<rparr>"

definition ackable :: "nat \<Rightarrow> urange list \<Rightarrow> ecn_counts option \<Rightarrow> bool" where
  "ackable delay ranges ecn \<longleftrightarrow> rs_inv ranges \<and> ranges \<noteq> [] \<and> is_varint (snd (last ranges)) \<and>
     is_varint delay \<and> ecn_valid ecn \<and> is_varint (length ranges)"

lemma ack_decode_encoded:
  assumes "ackable delay ranges ecn"
  shows "\<exists>bs. ack_encode delay ranges ecn = Some bs \<and>
    (\<forall>r. try_next (bs @ r) = Inr (Ack (ack_of delay ranges ecn), r)) \<and>
    ack_iter_collect (ack_largest (ack_of delay ranges ecn), ack_additional (ack_of delay ranges ecn)) =
      Some (rev (map inclusive ranges))"
proof -
  from assms have a: "rs_inv ranges" "ranges \<noteq> []" "is_varint (snd (last ranges))" "is_varint delay"
    "ecn_valid ecn" "is_varint (length ranges)" by (simp_all add: ackable_def)
  obtain s e rest where rev: "rev ranges = (s, e) # rest" using a(2) by (cases "rev ranges") auto
  then have ranges: "ranges = rev ((s, e) # rest)" by (metis rev_rev_ident)
  have inv: "rs_inv (rev ((s, e) # rest))" using a(1) ranges by simp
  then have *: "s < e" "rs_inv (rev rest)" "\<forall>(a, b) \<in> set rest. b < s" unfolding rs_inv_rev_Cons by auto
  have e: "is_varint e" using a(3) by (simp add: ranges)
  then have v: "is_varint s" "is_varint (e - 1)" "is_varint (e - s - 1)"
    using *(1) by (auto intro: is_varint_le [of e])
  have n: "length ranges = Suc (length rest)" "is_varint (length rest)"
    using a(6) by (auto simp: ranges intro: is_varint_le)
  obtain blocks where blocks: "ack_blocks_encode s rest = Some blocks"
    and scan: "\<And>r. \<exists>sm. scan_ack_loop (length rest) s (blocks @ r) = Inr (sm, r)"
    using ack_blocks_encode_total [OF *(2,3) v(1)] by blast
  define add where "add = var_bytes (e - s - 1) @ blocks"
  define tail where "tail = (case ecn of None \<Rightarrow> []
      | Some x \<Rightarrow> var_bytes (ect0 x) @ var_bytes (ect1 x) @ var_bytes (ce x))"
  define ty where "ty = (if ecn \<noteq> None then ACK_ECN else ACK)"
  have of: "ack_of delay ranges ecn =
      \<lparr>ack_largest = e - 1, ack_delay = delay, ack_additional = add, ack_ecn = ecn\<rparr>"
    by (simp add: ack_of_def ranges add_def blocks)
  have ty: "is_varint ty" "frame_body ty = ack_decode ty"
    by (auto simp: ty_def frame_types is_varint_iff frame_body_def)
  have enc: "ack_encode delay ranges ecn = Some
      (var_bytes ty @ var_bytes (e - 1) @ var_bytes delay @ var_bytes (length rest) @ add @ tail)"
    using a(4,5) v n ty *(1) blocks unfolding ack_encode_def rev ty_def [symmetric]
    by (auto simp: write_var_bytes add_def tail_def ecn_valid_def ecn_counts_encode_def split: option.splits)
  have "scan_ack_blocks (add @ r) (e - 1) (length rest) = Inr (length add)" for r
    using scan [of r] v *(1) by (auto simp: scan_ack_blocks_def add_def checked_sub_def)
  then have "ack_decode ty (var_bytes (e - 1) @ var_bytes delay @ var_bytes (length rest) @ add @ tail @ r) =
      Inr (Ack (ack_of delay ranges ecn), r)" for r
    using v(2) a(4,5) n(2) unfolding of
    by (auto simp: ack_decode_def ty_def tail_def frame_types ecn_valid_def split: option.splits)
  moreover have "ack_iter_collect (e - 1, add) = Some (rev (map inclusive ranges))"
    using ack_blocks_collect [OF inv e blocks] by (simp add: add_def ranges rev_map)
  ultimately show ?thesis using ty enc by (simp add: try_next_def of)
qed

text \<open>An ACK frame built from a non-empty set of ranges below \<open>2^62\<close> is read back with the same
  largest packet, delay and ECN counts, and iterating it yields exactly the encoded ranges, from the
  highest down.\<close>

theorem ack_frame_round_trip:
  assumes "ackable delay ranges ecn"
  shows "\<exists>bs a. ack_encode delay ranges ecn = Some bs \<and> try_next (bs @ rest) = Inr (Ack a, rest) \<and>
    ack_largest a = snd (last ranges) - 1 \<and> ack_delay a = delay \<and> ack_ecn a = ecn \<and>
    ack_iter_collect (ack_largest a, ack_additional a) = Some (rev (map inclusive ranges))"
  using ack_decode_encoded [OF assms]
  by (auto intro!: exI [of _ "ack_of delay ranges ecn"]) (simp_all add: ack_of_def)

theorem ack_frame_round_trip_witness:
  "ackable 7 [(3, 5), (8, 11)] None \<and>
   (\<exists>bs a. ack_encode 7 [(3, 5), (8, 11)] None = Some bs \<and> try_next (bs @ [1]) = Inr (Ack a, [1]) \<and>
     ack_iter_collect (ack_largest a, ack_additional a) = Some [(8, 10), (3, 4)])"
proof -
  have ok: "ackable 7 [(3, 5), (8, 11)] None" by (simp add: ackable_def ecn_valid_def is_varint_iff)
  show ?thesis using ok ack_frame_round_trip [OF ok, of "[1]"] by (auto simp: inclusive_def)
qed

section \<open>All frames\<close>

text \<open>
  \<open>frame_bytes f bs\<close>: \<open>bs\<close> is what the engine writes for the frame \<open>f\<close>. Frames without an encoder of their
  own are a type and fields, written one after another where the packet is populated. A stream or
  datagram frame here carries its length; without it the frame extends to the end of the packet.
\<close>

inductive frame_bytes :: "frame \<Rightarrow> bytes \<Rightarrow> bool" where
  padding: "wcat [write_var PADDING] = Some bs \<Longrightarrow> frame_bytes Padding bs"
| ping: "wcat [write_var PING] = Some bs \<Longrightarrow> frame_bytes Ping bs"
| ack: "ack_encode delay ranges ecn = Some bs \<Longrightarrow> ackable delay ranges ecn \<Longrightarrow>
    frame_bytes (Ack (ack_of delay ranges ecn)) bs"
| reset_stream: "reset_stream_encode x = Some bs \<Longrightarrow> frame_bytes (ResetStream x) bs"
| stop_sending: "stop_sending_encode x = Some bs \<Longrightarrow> frame_bytes (StopSending x) bs"
| crypto: "crypto_encode x = Some bs \<Longrightarrow> frame_bytes (Crypto x) bs"
| new_token: "new_token_encode token = Some bs \<Longrightarrow> frame_bytes (NewToken token) bs"
| stream: "stream_meta_encode \<lparr>sm_id = sf_id x, sm_offsets = (sf_offset x, sf_offset x + length (sf_data x)),
      sm_fin = sf_fin x\<rparr> True = Some hdr \<Longrightarrow> bs = hdr @ sf_data x \<Longrightarrow> frame_bytes (Stream x) bs"
| max_data: "wcat [write_var MAX_DATA, write_var n] = Some bs \<Longrightarrow> frame_bytes (MaxData n) bs"
| max_stream_data: "wcat [write_var MAX_STREAM_DATA, write_var sid, write_var n] = Some bs \<Longrightarrow>
    frame_bytes (MaxStreamData sid n) bs"
| max_streams: "wcat [write_var (case d of Uni \<Rightarrow> MAX_STREAMS_UNI | Bi \<Rightarrow> MAX_STREAMS_BIDI), write_var n] =
    Some bs \<Longrightarrow> frame_bytes (MaxStreams d n) bs"
| streams_blocked: "wcat [write_var (case d of Uni \<Rightarrow> STREAMS_BLOCKED_UNI | Bi \<Rightarrow> STREAMS_BLOCKED_BIDI),
    write_var n] = Some bs \<Longrightarrow> frame_bytes (StreamsBlocked d n) bs"
| new_connection_id: "new_connection_id_encode x = Some bs \<Longrightarrow> 0 < length (nci_id x) \<Longrightarrow>
    length (nci_id x) \<le> MAX_CID_SIZE \<Longrightarrow> length (nci_reset_token x) = RESET_TOKEN_SIZE \<Longrightarrow>
    nci_retire_prior_to x \<le> nci_sequence x \<Longrightarrow> frame_bytes (NewConnectionId x) bs"
| retire_connection_id: "wcat [write_var RETIRE_CONNECTION_ID, write_var n] = Some bs \<Longrightarrow>
    frame_bytes (RetireConnectionId n) bs"
| path_challenge: "wcat [write_var PATH_CHALLENGE, u64_encode n] = Some bs \<Longrightarrow> fits 8 n \<Longrightarrow>
    frame_bytes (PathChallenge n) bs"
| path_response: "wcat [write_var PATH_RESPONSE, u64_encode n] = Some bs \<Longrightarrow> fits 8 n \<Longrightarrow>
    frame_bytes (PathResponse n) bs"
| connection_close: "connection_close_encode x max_len = Some bs \<Longrightarrow> cc_frame_type x \<noteq> Some 0 \<Longrightarrow>
    connection_close_len x max_len = Some n \<Longrightarrow>
    frame_bytes (Close (Connection (x\<lparr>cc_reason := take n (cc_reason x)\<rparr>))) bs"
| application_close: "application_close_encode y max_len = Some bs \<Longrightarrow> application_close_len y max_len = Some n \<Longrightarrow>
    frame_bytes (Close (Application (y\<lparr>ac_reason := take n (ac_reason y)\<rparr>))) bs"
| datagram: "datagram_encode data True = Some bs \<Longrightarrow> frame_bytes (Datagram data) bs"
| ack_frequency: "ack_frequency_encode x = Some bs \<Longrightarrow> frame_bytes (AckFrequency x) bs"
| immediate_ack: "wcat [write_var IMMEDIATE_ACK] = Some bs \<Longrightarrow> frame_bytes ImmediateAck bs"
| handshake_done: "wcat [write_var HANDSHAKE_DONE] = Some bs \<Longrightarrow> frame_bytes HandshakeDone bs"

lemma is_varint_types [simp]:
  "is_varint PADDING" "is_varint PING" "is_varint RESET_STREAM" "is_varint STOP_SENDING" "is_varint CRYPTO"
  "is_varint NEW_TOKEN" "is_varint MAX_DATA" "is_varint MAX_STREAM_DATA" "is_varint MAX_STREAMS_BIDI"
  "is_varint MAX_STREAMS_UNI" "is_varint STREAMS_BLOCKED_BIDI" "is_varint STREAMS_BLOCKED_UNI"
  "is_varint NEW_CONNECTION_ID" "is_varint RETIRE_CONNECTION_ID" "is_varint PATH_CHALLENGE"
  "is_varint PATH_RESPONSE" "is_varint CONNECTION_CLOSE" "is_varint APPLICATION_CLOSE"
  "is_varint ACK_FREQUENCY" "is_varint IMMEDIATE_ACK" "is_varint HANDSHAKE_DONE"
  by (simp_all add: frame_types is_varint_iff)

lemma try_next_type: "is_varint ty \<Longrightarrow> try_next (var_bytes ty @ r) = frame_body ty r"
  by (simp add: try_next_def)

lemma take_len_read: "is_varint (length xs) \<Longrightarrow> take_len (var_bytes (length xs) @ xs @ r) = Inr (xs, r)"
  by (simp add: take_len_def)

lemma frame_body_simps:
  "frame_body PADDING = preturn Padding"
  "frame_body PING = preturn Ping"
  "frame_body MAX_DATA = pbind var (\<lambda>x. preturn (MaxData x))"
  "frame_body MAX_STREAM_DATA = pbind var (\<lambda>id. pbind var (\<lambda>off. preturn (MaxStreamData id off)))"
  "frame_body MAX_STREAMS_BIDI = pbind var (\<lambda>n. preturn (MaxStreams Bi n))"
  "frame_body MAX_STREAMS_UNI = pbind var (\<lambda>n. preturn (MaxStreams Uni n))"
  "frame_body STREAMS_BLOCKED_BIDI = pbind var (\<lambda>n. preturn (StreamsBlocked Bi n))"
  "frame_body STREAMS_BLOCKED_UNI = pbind var (\<lambda>n. preturn (StreamsBlocked Uni n))"
  "frame_body RETIRE_CONNECTION_ID = pbind var (\<lambda>n. preturn (RetireConnectionId n))"
  "frame_body PATH_CHALLENGE = pbind (ptry UnexpectedEnd u64_decode) (\<lambda>x. preturn (PathChallenge x))"
  "frame_body PATH_RESPONSE = pbind (ptry UnexpectedEnd u64_decode) (\<lambda>x. preturn (PathResponse x))"
  "frame_body NEW_CONNECTION_ID = new_connection_id_decode"
  "frame_body NEW_TOKEN = pbind take_len (\<lambda>token. preturn (NewToken token))"
  "frame_body HANDSHAKE_DONE = preturn HandshakeDone"
  "frame_body IMMEDIATE_ACK = preturn ImmediateAck"
  "frame_body RESET_STREAM = pbind var (\<lambda>id. pbind var (\<lambda>code. pbind var (\<lambda>off.
     preturn (ResetStream \<lparr>rst_id = id, rst_error_code = code, rst_final_offset = off\<rparr>))))"
  "frame_body STOP_SENDING = pbind var (\<lambda>id. pbind var (\<lambda>code.
     preturn (StopSending \<lparr>ss_id = id, ss_error_code = code\<rparr>)))"
  "frame_body CRYPTO = pbind var (\<lambda>off. pbind take_len (\<lambda>data.
     preturn (Crypto \<lparr>cf_offset = off, cf_data = data\<rparr>)))"
  "frame_body ACK_FREQUENCY = pbind var (\<lambda>a. pbind var (\<lambda>b. pbind var (\<lambda>c. pbind var (\<lambda>d.
     preturn (AckFrequency \<lparr>af_sequence = a, af_ack_eliciting_threshold = b,
       af_request_max_ack_delay = c, af_reordering_threshold = d\<rparr>)))))"
  "frame_body CONNECTION_CLOSE = pbind var (\<lambda>code. pbind var (\<lambda>x. pbind take_len (\<lambda>reason.
     preturn (Close (Connection \<lparr>cc_error_code = code,
       cc_frame_type = (if x = 0 then None else Some x), cc_reason = reason\<rparr>)))))"
  "frame_body APPLICATION_CLOSE = pbind var (\<lambda>code. pbind take_len (\<lambda>reason.
     preturn (Close (Application \<lparr>ac_error_code = code, ac_reason = reason\<rparr>))))"
  by (simp_all add: frame_body_def frame_types)

lemmas encoders = reset_stream_encode_def stop_sending_encode_def crypto_encode_def new_token_encode_def
  ack_frequency_encode_def wcat_var_Cons wcat_Some_Cons wcat_Nil_iff

lemma frame_body_stream:
  assumes "8 \<le> ty" and "ty \<le> 15"
  shows "frame_body ty = stream_decode (of_nat ty)"
  unfolding frame_body_def frame_types using assms by (simp add: ft_stream_def)

text \<open>The type byte of a stream frame and the flags read back from it.\<close>

definition stream_ty :: "bool \<Rightarrow> bool \<Rightarrow> bool \<Rightarrow> nat" where
  "stream_ty off len fin = ((STREAM_TYS_start OR (if off then 4 else 0)) OR (if len then 2 else 0))
     OR (if fin then 1 else 0)"

lemma stream_ty_flags:
  "8 \<le> stream_ty off len fin" "stream_ty off len fin \<le> 15"
  "si_off (of_nat (stream_ty off len fin)) = off" "si_len (of_nat (stream_ty off len fin)) = len"
  "si_fin (of_nat (stream_ty off len fin)) = fin"
  by (cases off; cases len; cases fin;
      simp add: stream_ty_def frame_types si_off_def si_len_def si_fin_def)+

lemma stream_meta_encode_Some:
  assumes "stream_meta_encode \<lparr>sm_id = i, sm_offsets = (off, off + n), sm_fin = fin\<rparr> len = Some hdr"
  shows "is_varint i" and "off \<noteq> 0 \<Longrightarrow> is_varint off" and "len \<Longrightarrow> is_varint n"
    and "hdr = var_bytes (stream_ty (off \<noteq> 0) len fin) @ var_bytes i @
      (if off \<noteq> 0 then var_bytes off else []) @ (if len then var_bytes n else [])"
proof -
  have enc: "wcat [write_var (stream_ty (off \<noteq> 0) len fin), write_var i,
      (if off \<noteq> 0 then write_var off else Some []), (if len then write_var n else Some [])] = Some hdr"
    using assms unfolding stream_meta_encode_def stream_ty_def Let_def
    by (simp cong: if_cong split del: if_split del: wcat.simps)
  show "is_varint i" and "off \<noteq> 0 \<Longrightarrow> is_varint off" and "len \<Longrightarrow> is_varint n"
    and "hdr = var_bytes (stream_ty (off \<noteq> 0) len fin) @ var_bytes i @
      (if off \<noteq> 0 then var_bytes off else []) @ (if len then var_bytes n else [])"
    using enc by (cases "off = 0"; cases len;
        simp add: wcat_var_Cons wcat_Some_Cons wcat_Nil_iff del: wcat.simps)+
qed

lemma stream_meta_decode:
  assumes "stream_meta_encode \<lparr>sm_id = i, sm_offsets = (off, off + length data), sm_fin = fin\<rparr> len = Some hdr"
    and "len \<or> r = []"
  shows "try_next (hdr @ data @ r) =
    Inr (Stream \<lparr>sf_id = i, sf_offset = off, sf_fin = fin, sf_data = data\<rparr>, r)"
proof -
  define ty where "ty = stream_ty (off \<noteq> 0) len fin"
  note flags = stream_ty_flags [of "off \<noteq> 0" len fin, folded ty_def]
  note hdr = stream_meta_encode_Some [OF assms(1), folded ty_def]
  have "is_varint ty" using flags(2) by (simp add: is_varint_iff)
  then have "try_next (hdr @ data @ r) = stream_decode (of_nat ty)
      (var_bytes i @ (if off \<noteq> 0 then var_bytes off else []) @ (if len then var_bytes (length data) else []) @
       data @ r)"
    using frame_body_stream [OF flags(1,2)] by (simp add: hdr(4) try_next_type)
  then show ?thesis
    using hdr(1,2,3) assms(2)
    by (cases "off = 0"; cases len; simp add: stream_decode_def flags take_len_read take_remaining_def)
qed

lemma connection_close_decode:
  assumes "connection_close_encode x max_len = Some bs" and "cc_frame_type x \<noteq> Some 0"
    and "connection_close_len x max_len = Some n"
  shows "try_next (bs @ r) = Inr (Close (Connection (x\<lparr>cc_reason := take n (cc_reason x)\<rparr>)), r)"
proof -
  let ?ty = "case cc_frame_type x of None \<Rightarrow> 0 | Some t \<Rightarrow> t"
  have n: "length (take n (cc_reason x)) = n"
    using assms(3) by (auto simp: connection_close_len_def split: option.splits)
  have *: "is_varint (cc_error_code x)" "is_varint ?ty" "is_varint n"
    "bs = var_bytes CONNECTION_CLOSE @ var_bytes (cc_error_code x) @ var_bytes ?ty @ var_bytes n @
      take n (cc_reason x)"
    using assms(1,3) by (auto simp: connection_close_encode_def wcat_var_Cons wcat_Some_Cons wcat_Nil_iff
        simp del: wcat.simps)
  have "take_len (var_bytes n @ take n (cc_reason x) @ r) = Inr (take n (cc_reason x), r)"
    using take_len_read [of "take n (cc_reason x)"] *(3) by (simp only: n)
  moreover have "(if ?ty = 0 then None else Some ?ty) = cc_frame_type x"
    using assms(2) by (auto split: option.splits)
  ultimately show ?thesis using * by (simp add: try_next_type frame_body_simps)
qed

lemma application_close_decode:
  assumes "application_close_encode x max_len = Some bs" and "application_close_len x max_len = Some n"
  shows "try_next (bs @ r) = Inr (Close (Application (x\<lparr>ac_reason := take n (ac_reason x)\<rparr>)), r)"
proof -
  have n: "length (take n (ac_reason x)) = n"
    using assms(2) by (auto simp: application_close_len_def)
  have *: "is_varint (ac_error_code x)" "is_varint n"
    "bs = var_bytes APPLICATION_CLOSE @ var_bytes (ac_error_code x) @ var_bytes n @ take n (ac_reason x)"
    using assms by (auto simp: application_close_encode_def wcat_var_Cons wcat_Some_Cons wcat_Nil_iff
        simp del: wcat.simps)
  have "take_len (var_bytes n @ take n (ac_reason x) @ r) = Inr (take n (ac_reason x), r)"
    using take_len_read [of "take n (ac_reason x)"] *(2) by (simp only: n)
  then show ?thesis using * by (simp add: try_next_type frame_body_simps)
qed

lemma new_connection_id_decode_encoded:
  assumes "new_connection_id_encode x = Some bs" and "0 < length (nci_id x)"
    and "length (nci_id x) \<le> MAX_CID_SIZE" and "length (nci_reset_token x) = RESET_TOKEN_SIZE"
    and "nci_retire_prior_to x \<le> nci_sequence x"
  shows "try_next (bs @ r) = Inr (NewConnectionId x, r)"
proof -
  have len: "unat (of_nat (length (nci_id x)) :: u8) = length (nci_id x)"
    using assms(3) by (simp add: unat_of_nat MAX_CID_SIZE_def)
  have *: "is_varint (nci_sequence x)" "is_varint (nci_retire_prior_to x)"
    "bs = var_bytes NEW_CONNECTION_ID @ var_bytes (nci_sequence x) @ var_bytes (nci_retire_prior_to x) @
      of_nat (length (nci_id x)) # nci_id x @ nci_reset_token x"
    using assms(1)
    by (auto simp: new_connection_id_encode_def u8_encode_def wcat_var_Cons wcat_Some_Cons wcat_Nil_iff
        simp del: wcat.simps)
  show ?thesis
    using *(1,2) assms(2-5) len
    by (simp add: *(3) try_next_type frame_body_simps new_connection_id_decode_def u8_decode_def Let_def)
qed

lemma datagram_decode:
  assumes "datagram_encode data len = Some bs" and "len \<or> r = []"
  shows "try_next (bs @ r) = Inr (Datagram data, r)"
proof -
  have "is_varint (DATAGRAM_TYS_start OR (if len then 1 else 0))"
    "frame_body (DATAGRAM_TYS_start OR (if len then 1 else 0)) =
      pbind (if len then take_len else take_remaining) (\<lambda>data. preturn (Datagram data))"
    by (cases len; simp add: frame_types is_varint_iff frame_body_def ft_stream_def ft_datagram_def di_len_def)+
  with assms show ?thesis
    by (cases len; auto simp: datagram_encode_def wcat_var_Cons wcat_Some_Cons wcat_Nil_iff try_next_type
        take_len_read take_remaining_def simp del: wcat.simps)
qed

lemma path_decode:
  "wcat [write_var PATH_CHALLENGE, u64_encode n] = Some bs \<Longrightarrow> fits 8 n \<Longrightarrow>
     try_next (bs @ r) = Inr (PathChallenge n, r)"
  "wcat [write_var PATH_RESPONSE, u64_encode n] = Some bs \<Longrightarrow> fits 8 n \<Longrightarrow>
     try_next (bs @ r) = Inr (PathResponse n, r)"
proof -
  obtain b where b: "fits 8 n \<Longrightarrow> u64_encode n = Some b"
    "fits 8 n \<Longrightarrow> ptry UnexpectedEnd u64_decode (b @ r) = Inr (n, r)"
    using u64_codec.encode_total [of n] u64_codec.decode_encode [of n] by (cases "fits 8 n") auto
  then show "wcat [write_var PATH_CHALLENGE, u64_encode n] = Some bs \<Longrightarrow> fits 8 n \<Longrightarrow>
      try_next (bs @ r) = Inr (PathChallenge n, r)"
    and "wcat [write_var PATH_RESPONSE, u64_encode n] = Some bs \<Longrightarrow> fits 8 n \<Longrightarrow>
      try_next (bs @ r) = Inr (PathResponse n, r)"
    by (auto simp: write_var_bytes try_next_type frame_body_simps)
qed

lemma frame_bytes_decode:
  assumes "frame_bytes f bs"
  shows "try_next (bs @ r) = Inr (f, r)"
  using assms
proof cases
  case (ack delay ranges ecn)
  then show ?thesis using ack_decode_encoded by fastforce
next
  case (stream x hdr)
  then show ?thesis using stream_meta_decode [OF stream(2)] by simp
next
  case (max_streams d n)
  then show ?thesis
    by (cases d; auto simp: encoders try_next_type frame_body_simps simp del: wcat.simps)
next
  case (streams_blocked d n)
  then show ?thesis
    by (cases d; auto simp: encoders try_next_type frame_body_simps simp del: wcat.simps)
qed (auto simp: encoders try_next_type frame_body_simps take_len_read connection_close_decode
    application_close_decode new_connection_id_decode_encoded datagram_decode path_decode
    simp del: wcat.simps)

section \<open>Iterating a payload\<close>

text \<open>No parser of this file reads past the end or gives bytes back.\<close>

lemma shrinks_take_len [intro!]: "shrinks take_len"
  unfolding take_len_def by auto

lemma shrinks_take_remaining [intro!]: "shrinks take_remaining"
  by (simp add: shrinks_def take_remaining_def)

lemma shrinks_scan:
  assumes "\<And>k bs. shrinks (p k bs)"
  shows "shrinks (\<lambda>bs. case scan_ack_blocks bs l n of Inl e \<Rightarrow> Inl e | Inr k \<Rightarrow> p k bs (drop k bs))"
  using assms unfolding shrinks_def by (fastforce split: sum.splits)

lemma shrinks_ack_decode [intro!]: "shrinks (ack_decode ty)"
  unfolding ack_decode_def
  by (intro shrinks_pbind shrinks_var
      shrinks_scan [where p = "\<lambda>k bs. pbind (q :: (iter_err, ecn_counts option) parser) (g k bs)" for q g])
    auto

lemmas shrinks_intros = shrinks_if shrinks_case_option shrinks_pbind shrinks_preturn shrinks_pfail shrinks_var
  shrinks_take_bytes shrinks_u8 shrinks_u64 shrinks_take_len shrinks_take_remaining shrinks_ack_decode

lemma shrinks_frame_body: "shrinks (frame_body ty)"
  unfolding frame_body_def new_connection_id_decode_def stream_decode_def Let_def
  by (intro shrinks_intros)

lemma try_next_shorter: "try_next bs = Inr (f, rest) \<Longrightarrow> length rest < length bs"
  unfolding try_next_def using shrinks_frame_body var_codec.decode_shorter
  by (fastforce elim!: pbind_InrE ptry_InrE simp: shrinks_def)

lemma frame_iter_next_shorter:
  "frame_iter_next it = (Some x, it') \<Longrightarrow> length (fi_bytes it') < length (fi_bytes it)"
  by (auto simp: frame_iter_next_def Let_def dest: try_next_shorter split: if_splits sum.splits)

text \<open>The items a \<open>for\<close> loop over the iterator sees.\<close>

function frame_iter_collect :: "frame_iter \<Rightarrow> (invalid_frame + frame) list" where
  "frame_iter_collect it = (case frame_iter_next it of
     (None, _) \<Rightarrow> [] | (Some x, it') \<Rightarrow> x # frame_iter_collect it')"
  by pat_completeness auto
termination
  by (relation "measure (length \<circ> fi_bytes)") (auto dest: frame_iter_next_shorter [OF sym])

declare frame_iter_collect.simps [simp del]

lemma frame_iter_collect_Nil [simp]: "frame_iter_collect \<lparr>fi_bytes = [], fi_last_ty = t\<rparr> = []"
  by (subst frame_iter_collect.simps) (simp add: frame_iter_next_def)

lemma frame_iter_collect_step:
  assumes "try_next bs = Inr (f, rest)"
  shows "\<exists>t'. frame_iter_collect \<lparr>fi_bytes = bs, fi_last_ty = t\<rparr> =
    Inr f # frame_iter_collect \<lparr>fi_bytes = rest, fi_last_ty = t'\<rparr>"
proof -
  have "bs \<noteq> []" using try_next_shorter [OF assms] by auto
  then show ?thesis
    using assms by (subst frame_iter_collect.simps) (auto simp: frame_iter_next_def Let_def)
qed

text \<open>A frame without its length, which the packet must end with.\<close>

inductive last_frame_bytes :: "frame \<Rightarrow> bytes \<Rightarrow> bool" where
  last_stream: "stream_meta_encode \<lparr>sm_id = sf_id x, sm_offsets = (sf_offset x, sf_offset x + length (sf_data x)),
      sm_fin = sf_fin x\<rparr> False = Some hdr \<Longrightarrow> bs = hdr @ sf_data x \<Longrightarrow> last_frame_bytes (Stream x) bs"
| last_datagram: "datagram_encode data False = Some bs \<Longrightarrow> last_frame_bytes (Datagram data) bs"
| last_any: "frame_bytes f bs \<Longrightarrow> last_frame_bytes f bs"

lemma last_frame_bytes_decode:
  assumes "last_frame_bytes f bs"
  shows "try_next bs = Inr (f, [])"
  using assms
proof cases
  case (last_stream x hdr)
  then show ?thesis using stream_meta_decode [OF last_stream(2), of "[]"] by simp
next
  case (last_datagram data)
  then show ?thesis using datagram_decode [OF last_datagram(2), of "[]"] by simp
next
  case last_any
  then show ?thesis using frame_bytes_decode [of f bs "[]"] by simp
qed

text \<open>C25: a payload made of the frames the engine writes, one after another, is parsed back into exactly
  those frames, including an ACK, a stream frame at any offset, or a close whose reason was cut, and a
  last frame that leaves its length out.\<close>

theorem payload_round_trip:
  assumes "list_all2 frame_bytes fs bss" and "last_frame_bytes f bs"
  shows "\<exists>it. frame_iter_new (concat bss @ bs) = Inr it \<and> frame_iter_collect it = map Inr (fs @ [f])"
proof -
  have last: "frame_iter_collect \<lparr>fi_bytes = bs, fi_last_ty = t\<rparr> = [Inr f]" for t
    using frame_iter_collect_step [OF last_frame_bytes_decode [OF assms(2)], of t] by auto
  have "frame_iter_collect \<lparr>fi_bytes = concat bss @ bs, fi_last_ty = t\<rparr> = map Inr (fs @ [f])" for t
    using assms(1)
  proof (induction arbitrary: t rule: list_all2_induct)
    case (Cons g gs b bs')
    then show ?case
      using frame_iter_collect_step [OF frame_bytes_decode [OF Cons(1), of "concat bs' @ bs"], of t] by auto
  qed (simp add: last)
  moreover have "concat bss @ bs \<noteq> []"
    using try_next_shorter [OF last_frame_bytes_decode [OF assms(2)]] by auto
  ultimately show ?thesis by (auto simp: frame_iter_new_def)
qed

theorem payload_round_trip_witness:
  "\<exists>it. frame_iter_new (concat [[1], [16, 9]] @ [8, 4, 77]) = Inr it \<and>
     frame_iter_collect it = map Inr ([Ping, MaxData 9] @
       [Stream \<lparr>sf_id = 4, sf_offset = 0, sf_fin = False, sf_data = [77]\<rparr>])"
proof (rule payload_round_trip)
  show "list_all2 frame_bytes [Ping, MaxData 9] [[1], [16, 9]]"
    by (auto simp: frame_types write_var_small intro!: ping max_data)
  show "last_frame_bytes (Stream \<lparr>sf_id = 4, sf_offset = 0, sf_fin = False, sf_data = [77]\<rparr>) [8, 4, 77]"
    by (rule last_stream [of _ "[8, 4]"]) (simp_all add: stream_meta_encode_def frame_types write_var_small)
qed

text \<open>Iterating a payload always ends, and a frame that cannot be parsed ends it: every item before the
  last is a frame, so nothing behind a malformed frame is ever acted upon.\<close>

theorem malformed_frame_ends_iteration:
  "\<exists>fs es. frame_iter_collect it = map Inr fs @ map Inl es \<and> length es \<le> 1"
proof (induction it rule: frame_iter_collect.induct)
  case (1 it)
  show ?case
  proof (cases "fi_bytes it = []")
    case True
    then show ?thesis by (subst frame_iter_collect.simps) (auto simp: frame_iter_next_def)
  next
    case False
    show ?thesis
    proof (cases "try_next (fi_bytes it)")
      case (Inl e)
      with False obtain x t where "frame_iter_next it = (Some (Inl x), \<lparr>fi_bytes = [], fi_last_ty = t\<rparr>)"
        by (simp add: frame_iter_next_def Let_def)
      then show ?thesis
        by (subst frame_iter_collect.simps) (auto intro!: exI [of _ "[]"] exI [of _ "[x]"])
    next
      case (Inr r)
      with False obtain f it' where nx: "frame_iter_next it = (Some (Inr f), it')"
        by (cases r) (simp add: frame_iter_next_def Let_def)
      then obtain fs es where "frame_iter_collect it' = map Inr fs @ map Inl es" "length es \<le> 1"
        using 1 by (metis old.prod.inject)
      with nx show ?thesis
        by (subst frame_iter_collect.simps) (auto intro!: exI [of _ "f # fs"] exI [of _ es])
    qed
  qed
qed

section \<open>Frame sizes\<close>

lemma frame_sizes:
  "reset_stream_encode r = Some bs \<Longrightarrow> length bs \<le> RESET_STREAM_SIZE_BOUND"
  "stop_sending_encode t = Some bs \<Longrightarrow> length bs \<le> STOP_SENDING_SIZE_BOUND"
  "new_connection_id_encode n = Some bs \<Longrightarrow> length (nci_id n) \<le> MAX_CID_SIZE \<Longrightarrow>
     length (nci_reset_token n) = RESET_TOKEN_SIZE \<Longrightarrow> length bs \<le> NEW_CONNECTION_ID_SIZE_BOUND"
  "stream_meta_encode m len = Some bs \<Longrightarrow> length bs \<le> STREAM_SIZE_BOUND"
  "crypto_encode c = Some bs \<Longrightarrow> length bs \<le> CRYPTO_SIZE_BOUND + length (cf_data c)"
  "new_token_encode token = Some bs \<Longrightarrow> new_token_size token = Some (length bs)"
  "datagram_encode d len = Some bs \<Longrightarrow> datagram_size d len = Some (length bs)"
proof -
  note le = length_var_bytes_le
  have ty: "length (var_bytes x) = 1" if "x < 64" for x using that by simp
  show "reset_stream_encode r = Some bs \<Longrightarrow> length bs \<le> RESET_STREAM_SIZE_BOUND"
    using le [of "rst_id r"] le [of "rst_error_code r"] le [of "rst_final_offset r"]
    by (auto simp: encoders size_bounds ty frame_types simp del: wcat.simps)
  show "stop_sending_encode t = Some bs \<Longrightarrow> length bs \<le> STOP_SENDING_SIZE_BOUND"
    using le [of "ss_id t"] le [of "ss_error_code t"]
    by (auto simp: encoders size_bounds ty frame_types simp del: wcat.simps)
  show "new_connection_id_encode n = Some bs \<Longrightarrow> length (nci_id n) \<le> MAX_CID_SIZE \<Longrightarrow>
      length (nci_reset_token n) = RESET_TOKEN_SIZE \<Longrightarrow> length bs \<le> NEW_CONNECTION_ID_SIZE_BOUND"
    using le [of "nci_sequence n"] le [of "nci_retire_prior_to n"]
    by (auto simp: new_connection_id_encode_def u8_encode_def encoders size_bounds ty frame_types
        simp del: wcat.simps)
  show "crypto_encode c = Some bs \<Longrightarrow> length bs \<le> CRYPTO_SIZE_BOUND + length (cf_data c)"
    using le [of "cf_offset c"] le [of "length (cf_data c)"]
    by (auto simp: encoders size_bounds ty frame_types simp del: wcat.simps)
  show "new_token_encode token = Some bs \<Longrightarrow> new_token_size token = Some (length bs)"
    by (auto simp: encoders new_token_size_def varint_size_bytes ty frame_types simp del: wcat.simps)
  show "datagram_encode d len = Some bs \<Longrightarrow> datagram_size d len = Some (length bs)"
    by (cases len) (auto simp: datagram_encode_def datagram_size_def encoders varint_size_bytes ty frame_types
        simp del: wcat.simps)
  show "stream_meta_encode m len = Some bs \<Longrightarrow> length bs \<le> STREAM_SIZE_BOUND"
  proof -
    assume enc: "stream_meta_encode m len = Some bs"
    let ?s = "fst (sm_offsets m)"
    let ?n = "wrapping_sub (snd (sm_offsets m)) ?s"
    have "wcat [write_var (stream_ty (?s \<noteq> 0) len (sm_fin m)), write_var (sm_id m),
        (if ?s \<noteq> 0 then write_var ?s else Some []), (if len then write_var ?n else Some [])] = Some bs"
      using enc unfolding stream_meta_encode_def stream_ty_def Let_def .
    moreover have "length (var_bytes (stream_ty (?s \<noteq> 0) len (sm_fin m))) = 1"
      using stream_ty_flags(2) [of "?s \<noteq> 0" len "sm_fin m"] by (intro ty) simp
    ultimately show ?thesis
      using le [of "sm_id m"] le [of ?s] le [of ?n]
      by (cases "?s = 0"; cases len;
          auto simp: wcat_var_Cons wcat_Some_Cons wcat_Nil_iff size_bounds simp del: wcat.simps)
  qed
qed

text \<open>The frames that announce a \<open>SIZE_BOUND\<close> fit in it; for stream and crypto frames it bounds what
  precedes the data, and the sizes computed for NEW_TOKEN and DATAGRAM are exact.\<close>

theorem frame_size_bounds:
  "(reset_stream_encode r = Some bs \<longrightarrow> length bs \<le> RESET_STREAM_SIZE_BOUND) \<and>
   (stop_sending_encode t = Some bs \<longrightarrow> length bs \<le> STOP_SENDING_SIZE_BOUND) \<and>
   (new_connection_id_encode n = Some bs \<and> length (nci_id n) \<le> MAX_CID_SIZE \<and>
     length (nci_reset_token n) = RESET_TOKEN_SIZE \<longrightarrow> length bs \<le> NEW_CONNECTION_ID_SIZE_BOUND) \<and>
   (stream_meta_encode m len = Some bs \<longrightarrow> length bs \<le> STREAM_SIZE_BOUND) \<and>
   (crypto_encode c = Some bs \<longrightarrow> length bs \<le> CRYPTO_SIZE_BOUND + length (cf_data c)) \<and>
   (new_token_encode token = Some bs \<longrightarrow> new_token_size token = Some (length bs)) \<and>
   (datagram_encode d len = Some bs \<longrightarrow> datagram_size d len = Some (length bs))"
  using frame_sizes by auto

theorem frame_size_bounds_witness:
  "stop_sending_encode \<lparr>ss_id = 4, ss_error_code = 9\<rparr> = Some [5, 4, 9] \<and>
   length [5 :: u8, 4, 9] \<le> STOP_SENDING_SIZE_BOUND"
proof -
  have enc: "stop_sending_encode \<lparr>ss_id = 4, ss_error_code = 9\<rparr> = Some [5, 4, 9]"
    by (simp add: stop_sending_encode_def frame_types write_var_small)
  then show ?thesis
    using frame_size_bounds [where bs = "[5, 4, 9]" and t = "\<lparr>ss_id = 4, ss_error_code = 9\<rparr>"] by blast
qed

text \<open>A shorter length never takes more bytes.\<close>

lemma length_var_bytes_mono:
  assumes "is_varint y" and "x \<le> y"
  shows "length (var_bytes x) \<le> length (var_bytes y)"
proof -
  have "is_varint x" by (rule is_varint_le [OF assms])
  then have "varint_size x = Some (length (var_bytes x))" "varint_size y = Some (length (var_bytes y))"
    using assms(1) by (simp_all add: varint_size_bytes)
  then show ?thesis using assms(2) by (auto simp: varint_size_def split: if_splits)
qed

lemma varint_size_Some_iff: "varint_size x = Some n \<longleftrightarrow> is_varint x \<and> n = length (var_bytes x)"
  using varint_size_bytes [of x] by (auto simp: varint_size_def is_varint_iff split: if_splits)

text \<open>A close frame keeps within the limit it was given, up to the bytes by which its error code takes
  more than two: with an error code below \<open>2^14\<close> it always fits, however long the reason is.\<close>

theorem close_frame_limit:
  assumes "close_encode x max_len = Some bs" and "19 \<le> max_len"
    and "code = (case x of Connection c \<Rightarrow> cc_error_code c | Application a \<Rightarrow> ac_error_code a)"
  shows "length bs + 2 \<le> max_len + length (var_bytes code)"
proof (cases x)
  case (Connection c)
  let ?ty = "case cc_frame_type c of None \<Rightarrow> 0 | Some t \<Rightarrow> t" and ?l = "length (cc_reason c)"
  obtain n where n: "connection_close_len c max_len = Some n"
    using assms(1) Connection by (auto simp: connection_close_encode_def split: option.splits)
  then have v: "is_varint ?ty" "is_varint ?l"
    and n': "n = min ?l (max_len - 3 - length (var_bytes ?ty) - length (var_bytes ?l))"
    using assms(2) length_var_bytes_le [of ?ty] length_var_bytes_le [of ?l]
    by (auto simp: connection_close_len_def varint_size_Some_iff split: option.splits prod.splits)
  have bs: "bs = var_bytes CONNECTION_CLOSE @ var_bytes (cc_error_code c) @ var_bytes ?ty @ var_bytes n @
      take n (cc_reason c)"
    using assms(1) n Connection
    by (auto simp: connection_close_encode_def wcat_var_Cons wcat_Some_Cons wcat_Nil_iff simp del: wcat.simps)
  have "length (var_bytes n) \<le> length (var_bytes ?l)"
    by (rule length_var_bytes_mono [OF v(2)]) (simp add: n')
  moreover have "length (var_bytes ?ty) + length (var_bytes ?l) + n + 3 \<le> max_len"
    using assms(2) length_var_bytes_le [OF v(1)] length_var_bytes_le [OF v(2)] n' by linarith
  ultimately show ?thesis using assms(3) Connection by (simp add: bs frame_types n')
next
  case (Application a)
  let ?l = "length (ac_reason a)"
  obtain n where n: "application_close_len a max_len = Some n"
    using assms(1) Application by (auto simp: application_close_encode_def split: option.splits)
  then have v: "is_varint ?l" and n': "n = min ?l (max_len - 3 - length (var_bytes ?l))"
    using assms(2) length_var_bytes_le [of ?l]
    by (auto simp: application_close_len_def varint_size_Some_iff)
  have bs: "bs = var_bytes APPLICATION_CLOSE @ var_bytes (ac_error_code a) @ var_bytes n @
      take n (ac_reason a)"
    using assms(1) n Application
    by (auto simp: application_close_encode_def wcat_var_Cons wcat_Some_Cons wcat_Nil_iff simp del: wcat.simps)
  have "length (var_bytes n) \<le> length (var_bytes ?l)"
    by (rule length_var_bytes_mono [OF v]) (simp add: n')
  moreover have "length (var_bytes ?l) + n + 3 \<le> max_len"
    using assms(2) length_var_bytes_le [OF v] n' by linarith
  ultimately show ?thesis using assms(3) Application by (simp add: bs frame_types n')
qed

theorem close_frame_limit_witness:
  "close_encode (Application \<lparr>ac_error_code = 7, ac_reason = [1, 2, 3]\<rparr>) 19 = Some [29, 7, 3, 1, 2, 3] \<and>
   length [29 :: u8, 7, 3, 1, 2, 3] + 2 \<le> 19 + length (var_bytes 7)"
proof -
  have enc: "close_encode (Application \<lparr>ac_error_code = 7, ac_reason = [1, 2, 3]\<rparr>) 19 = Some [29, 7, 3, 1, 2, 3]"
    by (simp add: application_close_encode_def application_close_len_def varint_size_def frame_types
        write_var_small)
  then show ?thesis using close_frame_limit [OF enc] by simp
qed

text \<open>The two bytes are all that the limit reserves for the error code, although any variable-length
  integer may be one: a close with a large application code and a long reason is longer than its limit.\<close>

theorem close_frame_exceeds_limit:
  "\<exists>bs. close_encode (Application \<lparr>ac_error_code = varint_max, ac_reason = replicate 40 0\<rparr>) 20 = Some bs \<and>
    length bs = 26"
proof -
  have v: "is_varint varint_max" by (simp add: is_varint_def)
  have "varint_size varint_max = Some 8" by (simp add: varint_size_def varint_max_def)
  then have "length (var_bytes varint_max) = 8" using varint_size_bytes [OF v] by simp
  then show ?thesis
    by (simp add: application_close_encode_def application_close_len_def varint_size_def frame_types
        write_var_small write_var_bytes [OF v])
qed

end
