(* ===== verification/Stream_Recv.thy ===== *)
theory Stream_Recv
  imports Assembler Frame
begin

text \<open>
  \<open>quic-proto/src/connection/streams/recv.rs\<close>: the receiving half of a stream. Flow control and the final size
  are checked before data reaches the assembler. Errors are \<open>Inl\<close>.
\<close>

section \<open>A receive stream\<close>

datatype recv_state = Recv "nat option" | ResetRecvd nat nat

record recv =
  rv_state :: recv_state
  rv_assembler :: assembler
  rv_sent_max_stream_data :: nat
  rv_end :: nat
  rv_stopped :: bool

definition recv_new :: "nat \<Rightarrow> recv" where
  "recv_new initial_max_data = \<lparr>rv_state = Recv None, rv_assembler = assembler_new,
     rv_sent_max_stream_data = initial_max_data, rv_end = 0, rv_stopped = False\<rparr>"

definition recv_reinit :: "nat \<Rightarrow> recv \<Rightarrow> recv" where
  "recv_reinit initial_max_data r = r\<lparr>rv_state := Recv None, rv_assembler := assembler_reinit (rv_assembler r),
     rv_sent_max_stream_data := initial_max_data, rv_end := 0, rv_stopped := False\<rparr>"

fun final_offset :: "recv_state \<Rightarrow> nat option" where
  "final_offset (Recv sz) = sz"
| "final_offset (ResetRecvd sz _) = Some sz"

definition final_offset_unknown :: "recv \<Rightarrow> bool" where
  "final_offset_unknown r \<longleftrightarrow> rv_state r = Recv None"

definition recv_can_send_flow_control :: "recv \<Rightarrow> bool" where
  "recv_can_send_flow_control r \<longleftrightarrow> final_offset_unknown r \<and> \<not> rv_stopped r"

definition is_receiving :: "recv \<Rightarrow> bool" where
  "is_receiving r = (case rv_state r of Recv _ \<Rightarrow> True | ResetRecvd _ _ \<Rightarrow> False)"

definition reset_code :: "recv \<Rightarrow> nat option" where
  "reset_code r = (case rv_state r of ResetRecvd _ error_code \<Rightarrow> Some error_code | Recv _ \<Rightarrow> None)"

definition credit_consumed_by :: "nat \<Rightarrow> nat \<Rightarrow> nat \<Rightarrow> recv \<Rightarrow> transport_error + nat" where
  "credit_consumed_by offset recvd max_data r =
     (let new_bytes = saturating_sub offset (rv_end r) in
      if rv_sent_max_stream_data r < offset \<or> max_data < wrapping_add recvd new_bytes then
        Inl (te_new FLOW_CONTROL_ERROR '''')
      else Inr new_bytes)"

definition recv_ingest ::
    "stream_frame \<Rightarrow> nat \<Rightarrow> nat \<Rightarrow> nat \<Rightarrow> recv \<Rightarrow> transport_error + ((nat \<times> bool) \<times> recv)" where
  "recv_ingest frame payload_len recvd max_data r =
     (let end' = sf_offset frame + length (sf_data frame) in
      if 2 ^ 62 \<le> end' then Inl (te_new FLOW_CONTROL_ERROR ''maximum stream offset too large'')
      else if (case final_offset (rv_state r) of None \<Rightarrow> False
               | Some final \<Rightarrow> final < end' \<or> sf_fin frame \<and> end' \<noteq> final) then
        Inl (te_new FINAL_SIZE_ERROR '''')
      else
        case credit_consumed_by end' recvd max_data r of
          Inl e \<Rightarrow> Inl e
        | Inr new_bytes \<Rightarrow>
            let state = (if sf_fin frame \<and> \<not> rv_stopped r then
                  (case rv_state r of Recv sz \<Rightarrow> Recv (Some end') | s \<Rightarrow> s) else rv_state r);
                asm = (if rv_stopped r then rv_assembler r
                  else assembler_insert (sf_offset frame) (sf_data frame) payload_len (rv_assembler r)) in
            Inr ((new_bytes, sf_fin frame \<and> rv_stopped r),
              r\<lparr>rv_state := state, rv_assembler := asm, rv_end := max (rv_end r) end'\<rparr>))"

definition recv_stop :: "recv \<Rightarrow> unit + ((nat \<times> bool) \<times> recv)" where
  "recv_stop r =
     (if rv_stopped r then Inl ()
      else
        let asm = assembler_clear (rv_assembler r);
            r' = r\<lparr>rv_assembler := asm, rv_stopped := True\<rparr>;
            read_credits = wrapping_sub (rv_end r) (asm_bytes_read asm) in
        Inr ((read_credits, is_receiving r'), r'))"

definition recv_max_stream_data :: "nat \<Rightarrow> recv \<Rightarrow> nat \<times> bool" where
  "recv_max_stream_data stream_receive_window r =
     (let max_stream_data = wrapping_add (asm_bytes_read (rv_assembler r)) stream_receive_window;
          diff = wrapping_sub max_stream_data (rv_sent_max_stream_data r) in
      (max_stream_data, recv_can_send_flow_control r \<and> stream_receive_window div 8 \<le> diff))"

definition record_sent_max_stream_data :: "nat \<Rightarrow> recv \<Rightarrow> recv" where
  "record_sent_max_stream_data sent_value r =
     (if rv_sent_max_stream_data r < sent_value then r\<lparr>rv_sent_max_stream_data := sent_value\<rparr> else r)"

definition recv_reset :: "nat \<Rightarrow> nat \<Rightarrow> nat \<Rightarrow> nat \<Rightarrow> recv \<Rightarrow> transport_error + (bool \<times> recv)" where
  "recv_reset error_code final recvd max_data r =
     (case (case final_offset (rv_state r) of
              Some offset \<Rightarrow>
                if offset \<noteq> final then Inl (te_new FINAL_SIZE_ERROR ''inconsistent value'') else Inr ()
            | None \<Rightarrow>
                if final < rv_end r then Inl (te_new FINAL_SIZE_ERROR ''lower than high water mark'') else Inr ()) of
        Inl e \<Rightarrow> Inl e
      | Inr _ \<Rightarrow>
          (case credit_consumed_by final recvd max_data r of
             Inl e \<Rightarrow> Inl e
           | Inr _ \<Rightarrow>
               (case rv_state r of
                  ResetRecvd _ _ \<Rightarrow> Inr (False, r)
                | Recv _ \<Rightarrow>
                    Inr (True, r\<lparr>rv_state := ResetRecvd final error_code,
                      rv_assembler := assembler_clear (rv_assembler r)\<rparr>))))"

text \<open>
  The body of \<open>Chunks::next\<close> on a readable stream, without the release of a stream that is finished or reset.
\<close>

datatype read_outcome = RChunk chunk | RReset nat | RFinished | RBlocked

definition recv_next :: "nat \<Rightarrow> bool \<Rightarrow> recv \<Rightarrow> read_outcome \<times> recv" where
  "recv_next max_length ordered r =
     (case assembler_read max_length ordered (rv_assembler r) of
        (Some x, asm) \<Rightarrow> (RChunk x, r\<lparr>rv_assembler := asm\<rparr>)
      | (None, asm) \<Rightarrow>
          (case rv_state r of
             ResetRecvd _ error_code \<Rightarrow> (RReset error_code, r\<lparr>rv_assembler := asm\<rparr>)
           | Recv sz \<Rightarrow>
               (if sz = Some (rv_end r) \<and> asm_bytes_read asm = rv_end r then RFinished else RBlocked,
                r\<lparr>rv_assembler := asm\<rparr>)))"

section \<open>Flow control\<close>

lemma wrapping_add_small [simp]: "a + b < 2 ^ 64 \<Longrightarrow> wrapping_add a b = a + b"
  by (simp add: wrapping_add_def)

lemma credit_consumed_iff:
  "credit_consumed_by off recvd lim r = Inr n \<longleftrightarrow>
     n = off - rv_end r \<and> off \<le> rv_sent_max_stream_data r \<and> wrapping_add recvd n \<le> lim"
  by (auto simp: credit_consumed_by_def Let_def)

text \<open>When a frame is accepted, and what changes then.\<close>

lemma ingest_Inr_iff:
  "recv_ingest f k recvd lim r = Inr ((n, cl), r') \<longleftrightarrow>
     (let e = sf_offset f + length (sf_data f) in
      e < 2 ^ 62 \<and> (\<forall>final. final_offset (rv_state r) = Some final \<longrightarrow> e \<le> final \<and> (sf_fin f \<longrightarrow> e = final)) \<and>
      credit_consumed_by e recvd lim r = Inr n \<and> cl = (sf_fin f \<and> rv_stopped r) \<and>
      r' = r\<lparr>rv_state := (if sf_fin f \<and> \<not> rv_stopped r then
               (case rv_state r of Recv sz \<Rightarrow> Recv (Some e) | s \<Rightarrow> s) else rv_state r),
             rv_assembler := (if rv_stopped r then rv_assembler r
               else assembler_insert (sf_offset f) (sf_data f) k (rv_assembler r)),
             rv_end := max (rv_end r) e\<rparr>)"
  by (auto simp: recv_ingest_def Let_def split: option.splits sum.splits if_splits)

section \<open>Receiving a whole stream\<close>

text \<open>
  A peer that sends the stream \<open>S\<close> of \<open>N\<close> bytes: its frames lie within the stream and a final frame ends at
  \<open>N\<close>. They arrive in any order and may be repeated, while the application reads in between. The connection
  has no other stream, so what was received on it is the end of this one.
\<close>

datatype recv_op = RFrame nat nat bool nat | RRead nat

fun recv_step :: "(nat \<Rightarrow> u8) \<Rightarrow> nat \<Rightarrow> recv_op \<Rightarrow> bytes \<times> recv \<Rightarrow> transport_error + (bytes \<times> recv)" where
  "recv_step S lim (RFrame off n fin k) (out, r) =
     (case recv_ingest \<lparr>sf_id = 0, sf_offset = off, sf_fin = fin, sf_data = slice S off n\<rparr> k (rv_end r) lim r of
        Inl e \<Rightarrow> Inl e
      | Inr (_, r') \<Rightarrow> Inr (out, r'))"
| "recv_step S lim (RRead m) (out, r) =
     (case recv_next m True r of
        (RChunk (_, bs), r') \<Rightarrow> Inr (out @ bs, r')
      | (_, r') \<Rightarrow> Inr (out, r'))"

fun recv_run :: "(nat \<Rightarrow> u8) \<Rightarrow> nat \<Rightarrow> recv_op list \<Rightarrow> bytes \<times> recv \<Rightarrow> transport_error + (bytes \<times> recv)" where
  "recv_run S lim [] s = Inr s"
| "recv_run S lim (op # ops) s = (case recv_step S lim op s of Inl e \<Rightarrow> Inl e | Inr s' \<Rightarrow> recv_run S lim ops s')"

fun asm_op :: "recv_op \<Rightarrow> asm_op" where
  "asm_op (RFrame off n fin k) = Insert off n k"
| "asm_op (RRead m) = Read m"

definition arrived :: "recv_op list \<Rightarrow> nat set" where
  "arrived ops = received (map asm_op ops)"

fun is_fin :: "recv_op \<Rightarrow> bool" where
  "is_fin (RFrame off n fin k) = fin"
| "is_fin (RRead m) = False"

fun honest :: "nat \<Rightarrow> recv_op \<Rightarrow> bool" where
  "honest N (RFrame off n fin k) \<longleftrightarrow> off + n \<le> N \<and> (fin \<longrightarrow> off + n = N) \<and> n \<le> k"
| "honest N (RRead m) = True"

definition recv_ok :: "(nat \<Rightarrow> u8) \<Rightarrow> nat \<Rightarrow> nat set \<Rightarrow> bool \<Rightarrow> bytes \<times> recv \<Rightarrow> bool" where
  "recv_ok S N R fin s \<longleftrightarrow> stream_ok S R (fst s, rv_assembler (snd s)) \<and>
     asm_end (rv_assembler (snd s)) = rv_end (snd s) \<and> rv_end (snd s) \<le> N \<and>
     rv_state (snd s) = Recv (if fin then Some N else None) \<and> (fin \<longrightarrow> rv_end (snd s) = N) \<and>
     \<not> rv_stopped (snd s) \<and> N \<le> rv_sent_max_stream_data (snd s)"

lemma keep_new_end: "keep_new off bs k dups a = (off', bs', a') \<Longrightarrow> asm_end a' = asm_end a"
  by (induction off bs k dups a arbitrary: off' bs' a' rule: keep_new.induct) (auto simp: Let_def split: if_splits)

lemma insert_buffer_end [simp]: "asm_end (insert_buffer off bs k a) = asm_end a"
  by (simp add: insert_buffer_def Let_def)

lemma assembler_insert_end: "asm_end (assembler_insert off bs k a) = max (asm_end a) (off + length bs)"
  by (auto simp: assembler_insert_def Let_def keep_new_end split: asm_state.splits prod.splits)

lemma read_chunk_end: "read_chunk m c rest a = (x, a') \<Longrightarrow> asm_end a' = asm_end a"
  by (auto simp: read_chunk_def split: if_splits)

lemma read_loop_end: "asm_end (snd (read_loop m ord a)) = asm_end a"
proof (induction m ord a rule: read_loop.induct)
  case (1 m ord a)
  show ?case
    by (subst read_loop.simps) (use 1 in \<open>auto simp: Let_def dest!: read_chunk_end split: list.splits prod.splits\<close>)
qed

lemma assembler_read_end: "asm_end (snd (assembler_read m ord a)) = asm_end a"
  using read_loop_end [of m ord a]
  by (auto simp: assembler_read_def read_slot_def Let_def split: option.splits prod.splits bool.splits if_splits)

lemma recv_next_read:
  assumes "recv_ok S N R fin (out, r)"
  shows "recv_ok S N R fin (case recv_next m True r of (RChunk (off, bs), r') \<Rightarrow> (out @ bs, r') | (_, r') \<Rightarrow> (out, r'))"
    and "out = slice S 0 (length out)" and "length out \<le> rv_end r"
    and "case fst (recv_next m True r) of
        RChunk (off, bs) \<Rightarrow> off = length out \<and> bs = slice S off (length bs) \<and> off \<in> R
      | RReset _ \<Rightarrow> False
      | RFinished \<Rightarrow> fin \<and> length out = N
      | RBlocked \<Rightarrow> length out \<notin> R \<and> (fin \<longrightarrow> length out < N)"
proof -
  let ?a = "rv_assembler r"
  have ok: "stream_ok S R (out, ?a)" and e: "asm_end ?a = rv_end r" "rv_end r \<le> N" "fin \<longrightarrow> rv_end r = N"
    and st: "rv_state r = Recv (if fin then Some N else None)"
    using assms by (simp_all add: recv_ok_def)
  then have inv: "asm_inv S ?a" "asm_state ?a = Ordered" and out: "out = slice S 0 (asm_bytes_read ?a)"
    and R: "cov (bufs ?a) \<inter> {asm_bytes_read ?a..} = R \<inter> {asm_bytes_read ?a..}"
    by (simp_all add: stream_ok_def)
  then have len: "length out = asm_bytes_read ?a" by simp
  then show "out = slice S 0 (length out)" using out by simp
  have in_R: "asm_bytes_read ?a \<in> cov (bufs ?a) \<longleftrightarrow> asm_bytes_read ?a \<in> R" using R by blast
  have br: "asm_bytes_read ?a \<le> asm_end ?a" using inv(1) by (simp add: asm_inv_def asm_core_def)
  then show "length out \<le> rv_end r" using len e(1) by simp
  obtain x a' where r: "assembler_read m True ?a = (x, a')" by (metis prod.exhaust)
  have rd: "ordered_read S m ?a (x, a')" and a': "asm_end a' = asm_end ?a"
    using assembler_read_ordered(1) [OF inv, of m] assembler_read_end [of m True ?a] r by simp_all
  have "stream_ok S (R \<union> received [Read m]) (asm_step S (Read m) (out, ?a))"
    by (rule stream_ok_step [OF ok]) (simp add: frame_sized_def)
  then have step: "stream_ok S R (asm_step S (Read m) (out, ?a))" by (simp add: received_def)
  show "recv_ok S N R fin (case recv_next m True r of (RChunk (off, bs), r') \<Rightarrow> (out @ bs, r') | (_, r') \<Rightarrow> (out, r'))"
    using assms step r a' st by (cases x) (auto simp: recv_ok_def recv_next_def)
  show "case fst (recv_next m True r) of
        RChunk (off, bs) \<Rightarrow> off = length out \<and> bs = slice S off (length bs) \<and> off \<in> R
      | RReset _ \<Rightarrow> False
      | RFinished \<Rightarrow> fin \<and> length out = N
      | RBlocked \<Rightarrow> length out \<notin> R \<and> (fin \<longrightarrow> length out < N)"
  proof (cases x)
    case None
    then have "asm_bytes_read ?a \<notin> R" "asm_bytes_read a' = asm_bytes_read ?a"
      using rd in_R by (simp_all add: ordered_read_def)
    then show ?thesis using None r st len br e by (auto simp: recv_next_def split: if_splits)
  next
    case (Some y)
    obtain off bs where y: "y = (off, bs)" by (cases y)
    have "off = asm_bytes_read ?a" "asm_bytes_read ?a \<in> cov (bufs ?a)" "slice S off (length bs) = bs"
      using rd unfolding ordered_read_def Some y prod.case option.case by blast+
    then show ?thesis using Some y r len in_R by (simp add: recv_next_def)
  qed
qed

lemma recv_ok_frame:
  assumes ok: "recv_ok S N R fin (out, r)" and N: "N < 2 ^ 62" "N \<le> lim" and h: "off + n \<le> N" "f \<longrightarrow> off + n = N" "n \<le> k"
  shows "\<exists>r'. recv_step S lim (RFrame off n f k) (out, r) = Inr (out, r') \<and>
    recv_ok S N (R \<union> {off..<off + n}) (fin \<or> f) (out, r')"
proof -
  let ?fr = "\<lparr>sf_id = 0, sf_offset = off, sf_fin = f, sf_data = slice S off n\<rparr>"
  have r: "stream_ok S R (out, rv_assembler r)" "asm_end (rv_assembler r) = rv_end r" "rv_end r \<le> N"
    "rv_state r = Recv (if fin then Some N else None)" "fin \<longrightarrow> rv_end r = N" "\<not> rv_stopped r"
    "N \<le> rv_sent_max_stream_data r"
    using ok by (simp_all add: recv_ok_def)
  have "credit_consumed_by (off + n) (rv_end r) lim r = Inr (off + n - rv_end r)"
    unfolding credit_consumed_iff using r(3,7) h N by auto
  then obtain r' where ing: "recv_ingest ?fr k (rv_end r) lim r = Inr ((off + n - rv_end r, False), r')"
    and r': "r' = r\<lparr>rv_state := (if f then Recv (Some (off + n)) else rv_state r),
        rv_assembler := assembler_insert off (slice S off n) k (rv_assembler r), rv_end := max (rv_end r) (off + n)\<rparr>"
    using ingest_Inr_iff [of ?fr k "rv_end r" lim r "off + n - rv_end r" False] r h N
    by (auto simp: Let_def split: if_splits)
  have "stream_ok S (R \<union> received [Insert off n k]) (asm_step S (Insert off n k) (out, rv_assembler r))"
    by (rule stream_ok_step [OF r(1)]) (simp add: frame_sized_def h)
  then have "stream_ok S (R \<union> {off..<off + n}) (out, rv_assembler r')" by (simp add: received_def r')
  then have "recv_ok S N (R \<union> {off..<off + n}) (fin \<or> f) (out, r')"
    using r h by (auto simp: recv_ok_def r' assembler_insert_end)
  then show ?thesis using ing by simp
qed

lemma recv_ok_run:
  "recv_ok S N R fin s \<Longrightarrow> N < 2 ^ 62 \<Longrightarrow> N \<le> lim \<Longrightarrow> \<forall>op \<in> set ops. honest N op \<Longrightarrow>
    \<exists>s'. recv_run S lim ops s = Inr s' \<and> recv_ok S N (R \<union> arrived ops) (fin \<or> (\<exists>op \<in> set ops. is_fin op)) s'"
proof (induction ops arbitrary: s R fin)
  case Nil
  then show ?case by (simp add: arrived_def received_def)
next
  case (Cons op ops)
  obtain out r where s: "s = (out, r)" by (cases s)
  have "\<exists>s'. recv_step S lim op s = Inr s' \<and> recv_ok S N (R \<union> arrived [op]) (fin \<or> is_fin op) s'"
  proof (cases op)
    case (RFrame off n f k)
    then show ?thesis using recv_ok_frame [of S N R fin out r lim off n f k] Cons.prems s
      by (auto simp: arrived_def received_def)
  next
    case (RRead m)
    obtain x r' where "recv_next m True r = (x, r')" by (metis prod.exhaust)
    then show ?thesis using recv_next_read(1) [of S N R fin out r m] Cons.prems(1) s RRead
      by (auto simp: arrived_def received_def split: read_outcome.splits)
  qed
  then obtain s' where s': "recv_step S lim op s = Inr s'" "recv_ok S N (R \<union> arrived [op]) (fin \<or> is_fin op) s'" by blast
  moreover have "arrived (op # ops) = arrived [op] \<union> arrived ops" by (simp add: arrived_def received_def)
  ultimately show ?case using Cons.IH [OF s'(2)] Cons.prems by (simp add: Un_assoc disj_assoc)
qed

text \<open>
  C10: A stream of \<open>N\<close> bytes that fits the flow control windows is received without error, whatever the order,
  overlap and repetition of its frames. What the application has read is a prefix of the stream; the end of
  the stream is reported only when all of it was read and the final frame has come, and a read blocks only
  while the next byte or the final frame is missing.
\<close>

theorem receive_stream_complete:
  assumes "N < 2 ^ 62" "N \<le> window" "N \<le> lim" "\<forall>op \<in> set ops. honest N op"
  shows "\<exists>out r. recv_run S lim ops ([], recv_new window) = Inr (out, r) \<and> out = slice S 0 (length out) \<and>
    (case fst (recv_next m True r) of
       RChunk (off, bs) \<Rightarrow> off = length out \<and> bs = slice S off (length bs)
     | RReset _ \<Rightarrow> False
     | RFinished \<Rightarrow> length out = N \<and> (\<exists>op \<in> set ops. is_fin op)
     | RBlocked \<Rightarrow> length out \<notin> arrived ops \<and> ((\<exists>op \<in> set ops. is_fin op) \<longrightarrow> length out < N))"
proof -
  have "stream_ok S {} ([], assembler_new)"
    using asm_inv_new [of S] by (simp add: stream_ok_def) (simp add: assembler_new_def bufs_def)
  then have "recv_ok S N {} False ([], recv_new window)"
    using assms(2) by (simp add: recv_ok_def recv_new_def) (simp add: assembler_new_def)
  from recv_ok_run [OF this assms(1,3,4)] obtain out r where
    run: "recv_run S lim ops ([], recv_new window) = Inr (out, r)" and
    ok: "recv_ok S N (arrived ops) (\<exists>op \<in> set ops. is_fin op) (out, r)"
    by auto
  then show ?thesis
    using recv_next_read(2) [OF ok] recv_next_read(4) [OF ok, of m] by (auto split: read_outcome.splits)
qed

theorem receive_stream_complete_witness:
  "\<exists>out r. recv_run of_nat 100 [RFrame 2 3 True 3, RRead 9, RFrame 0 4 False 4, RRead 9] ([], recv_new 64) = Inr (out, r) \<and>
     out = slice of_nat 0 (length out)"
  using receive_stream_complete [of 5 64 100 "[RFrame 2 3 True 3, RRead 9, RFrame 0 4 False 4, RRead 9]" of_nat 9]
  by auto

section \<open>A final size below the data already received\<close>

text \<open>
  A final frame that ends below data already received is accepted, although its final size contradicts that
  data and \<open>reset\<close> refuses the same final size. The size recorded stays below the end of the received data, so
  the stream never comes to its end for the application: the peer's violation goes unnoticed and reads block.
\<close>

theorem early_fin_accepted:
  assumes "rv_state r = Recv None" "\<not> rv_stopped r" "sf_fin f" "sf_offset f + length (sf_data f) < rv_end r"
    "rv_end r < 2 ^ 62" "rv_end r \<le> rv_sent_max_stream_data r" "recvd \<le> lim" "lim < 2 ^ 64"
  shows "(\<exists>r'. recv_ingest f k recvd lim r = Inr ((0, False), r') \<and> fst (recv_next m ord r') \<noteq> RFinished \<and>
      final_offset (rv_state r') = Some (sf_offset f + length (sf_data f)) \<and> rv_end r' = rv_end r) \<and>
    (\<exists>e. recv_reset code (sf_offset f + length (sf_data f)) recvd lim r = Inl e \<and> te_code e = FINAL_SIZE_ERROR)"
proof -
  let ?e = "sf_offset f + length (sf_data f)"
  let ?r = "r\<lparr>rv_state := Recv (Some ?e),
    rv_assembler := assembler_insert (sf_offset f) (sf_data f) k (rv_assembler r), rv_end := max (rv_end r) ?e\<rparr>"
  have "credit_consumed_by ?e recvd lim r = Inr 0" unfolding credit_consumed_iff using assms by simp
  then have "recv_ingest f k recvd lim r = Inr ((0, False), ?r)"
    unfolding ingest_Inr_iff Let_def using assms(1-5) by simp
  moreover have "fst (recv_next m ord ?r) \<noteq> RFinished"
    using assms(4) by (auto simp: recv_next_def split: option.splits prod.splits)
  moreover have "rv_end ?r = rv_end r" using assms(4) by simp
  moreover have "\<exists>e. recv_reset code ?e recvd lim r = Inl e \<and> te_code e = FINAL_SIZE_ERROR"
    using assms(1,4) by (simp add: recv_reset_def te_new_def)
  ultimately show ?thesis by auto
qed

theorem early_fin_accepted_witness:
  "\<exists>r'. recv_ingest \<lparr>sf_id = 0, sf_offset = 2, sf_fin = True, sf_data = [7]\<rparr> 1 10 100
      ((recv_new 64)\<lparr>rv_end := 10\<rparr>) = Inr ((0, False), r') \<and> fst (recv_next 5 True r') \<noteq> RFinished \<and>
      final_offset (rv_state r') = Some 3 \<and> rv_end r' = 10"
  using early_fin_accepted [of "(recv_new 64)\<lparr>rv_end := 10\<rparr>"
      "\<lparr>sf_id = 0, sf_offset = 2, sf_fin = True, sf_data = [7]\<rparr>" 10 100 1 5 True 0]
  by (simp add: recv_new_def)

end
