(* ===== verification/Send_Buffer.thy ===== *)
theory Send_Buffer
  imports Btree_Range_Set Var_Int
begin

text \<open>
  \<open>quic-proto/src/connection/send_buffer.rs\<close>: the outgoing data of a stream. It keeps what has not been
  acknowledged, hands out ranges to transmit, takes ranges back that were lost and forgets a prefix once
  it is acknowledged. Stream offsets stay below \<open>2^62\<close>; the subtractions of \<open>usize\<close> counters wrap.
  \<open>None\<close> is a panic.
\<close>

section \<open>The buffer\<close>

record send_buffer =
  sb_unacked_segments :: "bytes list"
  sb_unacked_len :: nat
  sb_offset :: nat
  sb_unsent :: nat
  sb_acks :: "urange list"
  sb_retransmits :: "urange list"

definition send_buffer_new :: send_buffer where
  "send_buffer_new = \<lparr>sb_unacked_segments = [], sb_unacked_len = 0, sb_offset = 0, sb_unsent = 0,
     sb_acks = [], sb_retransmits = []\<rparr>"

definition sb_write :: "bytes \<Rightarrow> send_buffer \<Rightarrow> send_buffer" where
  "sb_write data b = b\<lparr>sb_unacked_len := sb_unacked_len b + length data, sb_offset := sb_offset b + length data,
     sb_unacked_segments := sb_unacked_segments b @ [data]\<rparr>"

definition sb_base :: "send_buffer \<Rightarrow> nat" where
  "sb_base b = wrapping_sub (sb_offset b) (sb_unacked_len b)"

text \<open>The inner loop of \<open>ack\<close>: drop \<open>n\<close> bytes from the front of the segments.\<close>

fun advance_segments :: "nat \<Rightarrow> bytes list \<Rightarrow> bytes list option" where
  "advance_segments 0 segs = Some segs"
| "advance_segments (Suc n) [] = None"
| "advance_segments (Suc n) (front # segs) =
     (if length front \<le> Suc n then advance_segments (Suc n - length front) segs
      else Some (drop (Suc n) front # segs))"

function ack_loop :: "send_buffer \<Rightarrow> send_buffer option" where
  "ack_loop b = (if rs_min (sb_acks b) = Some (sb_base b) then
     (case rs_pop_min (sb_acks b) of
        (Some (s, e), acks) \<Rightarrow>
          let to_advance = e - s in
          (case advance_segments to_advance (sb_unacked_segments b) of
             None \<Rightarrow> None
           | Some segs \<Rightarrow>
               ack_loop (b\<lparr>sb_acks := acks, sb_unacked_len := wrapping_sub (sb_unacked_len b) to_advance,
                 sb_unacked_segments := segs\<rparr>))
      | (None, _) \<Rightarrow> None)
     else Some b)"
  by pat_completeness auto
termination
proof (relation "measure (\<lambda>b. length (sb_acks b))")
  fix b x acks y s e t segs
  assume "(x, acks) = rs_pop_min (sb_acks b)" "x = Some y" "(s, e) = y"
  then show "(b\<lparr>sb_acks := acks, sb_unacked_len := wrapping_sub (sb_unacked_len b) t,
      sb_unacked_segments := segs\<rparr>, b) \<in> measure (\<lambda>b. length (sb_acks b))"
    by (auto simp: rs_pop_min_def rs_peek_min_def bt_remove_def split: list.splits option.splits
        intro: le_imp_less_Suc)
qed auto

declare ack_loop.simps [simp del]

definition sb_ack :: "urange \<Rightarrow> send_buffer \<Rightarrow> send_buffer option" where
  "sb_ack r b =
     (let base_offset = sb_base b;
          r' = (max base_offset (fst r), max base_offset (snd r)) in
      ack_loop (b\<lparr>sb_acks := fst (rs_insert r' (sb_acks b))\<rparr>))"

text \<open>
  The end of a transmitted range that starts at \<open>start\<close>, of which \<open>avail_end\<close> bounds the data, and whether the
  frame has to carry its length.
\<close>

definition fit_range :: "nat \<Rightarrow> nat \<Rightarrow> nat \<Rightarrow> (nat \<times> bool) option" where
  "fit_range start avail_end max_len0 =
     (case (if start \<noteq> 0 then varint_size start else Some 0) of
        None \<Rightarrow> None
      | Some offset_size \<Rightarrow>
          let max_len1 = wrapping_sub max_len0 offset_size;
              encode_length = avail_end - start < max_len1;
              max_len = (if encode_length then wrapping_sub max_len1 8 else max_len1) in
          Some (min avail_end (saturating_add max_len start), encode_length))"

definition sb_poll_transmit :: "nat \<Rightarrow> send_buffer \<Rightarrow> ((urange \<times> bool) \<times> send_buffer) option" where
  "sb_poll_transmit max_len b =
     (case rs_pop_min (sb_retransmits b) of
        (Some (s, e), retransmits) \<Rightarrow>
          (case fit_range s e max_len of
             None \<Rightarrow> None
           | Some (end', encode_length) \<Rightarrow>
               Some (((s, end'), encode_length),
                 b\<lparr>sb_retransmits := (if end' \<noteq> e then fst (rs_insert (end', e) retransmits) else retransmits)\<rparr>))
      | (None, _) \<Rightarrow>
          (case fit_range (sb_unsent b) (sb_offset b) max_len of
             None \<Rightarrow> None
           | Some (end', encode_length) \<Rightarrow>
               Some (((sb_unsent b, end'), encode_length), b\<lparr>sb_unsent := end'\<rparr>)))"

fun get_loop :: "urange \<Rightarrow> nat \<Rightarrow> bytes list \<Rightarrow> bytes option" where
  "get_loop (s, e) segment_offset [] = Some []"
| "get_loop (s, e) segment_offset (seg # segs) =
     (if segment_offset \<le> s \<and> s < segment_offset + length seg then
        let start = s - segment_offset; end' = min (wrapping_sub e segment_offset) (length seg) in
        (if end' < start then None else Some (take (end' - start) (drop start seg)))
      else get_loop (s, e) (segment_offset + length seg) segs)"

definition sb_get :: "urange \<Rightarrow> send_buffer \<Rightarrow> bytes option" where
  "sb_get offsets b = get_loop offsets (sb_base b) (sb_unacked_segments b)"

definition sb_retransmit :: "urange \<Rightarrow> send_buffer \<Rightarrow> send_buffer" where
  "sb_retransmit r b = b\<lparr>sb_retransmits := fst (rs_insert r (sb_retransmits b))\<rparr>"

definition sb_retransmit_all_for_0rtt :: "send_buffer \<Rightarrow> send_buffer" where
  "sb_retransmit_all_for_0rtt b = b\<lparr>sb_unsent := 0\<rparr>"

definition sb_is_fully_acked :: "send_buffer \<Rightarrow> bool" where
  "sb_is_fully_acked b \<longleftrightarrow> sb_unacked_len b = 0"

definition sb_has_unsent_data :: "send_buffer \<Rightarrow> bool" where
  "sb_has_unsent_data b \<longleftrightarrow> sb_unsent b \<noteq> sb_offset b \<or> sb_retransmits b \<noteq> []"

definition sb_unacked :: "send_buffer \<Rightarrow> nat" where
  "sb_unacked b = wrapping_sub (sb_unacked_len b) (sum_list (map (\<lambda>(s, e). e - s) (sb_acks b)))"

text \<open>
  The copying loop of \<open>StreamsState::write_stream_frames\<close>: it repeats \<open>get\<close> until the range is used up, and
  never ends when \<open>get\<close> has nothing to give.
\<close>

partial_function (option) copy_range :: "urange \<Rightarrow> send_buffer \<Rightarrow> bytes option" where
  "copy_range offsets b =
     (if fst offsets = snd offsets then Some []
      else Option.bind (sb_get offsets b) (\<lambda>data.
        Option.bind (copy_range (fst offsets + length data, snd offsets) b) (\<lambda>rest. Some (data @ rest))))"

section \<open>The buffer as a state machine\<close>

text \<open>
  The frames in flight are ranges that were handed out and neither acknowledged nor declared lost yet; the
  connection keeps them with the sent packets. \<open>S\<close> is the stream the application writes.
\<close>

type_synonym flight = "urange list"

inductive sb_step :: "(nat \<Rightarrow> u8) \<Rightarrow> send_buffer \<times> flight \<Rightarrow> send_buffer \<times> flight \<Rightarrow> bool" for S where
  step_write: "sb_offset b + length data < 2 ^ 62 \<Longrightarrow> data = slice S (sb_offset b) (length data) \<Longrightarrow>
    sb_step S (b, F) (sb_write data b, F)"
| step_poll: "16 \<le> max_len \<Longrightarrow> max_len < 2 ^ 62 \<Longrightarrow> sb_poll_transmit max_len b = Some ((r, enc), b') \<Longrightarrow>
    sb_step S (b, F) (b', r # F)"
| step_ack: "sb_ack r b = Some b' \<Longrightarrow> sb_step S (b, F1 @ r # F2) (b', F1 @ F2)"
| step_lost: "sb_step S (b, F1 @ r # F2) (sb_retransmit r b, F1 @ F2)"
| step_0rtt: "sb_offset b = sb_unacked_len b \<Longrightarrow> sb_acks b = [] \<Longrightarrow> sb_retransmits b = [] \<Longrightarrow>
    sb_step S (b, F) (sb_retransmit_all_for_0rtt b, [])"

inductive sb_reachable :: "(nat \<Rightarrow> u8) \<Rightarrow> send_buffer \<times> flight \<Rightarrow> bool" for S where
  reach_new: "sb_reachable S (send_buffer_new, [])"
| reach_step: "sb_reachable S st \<Longrightarrow> sb_step S st st' \<Longrightarrow> sb_reachable S st'"

fun flight_ok :: "flight \<Rightarrow> bool" where
  "flight_ok [] = True"
| "flight_ok ((s, e) # F) \<longleftrightarrow> s \<le> e \<and> {s..<e} \<inter> rs_set F = {} \<and> flight_ok F"

definition rs_size :: "urange list \<Rightarrow> nat" where
  "rs_size rs = sum_list (map (\<lambda>(s, e). e - s) rs)"

definition splits :: "nat set \<Rightarrow> nat set \<Rightarrow> nat set \<Rightarrow> nat set \<Rightarrow> bool" where
  "splits A R F U \<longleftrightarrow> A \<union> R \<union> F = U \<and> A \<inter> R = {} \<and> A \<inter> F = {} \<and> R \<inter> F = {}"

definition sb_tracked :: "(nat \<Rightarrow> u8) \<Rightarrow> send_buffer \<Rightarrow> flight \<Rightarrow> bool" where
  "sb_tracked S b F \<longleftrightarrow>
     sb_unacked_len b \<le> sb_offset b \<and> sb_offset b < 2 ^ 62 \<and>
     concat (sb_unacked_segments b) = slice S (sb_base b) (sb_unacked_len b) \<and>
     sb_base b \<le> sb_unsent b \<and> sb_unsent b \<le> sb_offset b \<and>
     rs_inv (sb_acks b) \<and> rs_inv (sb_retransmits b) \<and> flight_ok F \<and>
     splits (rs_set (sb_acks b)) (rs_set (sb_retransmits b)) (rs_set F) {sb_base b..<sb_unsent b}"

definition sb_inv :: "(nat \<Rightarrow> u8) \<Rightarrow> send_buffer \<Rightarrow> flight \<Rightarrow> bool" where
  "sb_inv S b F \<longleftrightarrow> sb_tracked S b F \<and> sb_base b \<notin> rs_set (sb_acks b)"

lemma splits_ack: "splits A R (F1 \<union> (X \<union> F2)) U \<Longrightarrow> X \<inter> (F1 \<union> F2) = {} \<Longrightarrow> splits (A \<union> X) R (F1 \<union> F2) U"
  by (auto simp: splits_def)

lemma splits_lost: "splits A R (F1 \<union> (X \<union> F2)) U \<Longrightarrow> X \<inter> (F1 \<union> F2) = {} \<Longrightarrow> splits A (R \<union> X) (F1 \<union> F2) U"
  by (auto simp: splits_def)

lemma splits_resend: "splits A (X \<union> R) F U \<Longrightarrow> X \<inter> R = {} \<Longrightarrow> splits A R (X \<union> F) U"
  by (auto simp: splits_def)

lemma splits_send: "splits A R F U \<Longrightarrow> X \<inter> U = {} \<Longrightarrow> splits A R (X \<union> F) (U \<union> X)"
  by (auto simp: splits_def)

lemma splits_drop: "splits (X \<union> A) R F U \<Longrightarrow> X \<inter> A = {} \<Longrightarrow> splits A R F (U - X)"
  by (auto simp: splits_def)

lemma flight_ok_middle:
  "flight_ok (F1 @ (s, e) # F2) \<longleftrightarrow> s \<le> e \<and> {s..<e} \<inter> rs_set (F1 @ F2) = {} \<and> flight_ok (F1 @ F2)"
  by (induction F1) (auto simp: disjoint_iff)

lemma rs_size_Cons [simp]: "rs_size ((s, e) # rs) = e - s + rs_size rs"
  by (simp add: rs_size_def)

lemma rs_size_flight: "flight_ok F \<Longrightarrow> rs_size F = card (rs_set F)"
  by (induction F rule: flight_ok.induct) (simp_all add: rs_size_def card_Un_disjoint)

lemma rs_inv_flight: "rs_inv rs \<Longrightarrow> flight_ok rs"
proof (induction rs rule: flight_ok.induct)
  case (2 s e F)
  then show ?case using rs_set_above [of F e] by fastforce
qed simp

lemma rs_size_card: "rs_inv rs \<Longrightarrow> rs_size rs = card (rs_set rs)"
  by (simp add: rs_inv_flight rs_size_flight)

lemma rs_pop_min_Nil [simp]: "rs_pop_min [] = (None, [])"
  by (simp add: rs_pop_min_def rs_peek_min_def)

lemma rs_pop_min_Cons: "rs_inv ((s, e) # m) \<Longrightarrow> rs_pop_min ((s, e) # m) = (Some (s, e), m)"
  by (auto simp: rs_pop_min_def rs_peek_min_def bt_remove_def filter_id_conv)

section \<open>Reading and dropping data\<close>

lemma advance_segments:
  "n \<le> length (concat segs) \<Longrightarrow> \<exists>segs'. advance_segments n segs = Some segs' \<and> concat segs' = drop n (concat segs)"
proof (induction n segs rule: advance_segments.induct)
  case (3 n front segs)
  then show ?case by (cases "length front \<le> Suc n") simp_all
qed simp_all

lemma get_loop_slice:
  assumes "base \<le> s" "s < e" "e < 2 ^ 63" "s < base + length (concat segs)" "concat segs = slice S base (length (concat segs))"
  shows "\<exists>n. get_loop (s, e) base segs = Some (slice S s n) \<and> 0 < n \<and> s + n \<le> e"
  using assms
proof (induction "(s, e)" base segs rule: get_loop.induct)
  case (2 base seg segs)
  let ?n = "length (concat segs)"
  have "seg = take (length seg) (concat (seg # segs))" "concat segs = drop (length seg) (concat (seg # segs))"
    by simp_all
  then have seg: "slice S base (length seg) = seg" and segs: "concat segs = slice S (base + length seg) ?n"
    using "2.prems"(5) by (metis drop_slice take_slice length_append concat.simps(2) add_diff_cancel_left' min_absorb1 le_add1)+
  show ?case
  proof (cases "s < base + length seg")
    case True
    have "drop (s - base) seg = slice S s (length seg - (s - base))"
      using seg drop_slice [of "s - base" S base "length seg"] "2.prems"(1) by simp
    then show ?thesis
      using True "2.prems"(1,2)
      by (intro exI [of _ "min (e - base) (length seg) - (s - base)"]) (auto simp: Let_def min_def)
  next
    case False
    then show ?thesis using "2.hyps" "2.prems" segs by simp
  qed
qed simp

lemma sb_get_slice:
  assumes "sb_inv S b F" "sb_base b \<le> s" "s < e" "e \<le> sb_offset b"
  shows "\<exists>n. sb_get (s, e) b = Some (slice S s n) \<and> 0 < n \<and> s + n \<le> e"
proof -
  have "sb_base b + sb_unacked_len b = sb_offset b" "length (concat (sb_unacked_segments b)) = sb_unacked_len b"
    using assms(1) by (simp_all add: sb_inv_def sb_tracked_def sb_base_def)
  then show ?thesis
    unfolding sb_get_def using assms by (intro get_loop_slice) (auto simp: sb_inv_def sb_tracked_def)
qed

lemma copy_range_slice:
  assumes "sb_inv S b F" "sb_base b \<le> s" "s \<le> e" "e \<le> sb_offset b"
  shows "copy_range (s, e) b = Some (slice S s (e - s))"
  using assms(2,3)
proof (induction "e - s" arbitrary: s rule: less_induct)
  case less
  show ?case
  proof (cases "s = e")
    case False
    with less.prems obtain n where n: "sb_get (s, e) b = Some (slice S s n)" "0 < n" "s + n \<le> e"
      using sb_get_slice [OF assms(1)] assms(4) by (metis le_neq_implies_less)
    then have "copy_range (s + n, e) b = Some (slice S (s + n) (e - (s + n)))"
      using less.prems by (intro less.hyps) auto
    then show ?thesis
      using False n slice_append [of S s n "e - (s + n)"] by (subst copy_range.simps) simp
  qed (simp add: copy_range.simps)
qed

section \<open>Every operation keeps the invariant\<close>

lemma sb_base_eq: "sb_unacked_len b \<le> sb_offset b \<Longrightarrow> sb_base b = sb_offset b - sb_unacked_len b"
  by (simp add: sb_base_def)

lemma ack_loop_tracked:
  assumes "sb_tracked S b F"
  shows "\<exists>b'. ack_loop b = Some b' \<and> sb_inv S b' F \<and> sb_offset b' = sb_offset b \<and> sb_unsent b' = sb_unsent b \<and>
    sb_retransmits b' = sb_retransmits b"
proof (cases "rs_min (sb_acks b) = Some (sb_base b)")
  case False
  have "sb_base b \<notin> rs_set (sb_acks b)"
  proof (cases "sb_acks b")
    case (Cons r m)
    obtain s e where r: "r = (s, e)" by (cases r)
    have "rs_inv ((s, e) # m)" and
      "splits ({s..<e} \<union> rs_set m) (rs_set (sb_retransmits b)) (rs_set F) {sb_base b..<sb_unsent b}"
      using assms Cons r by (simp_all add: sb_tracked_def)
    moreover from this(2) have "{s..<e} \<subseteq> {sb_base b..<sb_unsent b}" unfolding splits_def by blast
    ultimately have "s < e" "sb_base b \<le> s" by auto
    then have "sb_base b < s" using False Cons r by (simp add: rs_min_def rs_peek_min_def)
    then show ?thesis using rs_Cons_bounds(1) [OF \<open>rs_inv ((s, e) # m)\<close>, of "sb_base b"] Cons r by auto
  qed simp
  then show ?thesis using False assms by (simp add: ack_loop.simps sb_inv_def)
next
  case True
  then obtain e m where acks: "sb_acks b = (sb_base b, e) # m"
    by (cases "sb_acks b") (auto simp: rs_min_def rs_peek_min_def)
  have inv: "rs_inv ((sb_base b, e) # m)" using assms acks by (simp add: sb_tracked_def)
  then have lt: "sb_base b < e" and m: "rs_inv m" and above: "\<forall>x \<in> rs_set m. e < x"
    using rs_set_above [of m e] by auto
  have le: "sb_unacked_len b \<le> sb_offset b" and us: "sb_unsent b \<le> sb_offset b" and
    set: "splits ({sb_base b..<e} \<union> rs_set m) (rs_set (sb_retransmits b)) (rs_set F) {sb_base b..<sb_unsent b}"
    using assms acks by (simp_all add: sb_tracked_def)
  have "{sb_base b..<e} \<subseteq> {sb_base b..<sb_unsent b}" using set unfolding splits_def by blast
  then have e: "e \<le> sb_unsent b" "e \<le> sb_offset b" using us lt by simp_all
  let ?n = "e - sb_base b"
  have n: "?n \<le> sb_unacked_len b" using e(2) le by (simp add: sb_base_eq)
  obtain segs where segs: "advance_segments ?n (sb_unacked_segments b) = Some segs"
    "concat segs = drop ?n (concat (sb_unacked_segments b))"
    using advance_segments [of ?n "sb_unacked_segments b"] n assms by (auto simp: sb_tracked_def)
  let ?b = "b\<lparr>sb_acks := m, sb_unacked_len := wrapping_sub (sb_unacked_len b) ?n, sb_unacked_segments := segs\<rparr>"
  have base: "sb_base ?b = e" using n le lt e(2) by (simp add: sb_base_eq)
  have "{sb_base b..<sb_unsent b} - {sb_base b..<e} = {e..<sb_unsent b}" using lt e(1) by auto
  moreover have "{sb_base b..<e} \<inter> rs_set m = {}" using above by (force simp: disjoint_iff)
  ultimately have "splits (rs_set m) (rs_set (sb_retransmits b)) (rs_set F) {e..<sb_unsent b}"
    using splits_drop [OF set] by simp
  moreover have "drop ?n (slice S (sb_base b) (sb_unacked_len b)) = slice S e (sb_unacked_len b - ?n)"
    using lt by simp
  ultimately have "sb_tracked S ?b F"
    using assms m n e(1) segs(2) base le_trans [OF diff_le_self le] unfolding sb_tracked_def by simp
  moreover have "rs_min m \<noteq> Some e" using inv by (cases m) (auto simp: rs_min_def rs_peek_min_def)
  moreover have "sb_base ?b \<notin> rs_set m" using base above by auto
  ultimately have "ack_loop ?b = Some ?b" "sb_inv S ?b F"
    using base by (simp_all add: ack_loop.simps [of ?b] sb_inv_def)
  moreover have "ack_loop b = ack_loop ?b"
    using True acks segs(1) inv by (subst ack_loop.simps) (simp add: rs_pop_min_Cons Let_def)
  ultimately show ?thesis by simp
qed

lemma sb_ack_inv:
  assumes inv: "sb_inv S b (F1 @ (s, e) # F2)"
  shows "\<exists>b'. sb_ack (s, e) b = Some b' \<and> sb_inv S b' (F1 @ F2) \<and> sb_offset b' = sb_offset b \<and>
    sb_unsent b' = sb_unsent b \<and> sb_retransmits b' = sb_retransmits b"
proof -
  have t: "sb_tracked S b (F1 @ (s, e) # F2)" using inv by (simp add: sb_inv_def)
  then have F: "s \<le> e" "{s..<e} \<inter> (rs_set F1 \<union> rs_set F2) = {}" "flight_ok (F1 @ F2)"
    and acks: "rs_inv (sb_acks b)"
    and set: "splits (rs_set (sb_acks b)) (rs_set (sb_retransmits b)) (rs_set F1 \<union> ({s..<e} \<union> rs_set F2)) {sb_base b..<sb_unsent b}"
    by (simp_all add: sb_tracked_def flight_ok_middle)
  have "{s..<e} \<subseteq> {sb_base b..<sb_unsent b}" using set unfolding splits_def by blast
  then have range: "{max (sb_base b) s..<max (sb_base b) e} = {s..<e}" using F(1) by (cases "s = e") auto
  let ?b = "b\<lparr>sb_acks := fst (rs_insert (max (sb_base b) s, max (sb_base b) e) (sb_acks b))\<rparr>"
  have "sb_base ?b = sb_base b" by (simp add: sb_base_def)
  moreover have "rs_inv (sb_acks ?b)" "rs_set (sb_acks ?b) = rs_set (sb_acks b) \<union> {s..<e}"
    using rs_insert_correct [OF acks, of "max (sb_base b) s" "max (sb_base b) e"] range by simp_all
  ultimately have "sb_tracked S ?b (F1 @ F2)"
    using t F(3) splits_ack [OF set F(2)] by (simp add: sb_tracked_def)
  from ack_loop_tracked [OF this] show ?thesis by (auto simp: sb_ack_def Let_def)
qed

lemma sb_retransmit_inv:
  assumes "sb_inv S b (F1 @ (s, e) # F2)"
  shows "sb_inv S (sb_retransmit (s, e) b) (F1 @ F2)"
proof -
  have t: "sb_tracked S b (F1 @ (s, e) # F2)" using assms by (simp add: sb_inv_def)
  then have F: "{s..<e} \<inter> (rs_set F1 \<union> rs_set F2) = {}" "flight_ok (F1 @ F2)" and inv: "rs_inv (sb_retransmits b)"
    and set: "splits (rs_set (sb_acks b)) (rs_set (sb_retransmits b)) (rs_set F1 \<union> ({s..<e} \<union> rs_set F2)) {sb_base b..<sb_unsent b}"
    by (simp_all add: sb_tracked_def flight_ok_middle)
  let ?b = "b\<lparr>sb_retransmits := fst (rs_insert (s, e) (sb_retransmits b))\<rparr>"
  have "rs_inv (sb_retransmits ?b)" "rs_set (sb_retransmits ?b) = rs_set (sb_retransmits b) \<union> {s..<e}"
    using rs_insert_correct [OF inv, of s e] by simp_all
  moreover have base: "sb_base ?b = sb_base b" by (simp add: sb_base_def)
  ultimately have "sb_tracked S ?b (F1 @ F2)"
    using t F(2) splits_lost [OF set F(1)] by (simp add: sb_tracked_def)
  then show ?thesis using assms base by (simp add: sb_inv_def sb_retransmit_def)
qed

lemma sb_write_inv:
  assumes "sb_inv S b F" "sb_offset b + length data < 2 ^ 62" "slice S (sb_offset b) (length data) = data"
  shows "sb_inv S (sb_write data b) F"
proof -
  have le: "sb_unacked_len b \<le> sb_offset b" and c: "concat (sb_unacked_segments b) = slice S (sb_base b) (sb_unacked_len b)"
    using assms(1) by (simp_all add: sb_inv_def sb_tracked_def)
  have base: "sb_base (sb_write data b) = sb_base b" using le by (simp add: sb_base_def sb_write_def)
  have "concat (sb_unacked_segments (sb_write data b)) = slice S (sb_base b) (sb_unacked_len b + length data)"
    using slice_append [of S "sb_base b" "sb_unacked_len b" "length data"] le c assms(3)
    by (simp add: sb_write_def sb_base_eq)
  then show ?thesis
    using assms(1,2) base by (simp add: sb_inv_def sb_tracked_def) (simp add: sb_write_def)
qed

text \<open>
  A range that \<open>fit_range\<close> cuts out starts where asked and stays inside the data. With the length field the
  frame leaves room for it; without, it fills the space exactly.
\<close>

definition offset_len :: "nat \<Rightarrow> nat" where
  "offset_len start = (if start = 0 then 0 else length (var_bytes start))"

lemma fit_range:
  assumes "start \<le> avail" "avail < 2 ^ 62" "16 \<le> max_len" "max_len < 2 ^ 62"
  shows "\<exists>e enc. fit_range start avail max_len = Some (e, enc) \<and> start \<le> e \<and> e \<le> avail \<and>
    (if enc then offset_len start + (e - start) + 8 \<le> max_len else offset_len start + (e - start) = max_len) \<and>
    (17 \<le> max_len \<and> start < avail \<longrightarrow> start < e)"
proof -
  have v: "is_varint start" using assms by (simp add: is_varint_iff)
  define k where "k = offset_len start"
  define m where "m = max_len - k"
  define len where "len = (if avail - start < m then m - 8 else m)"
  have size: "(if start \<noteq> 0 then varint_size start else Some 0) = Some k" and k: "k \<le> 8"
    using varint_size_bytes [OF v] length_var_bytes_le [OF v] by (simp_all add: k_def offset_len_def)
  have w: "wrapping_sub max_len k = m" "wrapping_sub m 8 = m - 8" using assms(3) k by (simp_all add: m_def)
  have "len + start \<le> u64_max" using assms by (auto simp: len_def m_def)
  moreover have "fit_range start avail max_len = Some (min avail (saturating_add len start), avail - start < m)"
    unfolding fit_range_def size using w by (simp add: Let_def len_def)
  ultimately have "fit_range start avail max_len = Some (min avail (len + start), avail - start < m)"
    by (simp add: saturating_add_def)
  then show ?thesis
    using assms k unfolding k_def [symmetric] by (auto simp: len_def m_def min_def)
qed

lemma poll_transmit_inv:
  assumes inv: "sb_inv S b F" and len: "16 \<le> max_len" "max_len < 2 ^ 62"
  shows "\<exists>s e enc b'. sb_poll_transmit max_len b = Some (((s, e), enc), b') \<and> sb_inv S b' ((s, e) # F) \<and>
    sb_base b' = sb_base b \<and> sb_offset b' = sb_offset b \<and> sb_base b \<le> s \<and> s \<le> e \<and> e \<le> sb_offset b \<and>
    (if enc then offset_len s + (e - s) + 8 \<le> max_len else offset_len s + (e - s) = max_len) \<and>
    (17 \<le> max_len \<and> sb_has_unsent_data b \<longrightarrow> s < e)"
proof -
  have t: "sb_tracked S b F" and acks: "sb_base b \<notin> rs_set (sb_acks b)" using inv by (simp_all add: sb_inv_def)
  then have b: "sb_base b \<le> sb_unsent b" "sb_unsent b \<le> sb_offset b" "sb_offset b < 2 ^ 62"
    and rinv: "rs_inv (sb_retransmits b)" and fl: "flight_ok F"
    and set: "splits (rs_set (sb_acks b)) (rs_set (sb_retransmits b)) (rs_set F) {sb_base b..<sb_unsent b}"
    by (simp_all add: sb_tracked_def)
  show ?thesis
  proof (cases "sb_retransmits b")
    case Nil
    obtain e enc where e: "fit_range (sb_unsent b) (sb_offset b) max_len = Some (e, enc)"
      "sb_unsent b \<le> e" "e \<le> sb_offset b"
      "if enc then offset_len (sb_unsent b) + (e - sb_unsent b) + 8 \<le> max_len
       else offset_len (sb_unsent b) + (e - sb_unsent b) = max_len"
      "17 \<le> max_len \<and> sb_unsent b < sb_offset b \<longrightarrow> sb_unsent b < e"
      using fit_range [OF b(2,3) len] by blast
    let ?b = "b\<lparr>sb_unsent := e\<rparr>"
    have base: "sb_base ?b = sb_base b" by (simp add: sb_base_def)
    have disj: "{sb_unsent b..<e} \<inter> {sb_base b..<sb_unsent b} = {}"
      "{sb_base b..<sb_unsent b} \<union> {sb_unsent b..<e} = {sb_base b..<e}" using b(1) e(2) by auto
    moreover have "rs_set F \<subseteq> {sb_base b..<sb_unsent b}" using set unfolding splits_def by blast
    ultimately have "{sb_unsent b..<e} \<inter> rs_set F = {}" by blast
    then have "sb_tracked S ?b ((sb_unsent b, e) # F)"
      using t fl e(2,3) b(1) base splits_send [OF set disj(1)] disj(2) by (simp add: sb_tracked_def)
    then have "sb_inv S ?b ((sb_unsent b, e) # F)" using acks base by (simp add: sb_inv_def)
    then show ?thesis
      using Nil b e base
      by (intro exI [of _ "sb_unsent b"] exI [of _ e] exI [of _ enc] exI [of _ ?b])
        (auto simp: sb_poll_transmit_def sb_has_unsent_data_def)
  next
    case (Cons r m)
    obtain s e where r: "r = (s, e)" by (cases r)
    have rm: "rs_inv ((s, e) # m)" and
      set': "splits (rs_set (sb_acks b)) ({s..<e} \<union> rs_set m) (rs_set F) {sb_base b..<sb_unsent b}"
      using rinv set Cons r by simp_all
    then have lt: "s < e" and m: "rs_inv m" and above: "{s..<e} \<inter> rs_set m = {}"
      using rs_set_above [of m e] by (force simp: disjoint_iff)+
    have sub: "{s..<e} \<subseteq> {sb_base b..<sb_unsent b}" using set' unfolding splits_def by blast
    have se: "sb_base b \<le> s" "e \<le> sb_offset b" using sub lt b(2) by auto
    obtain e' enc where e': "fit_range s e max_len = Some (e', enc)" "s \<le> e'" "e' \<le> e"
      "if enc then offset_len s + (e' - s) + 8 \<le> max_len else offset_len s + (e' - s) = max_len"
      "17 \<le> max_len \<and> s < e \<longrightarrow> s < e'"
      using fit_range [of s e max_len] lt se(2) b(3) len by fastforce
    let ?m = "if e' \<noteq> e then fst (rs_insert (e', e) m) else m"
    let ?b = "b\<lparr>sb_retransmits := ?m\<rparr>"
    have base: "sb_base ?b = sb_base b" by (simp add: sb_base_def)
    have m': "rs_inv ?m" "rs_set ?m = rs_set m \<union> {e'..<e}" using rs_insert_correct [OF m, of e' e] m by simp_all
    have "{s..<e} = {s..<e'} \<union> {e'..<e}" "{s..<e'} \<inter> {e'..<e} = {}" using e'(2,3) by auto
    then have eq: "{s..<e} \<union> rs_set m = {s..<e'} \<union> (rs_set m \<union> {e'..<e})" "{s..<e'} \<inter> (rs_set m \<union> {e'..<e}) = {}"
      using above by blast+
    have "{s..<e'} \<inter> rs_set F = {}" using set' eq(1) unfolding splits_def by blast
    then have "sb_tracked S ?b ((s, e') # F)"
      using t fl e'(2) base m' splits_resend [OF set' [unfolded eq(1)] eq(2)] by (simp add: sb_tracked_def)
    then have "sb_inv S ?b ((s, e') # F)" using acks base by (simp add: sb_inv_def)
    moreover have "sb_poll_transmit max_len b = Some (((s, e'), enc), ?b)"
      using Cons r rm e'(1) by (simp add: sb_poll_transmit_def rs_pop_min_Cons)
    ultimately show ?thesis
      using e'(2-) se lt base
      by (intro exI [of _ s] exI [of _ e'] exI [of _ enc] exI [of _ ?b]) simp
  qed
qed

lemma send_buffer_new_inv: "sb_inv S send_buffer_new []"
  by (simp add: sb_inv_def sb_tracked_def send_buffer_new_def sb_base_def splits_def)

lemma retransmit_all_inv:
  assumes "sb_inv S b F" "sb_offset b = sb_unacked_len b" "sb_acks b = []" "sb_retransmits b = []"
  shows "sb_inv S (sb_retransmit_all_for_0rtt b) []"
proof -
  have "sb_base (sb_retransmit_all_for_0rtt b) = 0" "sb_base b = 0"
    using assms(2) by (simp_all add: sb_base_def sb_retransmit_all_for_0rtt_def)
  then show ?thesis
    using assms by (simp add: sb_inv_def sb_tracked_def splits_def) (simp add: sb_retransmit_all_for_0rtt_def)
qed

lemma sb_step_inv: "sb_step S (b, F) (b', F') \<Longrightarrow> sb_inv S b F \<Longrightarrow> sb_inv S b' F'"
proof (induction "(b, F)" "(b', F')" rule: sb_step.induct)
  case (step_poll max_len r enc)
  then show ?case using poll_transmit_inv [OF step_poll.prems step_poll.hyps(1,2)] by auto
next
  case (step_ack r F1 F2)
  then show ?case using sb_ack_inv [of S b F1 "fst r" "snd r" F2] by auto
next
  case (step_lost F1 r F2)
  then show ?case using sb_retransmit_inv [of S b F1 "fst r" "snd r" F2] by auto
qed (auto intro: sb_write_inv retransmit_all_inv)

lemma sb_reachable_inv: "sb_reachable S st \<Longrightarrow> sb_inv S (fst st) (snd st)"
proof (induction rule: sb_reachable.induct)
  case (reach_step st st')
  then show ?case using sb_step_inv [of S "fst st" "snd st" "fst st'" "snd st'"] by simp
qed (simp add: send_buffer_new_inv)

lemma sb_unacked_split:
  assumes "sb_inv S b F"
  shows "sb_unacked b = sb_offset b - sb_unsent b + rs_size (sb_retransmits b) + rs_size F"
proof -
  let ?A = "rs_set (sb_acks b)" and ?R = "rs_set (sb_retransmits b)" and ?F = "rs_set F"
  have set: "splits ?A ?R ?F {sb_base b..<sb_unsent b}" and b: "sb_base b \<le> sb_unsent b" "sb_unsent b \<le> sb_offset b"
    "sb_unacked_len b \<le> sb_offset b" and inv: "rs_inv (sb_acks b)" "rs_inv (sb_retransmits b)" "flight_ok F"
    using assms by (simp_all add: sb_inv_def sb_tracked_def)
  have "card (?A \<union> ?R \<union> ?F) = card ?A + card ?R + card ?F"
    using set by (subst card_Un_disjoint; simp add: splits_def Int_Un_distrib2 card_Un_disjoint)
  moreover have "?A \<union> ?R \<union> ?F = {sb_base b..<sb_unsent b}" using set by (simp add: splits_def)
  ultimately have "rs_size (sb_acks b) + rs_size (sb_retransmits b) + rs_size F = sb_unsent b - sb_base b"
    using inv by (simp add: rs_size_card rs_size_flight)
  moreover have "sb_unacked_len b = sb_offset b - sb_base b" using b(3) by (simp add: sb_base_eq)
  ultimately show ?thesis
    using b by (simp add: sb_unacked_def rs_size_def [of "sb_acks b", symmetric])
qed

section \<open>What the buffer promises\<close>

text \<open>Polling \<open>n\<close> times, and acknowledging a list of frames.\<close>

fun sb_drain :: "nat \<Rightarrow> nat \<Rightarrow> send_buffer \<Rightarrow> (urange list \<times> send_buffer) option" where
  "sb_drain 0 max_len b = Some ([], b)"
| "sb_drain (Suc n) max_len b =
     (if \<not> sb_has_unsent_data b then Some ([], b)
      else Option.bind (sb_poll_transmit max_len b) (\<lambda>((r, enc), b').
        map_option (\<lambda>(rs, b''). (r # rs, b'')) (sb_drain n max_len b')))"

fun sb_ack_all :: "urange list \<Rightarrow> send_buffer \<Rightarrow> send_buffer option" where
  "sb_ack_all [] b = Some b"
| "sb_ack_all (r # rs) b = Option.bind (sb_ack r b) (sb_ack_all rs)"

definition sb_to_send :: "send_buffer \<Rightarrow> nat" where
  "sb_to_send b = sb_offset b - sb_unsent b + rs_size (sb_retransmits b)"

lemma poll_to_send:
  assumes "sb_inv S b F" "17 \<le> max_len" "max_len < 2 ^ 62" "sb_has_unsent_data b"
    "sb_poll_transmit max_len b = Some (((s, e), enc), b')"
  shows "sb_to_send b' < sb_to_send b" and "sb_inv S b' ((s, e) # F)"
proof -
  have *: "sb_inv S b' ((s, e) # F)" "s < e" "sb_base b' = sb_base b" "sb_offset b' = sb_offset b"
    using poll_transmit_inv [OF assms(1) _ assms(3)] assms(2,4,5) by auto
  have "sb_unacked b' = sb_unacked b"
    using assms(5) by (auto simp: sb_poll_transmit_def sb_unacked_def split: prod.splits option.splits)
  then show "sb_to_send b' < sb_to_send b"
    using sb_unacked_split [OF assms(1)] sb_unacked_split [OF *(1)] *(2) by (simp add: sb_to_send_def)
  show "sb_inv S b' ((s, e) # F)" by (rule *)
qed

lemma sb_drain_sends:
  assumes "sb_inv S b F" "17 \<le> max_len" "max_len < 2 ^ 62" "sb_to_send b \<le> n"
  shows "\<exists>rs b'. sb_drain n max_len b = Some (rs, b') \<and> \<not> sb_has_unsent_data b' \<and> sb_inv S b' (rev rs @ F)"
  using assms
proof (induction n arbitrary: b F)
  case 0
  then have "card (rs_set (sb_retransmits b)) = 0" "sb_unsent b = sb_offset b"
    by (simp_all add: sb_to_send_def rs_size_card sb_inv_def sb_tracked_def del: card_0_eq)
  then have "\<not> sb_has_unsent_data b"
    using "0.prems"(1) rs_set_empty_iff [of "sb_retransmits b"]
    by (simp add: sb_has_unsent_data_def sb_inv_def sb_tracked_def)
  then show ?case using "0.prems" by simp
next
  case (Suc n)
  show ?case
  proof (cases "sb_has_unsent_data b")
    case True
    obtain s e enc b' where p: "sb_poll_transmit max_len b = Some (((s, e), enc), b')"
      using poll_transmit_inv [OF Suc.prems(1) _ Suc.prems(3)] Suc.prems(2) by auto
    note step = poll_to_send [OF Suc.prems(1-3) True p]
    then obtain rs b'' where "sb_drain n max_len b' = Some (rs, b'')" "\<not> sb_has_unsent_data b''"
      "sb_inv S b'' (rev rs @ (s, e) # F)"
      using Suc.IH [OF step(2) Suc.prems(2,3)] Suc.prems(4) by auto
    then show ?thesis using True p by auto
  qed (use Suc.prems in auto)
qed

lemma sb_ack_all_inv:
  "sb_inv S b (rs @ F) \<Longrightarrow> \<exists>b'. sb_ack_all rs b = Some b' \<and> sb_inv S b' F \<and> sb_offset b' = sb_offset b \<and>
    sb_unsent b' = sb_unsent b \<and> sb_retransmits b' = sb_retransmits b"
proof (induction rs arbitrary: b)
  case (Cons r rs)
  then show ?case using sb_ack_inv [of S b "[]" "fst r" "snd r" "rs @ F"] by fastforce
qed simp

lemma sb_inv_fully_acked:
  assumes "sb_inv S b []" "\<not> sb_has_unsent_data b"
  shows "sb_is_fully_acked b"
proof -
  have "splits (rs_set (sb_acks b)) {} {} {sb_base b..<sb_offset b}" "sb_base b \<notin> rs_set (sb_acks b)"
    "sb_unacked_len b \<le> sb_offset b"
    using assms by (auto simp: sb_inv_def sb_tracked_def sb_has_unsent_data_def)
  then show ?thesis by (auto simp: sb_is_fully_acked_def sb_base_eq splits_def)
qed

text \<open>Five bytes written, and five bytes written and sent.\<close>

definition example_written :: send_buffer where
  "example_written = sb_write [0, 1, 2, 3, 4] send_buffer_new"

definition example_sent :: send_buffer where
  "example_sent = example_written\<lparr>sb_unsent := 5\<rparr>"

lemma example_reachable:
  "sb_reachable of_nat (example_written, []) \<and> sb_reachable of_nat (example_sent, [] @ (0, 5) # [])"
proof -
  have w: "sb_reachable of_nat (example_written, [])"
    unfolding example_written_def
    by (rule reach_step [OF reach_new step_write]) (simp_all add: send_buffer_new_def slice_def)
  have "sb_poll_transmit 30 example_written = Some (((0, 5), True), example_sent)"
    by (simp add: example_sent_def example_written_def sb_poll_transmit_def fit_range_def sb_write_def
        send_buffer_new_def saturating_add_def Let_def)
  then have "sb_step of_nat (example_written, []) (example_sent, [(0, 5)])"
    by (intro step_poll [of 30]) simp_all
  with w show ?thesis using reach_step [OF w] by simp
qed

text \<open>
  C27: Whatever the history of writes, transmissions, acknowledgements and losses, polling the buffer for a
  frame succeeds, and the copying loop that fills the frame ends and copies exactly the bytes the application
  wrote at those offsets. The frame fits the space; a frame without a length field fills it completely.
\<close>

theorem transmitted_frame_correct:
  assumes "sb_reachable S (b, F)" "16 \<le> max_len" "max_len < 2 ^ 62"
  shows "\<exists>s e enc b'. sb_poll_transmit max_len b = Some (((s, e), enc), b') \<and>
    copy_range (s, e) b' = Some (slice S s (e - s)) \<and>
    (if enc then offset_len s + 8 + (e - s) \<le> max_len else offset_len s + (e - s) = max_len)"
proof -
  have inv: "sb_inv S b F" using sb_reachable_inv [OF assms(1)] by simp
  obtain s e enc b' where p: "sb_poll_transmit max_len b = Some (((s, e), enc), b')" "sb_inv S b' ((s, e) # F)"
    "sb_base b' = sb_base b" "sb_offset b' = sb_offset b" "sb_base b \<le> s" "s \<le> e" "e \<le> sb_offset b"
    "if enc then offset_len s + (e - s) + 8 \<le> max_len else offset_len s + (e - s) = max_len"
    using poll_transmit_inv [OF inv assms(2,3)] by blast
  then have "copy_range (s, e) b' = Some (slice S s (e - s))"
    using copy_range_slice [OF p(2), of s e] by simp
  then show ?thesis using p(1,8) by (cases enc) auto
qed

theorem transmitted_frame_correct_witness:
  "sb_reachable of_nat (example_written, []) \<and> (\<exists>s e enc b'. sb_poll_transmit 30 example_written = Some (((s, e), enc), b') \<and>
    copy_range (s, e) b' = Some (slice of_nat s (e - s)) \<and>
    (if enc then offset_len s + 8 + (e - s) \<le> 30 else offset_len s + (e - s) = 30))"
  using example_reachable transmitted_frame_correct [of of_nat example_written "[]" 30] by simp

text \<open>
  C28: An acknowledgement of any frame in flight never panics, and the count of unacknowledged bytes goes down
  by exactly the length of the frame: acknowledged data is dropped once and nothing else is.
\<close>

theorem ack_counts_once:
  assumes "sb_reachable S (b, F1 @ (s, e) # F2)"
  shows "\<exists>b'. sb_ack (s, e) b = Some b' \<and> sb_unacked b' + (e - s) = sb_unacked b \<and>
    sb_reachable S (b', F1 @ F2)"
proof -
  have inv: "sb_inv S b (F1 @ (s, e) # F2)" using sb_reachable_inv [OF assms] by simp
  obtain b' where b': "sb_ack (s, e) b = Some b'" "sb_inv S b' (F1 @ F2)" "sb_offset b' = sb_offset b"
    "sb_unsent b' = sb_unsent b" "sb_retransmits b' = sb_retransmits b"
    using sb_ack_inv [OF inv] by blast
  moreover have "sb_unacked b' + (e - s) = sb_unacked b"
    using sb_unacked_split [OF inv] sb_unacked_split [OF b'(2)] b'(3-5) by (simp add: rs_size_def)
  moreover have "sb_reachable S (b', F1 @ F2)"
    using assms step_ack [OF b'(1)] by (rule reach_step)
  ultimately show ?thesis by blast
qed

theorem ack_counts_once_witness:
  "sb_reachable of_nat (example_sent, [(0, 5)]) \<and> (\<exists>b'. sb_ack (0, 5) example_sent = Some b' \<and>
    sb_unacked b' + 5 = sb_unacked example_sent \<and> sb_reachable of_nat (b', []))"
  using example_reachable ack_counts_once [of of_nat example_sent "[]" 0 5 "[]"] by simp

text \<open>
  C11: Nothing the application writes is lost. As long as frames of at least 17 bytes can be sent, finitely
  many of them empty the buffer of unsent and lost data, and once these and the frames in flight before them
  are acknowledged the buffer is fully acknowledged.
\<close>

theorem send_buffer_drains:
  assumes "sb_reachable S (b, F)" "17 \<le> max_len" "max_len < 2 ^ 62"
  shows "\<exists>rs b' b''. sb_drain (sb_to_send b) max_len b = Some (rs, b') \<and> \<not> sb_has_unsent_data b' \<and>
    sb_ack_all (rev rs @ F) b' = Some b'' \<and> sb_is_fully_acked b''"
proof -
  have inv: "sb_inv S b F" using sb_reachable_inv [OF assms(1)] by simp
  obtain rs b' where d: "sb_drain (sb_to_send b) max_len b = Some (rs, b')" "\<not> sb_has_unsent_data b'"
    "sb_inv S b' (rev rs @ F)"
    using sb_drain_sends [OF inv assms(2,3) order_refl] by blast
  obtain b'' where "sb_ack_all (rev rs @ F) b' = Some b''" "sb_inv S b'' []" "\<not> sb_has_unsent_data b''"
    using sb_ack_all_inv [of S b' "rev rs @ F" "[]"] d(2,3) by (auto simp: sb_has_unsent_data_def)
  then show ?thesis using d sb_inv_fully_acked by blast
qed

theorem send_buffer_drains_witness:
  "sb_reachable of_nat (example_written, []) \<and> (\<exists>rs b' b''. sb_drain (sb_to_send example_written) 20 example_written = Some (rs, b') \<and>
    \<not> sb_has_unsent_data b' \<and> sb_ack_all (rev rs) b' = Some b'' \<and> sb_is_fully_acked b'')"
  using example_reachable send_buffer_drains [of of_nat example_written "[]" 20] by simp

end
