(* ===== verification/Stream_Send.thy ===== *)
theory Stream_Send
  imports Send_Buffer Frame
begin

text \<open>
  \<open>quic-proto/src/connection/streams/send.rs\<close>: the sending half of a stream and the two sources the application
  writes from. A \<open>None\<close> result is a panic or a loop that does not end.
\<close>

section \<open>Sources of bytes\<close>

text \<open>\<open>BytesArray\<close>: the chunks and the number of chunks used up; \<open>ByteSlice\<close>: the rest of the slice.\<close>

type_synonym bytes_array = "bytes list \<times> nat"

function bytes_array_pop :: "nat \<Rightarrow> nat \<Rightarrow> bytes_array \<Rightarrow> (bytes \<times> nat) \<times> bytes_array" where
  "bytes_array_pop limit chunks_consumed (chunks, consumed) =
     (if consumed < length chunks then
        let chunk = chunks ! consumed in
        if length chunk \<le> limit then
          let chunks' = chunks[consumed := []] in
          if chunk = [] then bytes_array_pop limit (chunks_consumed + 1) (chunks', consumed + 1)
          else ((chunk, chunks_consumed + 1), (chunks', consumed + 1))
        else if 0 < limit then
          ((take limit chunk, chunks_consumed), (chunks[consumed := drop limit chunk], consumed))
        else (([], chunks_consumed), (chunks, consumed))
      else (([], chunks_consumed), (chunks, consumed)))"
  by pat_completeness auto
termination by (relation "measure (\<lambda>(_, _, chunks, consumed). length chunks - consumed)") auto

declare bytes_array_pop.simps [simp del]

definition array_pop_chunk :: "nat \<Rightarrow> bytes_array \<Rightarrow> (bytes \<times> nat) \<times> bytes_array" where
  "array_pop_chunk limit src = bytes_array_pop limit 0 src"

definition slice_pop_chunk :: "nat \<Rightarrow> bytes \<Rightarrow> (bytes \<times> nat) \<times> bytes" where
  "slice_pop_chunk limit data =
     (let limit' = min limit (length data) in
      if limit' = 0 then (([], 0), data)
      else
        let chunk = take limit' data; data' = drop (length chunk) data in
        ((chunk, if data' = [] then 1 else 0), data'))"

section \<open>A send stream\<close>

datatype send_state = Ready | DataSent bool | ResetSent

record send =
  sn_max_data :: nat
  sn_state :: send_state
  sn_pending :: send_buffer
  sn_priority :: int
  sn_fin_pending :: bool
  sn_connection_blocked :: bool
  sn_stop_reason :: "nat option"

datatype finish_error = FinishStopped nat | FinishClosedStream

datatype write_error = WriteBlocked | WriteStopped nat | WriteClosedStream

record written =
  wr_bytes :: nat
  wr_chunks :: nat

definition send_new :: "nat \<Rightarrow> send" where
  "send_new max_data = \<lparr>sn_max_data = max_data, sn_state = Ready, sn_pending = send_buffer_new, sn_priority = 0,
     sn_fin_pending = False, sn_connection_blocked = False, sn_stop_reason = None\<rparr>"

definition is_reset :: "send \<Rightarrow> bool" where
  "is_reset s \<longleftrightarrow> sn_state s = ResetSent"

definition is_writable :: "send \<Rightarrow> bool" where
  "is_writable s \<longleftrightarrow> sn_state s = Ready"

definition is_pending :: "send \<Rightarrow> bool" where
  "is_pending s \<longleftrightarrow> sb_has_unsent_data (sn_pending s) \<or> sn_fin_pending s"

definition send_offset :: "send \<Rightarrow> nat" where
  "send_offset s = sb_offset (sn_pending s)"

definition send_finish :: "send \<Rightarrow> finish_error + send" where
  "send_finish s =
     (case sn_stop_reason s of
        Some error_code \<Rightarrow> Inl (FinishStopped error_code)
      | None \<Rightarrow>
          if sn_state s = Ready then Inr (s\<lparr>sn_state := DataSent False, sn_fin_pending := True\<rparr>)
          else Inl FinishClosedStream)"

text \<open>The loop of \<open>write\<close>, for any source.\<close>

partial_function (option) write_loop ::
    "(nat \<Rightarrow> 's \<Rightarrow> (bytes \<times> nat) \<times> 's) \<Rightarrow> nat \<Rightarrow> written \<Rightarrow> 's \<Rightarrow> send_buffer \<Rightarrow> (written \<times> 's \<times> send_buffer) option" where
  "write_loop pop_chunk limit result src b =
     (let ((chunk, chunks_consumed), src') = pop_chunk limit src;
          result' = \<lparr>wr_bytes = wr_bytes result + length chunk, wr_chunks = wr_chunks result + chunks_consumed\<rparr> in
      if chunk = [] then Some (result', src', b)
      else write_loop pop_chunk (wrapping_sub limit (length chunk)) result' src' (sb_write chunk b))"

definition send_write ::
    "(nat \<Rightarrow> 's \<Rightarrow> (bytes \<times> nat) \<times> 's) \<Rightarrow> nat \<Rightarrow> 's \<Rightarrow> send \<Rightarrow> (write_error + (written \<times> 's \<times> send)) option" where
  "send_write pop_chunk limit src s =
     (if \<not> is_writable s then Some (Inl WriteClosedStream)
      else
        case sn_stop_reason s of
          Some error_code \<Rightarrow> Some (Inl (WriteStopped error_code))
        | None \<Rightarrow>
            let budget = wrapping_sub (sn_max_data s) (sb_offset (sn_pending s)) in
            if budget = 0 then Some (Inl WriteBlocked)
            else
              map_option (\<lambda>(w, src', b). Inr (w, src', s\<lparr>sn_pending := b\<rparr>))
                (write_loop pop_chunk (min limit budget) \<lparr>wr_bytes = 0, wr_chunks = 0\<rparr> src (sn_pending s)))"

definition send_reset :: "send \<Rightarrow> send" where
  "send_reset s = (if sn_state s = ResetSent then s else s\<lparr>sn_state := ResetSent\<rparr>)"

definition try_stop :: "nat \<Rightarrow> send \<Rightarrow> bool \<times> send" where
  "try_stop error_code s =
     (if sn_stop_reason s = None then (True, s\<lparr>sn_stop_reason := Some error_code\<rparr>) else (False, s))"

definition send_ack :: "stream_meta \<Rightarrow> send \<Rightarrow> (bool \<times> send) option" where
  "send_ack frame s =
     map_option (\<lambda>b.
       let s' = s\<lparr>sn_pending := b\<rparr> in
       case sn_state s of
         DataSent finish_acked \<Rightarrow>
           let acked = (finish_acked \<or> sm_fin frame) in
           (acked \<and> sb_is_fully_acked b, s'\<lparr>sn_state := DataSent acked\<rparr>)
       | _ \<Rightarrow> (False, s'))
     (sb_ack (sm_offsets frame) (sn_pending s))"

definition increase_max_data :: "nat \<Rightarrow> send \<Rightarrow> bool \<times> send" where
  "increase_max_data offset s =
     (if offset \<le> sn_max_data s \<or> sn_state s \<noteq> Ready then (False, s)
      else (sb_offset (sn_pending s) = sn_max_data s, s\<lparr>sn_max_data := offset\<rparr>))"

section \<open>What a source promises\<close>

text \<open>\<open>BytesSource\<close>: a chunk is taken from the front of the source, within the limit, and is empty only when
  nothing may be taken or nothing is left.\<close>

definition accepts :: "bytes \<Rightarrow> nat \<Rightarrow> send \<Rightarrow> (write_error + (written \<times> bytes \<times> send)) option \<Rightarrow> bool" where
  "accepts data limit s r \<longleftrightarrow>
     (if send_offset s = sn_max_data s then r = Some (Inl WriteBlocked)
      else
        let n = min limit (sn_max_data s - send_offset s) in
        \<exists>w s' chunks. r = Some (Inr (w, drop n data, s')) \<and> s' = s\<lparr>sn_pending := fold sb_write chunks (sn_pending s)\<rparr> \<and>
          concat chunks = take n data \<and> wr_bytes w = length (take n data) \<and>
          send_offset s' = send_offset s + length (take n data) \<and> send_offset s' \<le> sn_max_data s')"

lemma fold_sb_write:
  "sb_offset (fold sb_write chunks b) = sb_offset b + length (concat chunks)"
  by (induction chunks arbitrary: b) (simp_all add: sb_write_def)

lemma fold_sb_write_inv:
  "sb_inv S b F \<Longrightarrow> sb_offset b + length (concat chunks) < 2 ^ 62 \<Longrightarrow>
    slice S (sb_offset b) (length (concat chunks)) = concat chunks \<Longrightarrow> sb_inv S (fold sb_write chunks b) F"
proof (induction chunks arbitrary: b)
  case (Cons c chunks)
  let ?n = "length (concat chunks)"
  have sl: "slice S (sb_offset b) (length c + ?n) = c @ concat chunks" using Cons.prems(3) by simp
  have "take (length c) (c @ concat chunks) = slice S (sb_offset b) (length c)"
    "drop (length c) (c @ concat chunks) = slice S (sb_offset b + length c) ?n"
    unfolding sl [symmetric] by simp_all
  then have c: "slice S (sb_offset b) (length c) = c" "slice S (sb_offset b + length c) ?n = concat chunks" by simp_all
  have "sb_inv S (sb_write c b) F" using Cons.prems(1,2) c(1) by (intro sb_write_inv) simp_all
  moreover have "sb_offset (sb_write c b) = sb_offset b + length c" by (simp add: sb_write_def)
  ultimately show ?case using Cons.IH [of "sb_write c b"] Cons.prems(2) c(2) by simp
qed simp

locale bytes_source =
  fixes pop_chunk :: "nat \<Rightarrow> 's \<Rightarrow> (bytes \<times> nat) \<times> 's" and left :: "'s \<Rightarrow> bytes"
  assumes pop_chunk: "pop_chunk limit src = ((chunk, c), src') \<Longrightarrow>
    chunk @ left src' = left src \<and> length chunk \<le> limit \<and> (chunk = [] \<longrightarrow> limit = 0 \<or> left src = [])"
begin

lemma write_loop_writes:
  "\<exists>w src' chunks. write_loop pop_chunk limit w0 src b = Some (w, src', fold sb_write chunks b) \<and>
     concat chunks = take limit (left src) \<and> left src' = drop limit (left src) \<and>
     wr_bytes w = wr_bytes w0 + min limit (length (left src))"
proof (induction limit arbitrary: src b w0 rule: less_induct)
  case (less limit)
  obtain chunk c src' where p: "pop_chunk limit src = ((chunk, c), src')" by (metis prod.exhaust)
  let ?w = "\<lparr>wr_bytes = wr_bytes w0 + length chunk, wr_chunks = wr_chunks w0 + c\<rparr>"
  have law: "chunk @ left src' = left src" "length chunk \<le> limit" "chunk = [] \<longrightarrow> limit = 0 \<or> left src = []"
    using pop_chunk [OF p] by simp_all
  show ?case
  proof (cases "chunk = []")
    case True
    then have "take limit (left src) = []" "drop limit (left src) = left src'" "min limit (length (left src)) = 0"
      using law by auto
    then show ?thesis
      using True p by (subst write_loop.simps) (auto intro!: exI [of _ "[]"])
  next
    case False
    let ?l = "limit - length chunk"
    have "?l < limit" using False law(2) by (cases chunk) auto
    then obtain w src'' chunks where IH:
      "write_loop pop_chunk ?l ?w src' (sb_write chunk b) = Some (w, src'', fold sb_write chunks (sb_write chunk b))"
      "concat chunks = take ?l (left src')" "left src'' = drop ?l (left src')"
      "wr_bytes w = wr_bytes ?w + min ?l (length (left src'))"
      using less.IH by blast
    have "write_loop pop_chunk limit w0 src b = Some (w, src'', fold sb_write (chunk # chunks) b)"
      using False p IH(1) law(2) by (subst write_loop.simps) simp
    moreover have "concat (chunk # chunks) = take limit (left src)" "left src'' = drop limit (left src)"
      "wr_bytes w = wr_bytes w0 + min limit (length (left src))"
      using IH(2-4) law(2) by (simp_all flip: law(1))
    ultimately show ?thesis by blast
  qed
qed

text \<open>What a write does: it stops at the limit, at the stream's flow control budget and at the end of the source.\<close>

lemma send_write_accepts:
  assumes "is_writable s" "sn_stop_reason s = None" "send_offset s \<le> sn_max_data s"
  shows "accepts (left src) limit s (map_option (map_sum (\<lambda>e. e) (\<lambda>(w, src', s'). (w, left src', s')))
    (send_write pop_chunk limit src s))"
proof (cases "send_offset s = sn_max_data s")
  case True
  then show ?thesis using assms by (simp add: accepts_def send_write_def send_offset_def Let_def)
next
  case False
  let ?n = "min limit (sn_max_data s - send_offset s)"
  obtain w src' chunks where w:
    "write_loop pop_chunk ?n \<lparr>wr_bytes = 0, wr_chunks = 0\<rparr> src (sn_pending s) = Some (w, src', fold sb_write chunks (sn_pending s))"
    "concat chunks = take ?n (left src)" "left src' = drop ?n (left src)" "wr_bytes w = min ?n (length (left src))"
    using write_loop_writes [of ?n "\<lparr>wr_bytes = 0, wr_chunks = 0\<rparr>" src "sn_pending s"] by auto
  have "send_write pop_chunk limit src s = Some (Inr (w, src', s\<lparr>sn_pending := fold sb_write chunks (sn_pending s)\<rparr>))"
    using assms False w(1) by (simp add: send_write_def send_offset_def Let_def)
  moreover have "send_offset s + length (take ?n (left src)) \<le> sn_max_data s" using assms(3) by (auto simp: min_def)
  ultimately show ?thesis
    unfolding accepts_def Let_def if_not_P [OF False] using w(2-4) assms(3) fold_sb_write [of chunks "sn_pending s"]
    by (intro exI [of _ w] exI [of _ "s\<lparr>sn_pending := fold sb_write chunks (sn_pending s)\<rparr>"] exI [of _ chunks])
      (simp add: send_offset_def min.commute)
qed

end

interpretation byte_slice: bytes_source slice_pop_chunk "\<lambda>data. data"
  by unfold_locales (auto simp: slice_pop_chunk_def Let_def min_def split: if_splits)

definition array_left :: "bytes_array \<Rightarrow> bytes" where
  "array_left src = concat (drop (snd src) (fst src))"

lemma bytes_array_pop_law:
  "bytes_array_pop limit c0 (chunks, consumed) = ((chunk, c), src') \<Longrightarrow>
    chunk @ array_left src' = array_left (chunks, consumed) \<and> length chunk \<le> limit \<and>
    (chunk = [] \<longrightarrow> limit = 0 \<or> array_left (chunks, consumed) = [])"
proof (induction limit c0 "(chunks, consumed)" arbitrary: chunks consumed rule: bytes_array_pop.induct)
  case (1 limit c0 chunks consumed)
  note def = bytes_array_pop.simps [of limit c0 chunks consumed]
  show ?case
  proof (cases "consumed < length chunks")
    case True
    let ?c = "chunks ! consumed"
    have split: "array_left (chunks, consumed) = ?c @ concat (drop (Suc consumed) chunks)"
      using True by (simp add: array_left_def Cons_nth_drop_Suc [symmetric])
    have upd: "array_left (chunks[consumed := x], Suc consumed) = concat (drop (Suc consumed) chunks)"
      "array_left (chunks[consumed := x], consumed) = x @ concat (drop (Suc consumed) chunks)" for x
      using True by (simp_all add: array_left_def Cons_nth_drop_Suc [symmetric])
    show ?thesis
    proof (cases "?c = []")
      case empty: True
      then have "bytes_array_pop limit (c0 + 1) (chunks[consumed := []], consumed + 1) = ((chunk, c), src')"
        using "1.prems" True by (simp add: def)
      then show ?thesis using "1.hyps" [OF True refl _ refl] empty split upd(1) by simp
    next
      case False
      then show ?thesis using "1.prems" True split upd by (auto simp: def Let_def split: if_splits)
    qed
  next
    case False
    then show ?thesis using "1.prems" by (auto simp: def array_left_def)
  qed
qed

interpretation bytes_array: bytes_source array_pop_chunk array_left
proof
  fix limit src chunk c src'
  assume "array_pop_chunk limit src = ((chunk, c), src')"
  then show "chunk @ array_left src' = array_left src \<and> length chunk \<le> limit \<and>
      (chunk = [] \<longrightarrow> limit = 0 \<or> array_left src = [])"
    using bytes_array_pop_law [of limit 0 "fst src" "snd src"] by (simp add: array_pop_chunk_def)
qed

text \<open>
  Writing to a stream, from a slice or from an array of chunks, ends and takes exactly as many bytes as the
  limit, the stream's flow control budget and the source allow, in order and whatever the chunk boundaries
  (empty chunks included); it is refused as blocked exactly when the budget is used up, and the stream never
  passes the limit the peer has set.
\<close>

theorem write_respects_flow_control:
  assumes "is_writable s" "sn_stop_reason s = None" "send_offset s \<le> sn_max_data s"
  shows "accepts data limit s (send_write slice_pop_chunk limit data s) \<and>
    accepts (array_left src) limit s (map_option (map_sum (\<lambda>e. e) (\<lambda>(w, src', s'). (w, array_left src', s')))
      (send_write array_pop_chunk limit src s))"
proof -
  have "map_option (map_sum (\<lambda>e. e) (\<lambda>(w, src', s'). (w, src', s'))) r = r" for r :: "(write_error + (written \<times> bytes \<times> send)) option"
    by (simp add: option.map_id sum.map_id0 id_def [symmetric])
  then show ?thesis
    using byte_slice.send_write_accepts [OF assms] bytes_array.send_write_accepts [OF assms] by metis
qed

theorem write_respects_flow_control_witness:
  "accepts [1, 2, 3] 2 (send_new 10) (send_write slice_pop_chunk 2 [1, 2, 3] (send_new 10))"
  using write_respects_flow_control [of "send_new 10" "[1, 2, 3]" 2 "([], 0)"]
  by (simp add: is_writable_def send_new_def send_offset_def send_buffer_new_def)

end
