(* ===== verification/Transport_Parameters.thy ===== *)
theory Transport_Parameters
  imports Proto_Types
begin

text \<open>
  \<open>quic-proto/src/transport_parameters.rs\<close>: the parameters the peers exchange during the handshake, how they are
  written (in a random order, with a reserved parameter among them) and read. \<open>VarInt\<close> fields are natural
  numbers; a socket address is an address and a port.
\<close>

section \<open>The parameters\<close>

datatype tp_id =
    OriginalDestinationConnectionId | MaxIdleTimeout | StatelessResetToken | MaxUdpPayloadSize | InitialMaxData
  | InitialMaxStreamDataBidiLocal | InitialMaxStreamDataBidiRemote | InitialMaxStreamDataUni | InitialMaxStreamsBidi
  | InitialMaxStreamsUni | AckDelayExponent | MaxAckDelay | DisableActiveMigration | PreferredAddress
  | ActiveConnectionIdLimit | InitialSourceConnectionId | RetrySourceConnectionId | ReservedTransportParameter
  | MaxDatagramFrameSize | GreaseQuicBit | MinAckDelayDraft07

fun tp_code :: "tp_id \<Rightarrow> nat" where
  "tp_code OriginalDestinationConnectionId = 0"
| "tp_code MaxIdleTimeout = 1"
| "tp_code StatelessResetToken = 2"
| "tp_code MaxUdpPayloadSize = 3"
| "tp_code InitialMaxData = 4"
| "tp_code InitialMaxStreamDataBidiLocal = 5"
| "tp_code InitialMaxStreamDataBidiRemote = 6"
| "tp_code InitialMaxStreamDataUni = 7"
| "tp_code InitialMaxStreamsBidi = 8"
| "tp_code InitialMaxStreamsUni = 9"
| "tp_code AckDelayExponent = 10"
| "tp_code MaxAckDelay = 11"
| "tp_code DisableActiveMigration = 12"
| "tp_code PreferredAddress = 13"
| "tp_code ActiveConnectionIdLimit = 14"
| "tp_code InitialSourceConnectionId = 15"
| "tp_code RetrySourceConnectionId = 16"
| "tp_code ReservedTransportParameter = 27"
| "tp_code MaxDatagramFrameSize = 32"
| "tp_code GreaseQuicBit = 10930"
| "tp_code MinAckDelayDraft07 = 4278509083"

definition SUPPORTED :: "tp_id list" where
  "SUPPORTED = [MaxIdleTimeout, MaxUdpPayloadSize, InitialMaxData, InitialMaxStreamDataBidiLocal,
     InitialMaxStreamDataBidiRemote, InitialMaxStreamDataUni, InitialMaxStreamsBidi, InitialMaxStreamsUni,
     AckDelayExponent, MaxAckDelay, ActiveConnectionIdLimit, ReservedTransportParameter, StatelessResetToken,
     DisableActiveMigration, MaxDatagramFrameSize, PreferredAddress, OriginalDestinationConnectionId,
     InitialSourceConnectionId, RetrySourceConnectionId, GreaseQuicBit, MinAckDelayDraft07]"

definition tp_try_from :: "nat \<Rightarrow> tp_id option" where
  "tp_try_from value = find (\<lambda>i. tp_code i = value) SUPPORTED"

type_synonym socket_addr = "bytes \<times> nat"

record preferred_address =
  pa_address_v4 :: "socket_addr option"
  pa_address_v6 :: "socket_addr option"
  pa_connection_id :: connection_id
  pa_stateless_reset_token :: bytes

record reserved_parameter =
  rp_id :: nat
  rp_payload :: bytes

record transport_parameters =
  tp_max_idle_timeout :: nat
  tp_max_udp_payload_size :: nat
  tp_initial_max_data :: nat
  tp_initial_max_stream_data_bidi_local :: nat
  tp_initial_max_stream_data_bidi_remote :: nat
  tp_initial_max_stream_data_uni :: nat
  tp_initial_max_streams_bidi :: nat
  tp_initial_max_streams_uni :: nat
  tp_ack_delay_exponent :: nat
  tp_max_ack_delay :: nat
  tp_active_connection_id_limit :: nat
  tp_disable_active_migration :: bool
  tp_max_datagram_frame_size :: "nat option"
  tp_initial_src_cid :: "connection_id option"
  tp_grease_quic_bit :: bool
  tp_min_ack_delay :: "nat option"
  tp_original_dst_cid :: "connection_id option"
  tp_retry_src_cid :: "connection_id option"
  tp_stateless_reset_token :: "bytes option"
  tp_preferred_address :: "preferred_address option"
  tp_grease_transport_parameter :: "reserved_parameter option"
  tp_write_order :: "nat list option"

definition tp_default :: transport_parameters where
  "tp_default = \<lparr>tp_max_idle_timeout = 0, tp_max_udp_payload_size = 65527, tp_initial_max_data = 0,
     tp_initial_max_stream_data_bidi_local = 0, tp_initial_max_stream_data_bidi_remote = 0,
     tp_initial_max_stream_data_uni = 0, tp_initial_max_streams_bidi = 0, tp_initial_max_streams_uni = 0,
     tp_ack_delay_exponent = 3, tp_max_ack_delay = 25, tp_active_connection_id_limit = 2,
     tp_disable_active_migration = False, tp_max_datagram_frame_size = None, tp_initial_src_cid = None,
     tp_grease_quic_bit = False, tp_min_ack_delay = None, tp_original_dst_cid = None, tp_retry_src_cid = None,
     tp_stateless_reset_token = None, tp_preferred_address = None, tp_grease_transport_parameter = None,
     tp_write_order = None\<rparr>"

text \<open>The list of \<open>apply_params!\<close>: the integer parameters, their fields and their defaults.\<close>

fun int_default :: "tp_id \<Rightarrow> nat option" where
  "int_default MaxIdleTimeout = Some 0"
| "int_default MaxUdpPayloadSize = Some 65527"
| "int_default InitialMaxData = Some 0"
| "int_default InitialMaxStreamDataBidiLocal = Some 0"
| "int_default InitialMaxStreamDataBidiRemote = Some 0"
| "int_default InitialMaxStreamDataUni = Some 0"
| "int_default InitialMaxStreamsBidi = Some 0"
| "int_default InitialMaxStreamsUni = Some 0"
| "int_default AckDelayExponent = Some 3"
| "int_default MaxAckDelay = Some 25"
| "int_default ActiveConnectionIdLimit = Some 2"
| "int_default _ = None"

fun get_int :: "tp_id \<Rightarrow> transport_parameters \<Rightarrow> nat" where
  "get_int MaxIdleTimeout p = tp_max_idle_timeout p"
| "get_int MaxUdpPayloadSize p = tp_max_udp_payload_size p"
| "get_int InitialMaxData p = tp_initial_max_data p"
| "get_int InitialMaxStreamDataBidiLocal p = tp_initial_max_stream_data_bidi_local p"
| "get_int InitialMaxStreamDataBidiRemote p = tp_initial_max_stream_data_bidi_remote p"
| "get_int InitialMaxStreamDataUni p = tp_initial_max_stream_data_uni p"
| "get_int InitialMaxStreamsBidi p = tp_initial_max_streams_bidi p"
| "get_int InitialMaxStreamsUni p = tp_initial_max_streams_uni p"
| "get_int AckDelayExponent p = tp_ack_delay_exponent p"
| "get_int MaxAckDelay p = tp_max_ack_delay p"
| "get_int ActiveConnectionIdLimit p = tp_active_connection_id_limit p"
| "get_int _ p = 0"

fun set_int :: "tp_id \<Rightarrow> nat \<Rightarrow> transport_parameters \<Rightarrow> transport_parameters" where
  "set_int MaxIdleTimeout v p = p\<lparr>tp_max_idle_timeout := v\<rparr>"
| "set_int MaxUdpPayloadSize v p = p\<lparr>tp_max_udp_payload_size := v\<rparr>"
| "set_int InitialMaxData v p = p\<lparr>tp_initial_max_data := v\<rparr>"
| "set_int InitialMaxStreamDataBidiLocal v p = p\<lparr>tp_initial_max_stream_data_bidi_local := v\<rparr>"
| "set_int InitialMaxStreamDataBidiRemote v p = p\<lparr>tp_initial_max_stream_data_bidi_remote := v\<rparr>"
| "set_int InitialMaxStreamDataUni v p = p\<lparr>tp_initial_max_stream_data_uni := v\<rparr>"
| "set_int InitialMaxStreamsBidi v p = p\<lparr>tp_initial_max_streams_bidi := v\<rparr>"
| "set_int InitialMaxStreamsUni v p = p\<lparr>tp_initial_max_streams_uni := v\<rparr>"
| "set_int AckDelayExponent v p = p\<lparr>tp_ack_delay_exponent := v\<rparr>"
| "set_int MaxAckDelay v p = p\<lparr>tp_max_ack_delay := v\<rparr>"
| "set_int ActiveConnectionIdLimit v p = p\<lparr>tp_active_connection_id_limit := v\<rparr>"
| "set_int _ v p = p"

definition validate_resumption_from :: "transport_parameters \<Rightarrow> transport_parameters \<Rightarrow> transport_error + unit" where
  "validate_resumption_from cached p =
     (if tp_active_connection_id_limit p < tp_active_connection_id_limit cached \<or>
         tp_initial_max_data p < tp_initial_max_data cached \<or>
         tp_initial_max_stream_data_bidi_local p < tp_initial_max_stream_data_bidi_local cached \<or>
         tp_initial_max_stream_data_bidi_remote p < tp_initial_max_stream_data_bidi_remote cached \<or>
         tp_initial_max_stream_data_uni p < tp_initial_max_stream_data_uni cached \<or>
         tp_initial_max_streams_bidi p < tp_initial_max_streams_bidi cached \<or>
         tp_initial_max_streams_uni p < tp_initial_max_streams_uni cached \<or>
         (case (tp_max_datagram_frame_size cached, tp_max_datagram_frame_size p) of
            (None, _) \<Rightarrow> False | (Some _, None) \<Rightarrow> True | (Some c, Some s) \<Rightarrow> s < c) \<or>
         tp_grease_quic_bit cached \<and> \<not> tp_grease_quic_bit p
      then Inl (te_new PROTOCOL_VIOLATION ''0-RTT accepted with incompatible transport parameters'')
      else Inr ())"

definition issue_cids_limit :: "transport_parameters \<Rightarrow> nat" where
  "issue_cids_limit p = min (tp_active_connection_id_limit p) LOC_CID_COUNT"

section \<open>Writing\<close>

definition pa_wire_size :: "preferred_address \<Rightarrow> nat" where
  "pa_wire_size a = 4 + 2 + 16 + 2 + 1 + length (pa_connection_id a) + 16"

definition pa_write :: "preferred_address \<Rightarrow> packet_writer" where
  "pa_write a = wcat
     [ipv4_encode (case pa_address_v4 a of None \<Rightarrow> replicate 4 0 | Some x \<Rightarrow> fst x),
      u16_encode (case pa_address_v4 a of None \<Rightarrow> 0 | Some x \<Rightarrow> snd x),
      ipv6_encode (case pa_address_v6 a of None \<Rightarrow> replicate 16 0 | Some x \<Rightarrow> fst x),
      u16_encode (case pa_address_v6 a of None \<Rightarrow> 0 | Some x \<Rightarrow> snd x),
      u8_encode (of_nat (length (pa_connection_id a))), Some (pa_connection_id a), Some (pa_stateless_reset_token a)]"

definition rp_write :: "reserved_parameter \<Rightarrow> packet_writer" where
  "rp_write r = wcat [write_var (rp_id r), write_var (length (rp_payload r)), Some (rp_payload r)]"

definition generate_reserved_id :: "nat \<Rightarrow> nat" where
  "generate_reserved_id rand = 31 * (rand div 31) + 27"

definition write_opt :: "'a option \<Rightarrow> ('a \<Rightarrow> packet_writer) \<Rightarrow> packet_writer" where
  "write_opt x w = (case x of None \<Rightarrow> Some [] | Some y \<Rightarrow> w y)"

definition write_sized :: "nat \<Rightarrow> nat option \<Rightarrow> packet_writer \<Rightarrow> packet_writer" where
  "write_sized code len w = wcat [write_var code, (case len of None \<Rightarrow> None | Some n \<Rightarrow> write_var n), w]"

definition write_param :: "transport_parameters \<Rightarrow> tp_id \<Rightarrow> packet_writer" where
  "write_param p i =
     (case i of
        ReservedTransportParameter \<Rightarrow> write_opt (tp_grease_transport_parameter p) rp_write
      | StatelessResetToken \<Rightarrow>
          write_opt (tp_stateless_reset_token p) (\<lambda>x. write_sized (tp_code i) (Some 16) (Some x))
      | DisableActiveMigration \<Rightarrow>
          if tp_disable_active_migration p then write_sized (tp_code i) (Some 0) (Some []) else Some []
      | MaxDatagramFrameSize \<Rightarrow>
          write_opt (tp_max_datagram_frame_size p) (\<lambda>x. write_sized (tp_code i) (varint_size x) (varint_encode x))
      | PreferredAddress \<Rightarrow>
          write_opt (tp_preferred_address p) (\<lambda>x. write_sized (tp_code i) (Some (pa_wire_size x)) (pa_write x))
      | OriginalDestinationConnectionId \<Rightarrow>
          write_opt (tp_original_dst_cid p) (\<lambda>cid. write_sized (tp_code i) (Some (length cid)) (Some cid))
      | InitialSourceConnectionId \<Rightarrow>
          write_opt (tp_initial_src_cid p) (\<lambda>cid. write_sized (tp_code i) (Some (length cid)) (Some cid))
      | RetrySourceConnectionId \<Rightarrow>
          write_opt (tp_retry_src_cid p) (\<lambda>cid. write_sized (tp_code i) (Some (length cid)) (Some cid))
      | GreaseQuicBit \<Rightarrow>
          if tp_grease_quic_bit p then write_sized (tp_code i) (Some 0) (Some []) else Some []
      | MinAckDelayDraft07 \<Rightarrow>
          write_opt (tp_min_ack_delay p) (\<lambda>x. write_sized (tp_code i) (varint_size x) (varint_encode x))
      | _ \<Rightarrow>
          (case int_default i of
             Some d \<Rightarrow>
               if get_int i p \<noteq> d then
                 write_sized (tp_code i) (varint_size (get_int i p)) (varint_encode (get_int i p))
               else Some []
           | None \<Rightarrow> None))"

definition tp_write :: "transport_parameters \<Rightarrow> packet_writer" where
  "tp_write p =
     (let ids = (case tp_write_order p of Some order \<Rightarrow> order | None \<Rightarrow> [0..<length SUPPORTED]) in
      wcat (map (\<lambda>idx. write_param p (SUPPORTED ! idx)) ids))"

section \<open>Reading\<close>

datatype tp_error = TpIllegalValue | TpMalformed

fun tp_error_transport :: "tp_error \<Rightarrow> transport_error" where
  "tp_error_transport TpIllegalValue = te_new TRANSPORT_PARAMETER_ERROR ''illegal value''"
| "tp_error_transport TpMalformed = te_new TRANSPORT_PARAMETER_ERROR ''malformed''"

definition addr_option :: "bytes \<Rightarrow> nat \<Rightarrow> socket_addr option" where
  "addr_option ip port = (if list_all (\<lambda>b. b = 0) ip \<and> port = 0 then None else Some (ip, port))"

definition pa_read :: "(tp_error, preferred_address) parser" where
  "pa_read =
     pbind (ptry TpMalformed ipv4_decode) (\<lambda>ip_v4.
     pbind (ptry TpMalformed u16_decode) (\<lambda>port_v4.
     pbind (ptry TpMalformed ipv6_decode) (\<lambda>ip_v6.
     pbind (ptry TpMalformed u16_decode) (\<lambda>port_v6.
     pbind (ptry TpMalformed u8_decode) (\<lambda>cid_len.
     if MAX_CID_SIZE < unat cid_len then pfail TpMalformed
     else pbind (ptry TpMalformed (take_bytes (unat cid_len))) (\<lambda>cid.
     pbind (ptry TpMalformed (take_bytes 16)) (\<lambda>token.
     let address_v4 = addr_option ip_v4 port_v4; address_v6 = addr_option ip_v6 port_v6 in
     if address_v4 = None \<and> address_v6 = None then pfail TpIllegalValue
     else preturn \<lparr>pa_address_v4 = address_v4, pa_address_v6 = address_v6, pa_connection_id = cid,
       pa_stateless_reset_token = token\<rparr>)))))))"

type_synonym tp_state = "transport_parameters \<times> (tp_id \<Rightarrow> bool)"

definition decode_cid :: "nat \<Rightarrow> connection_id option \<Rightarrow> (tp_error, connection_id) parser" where
  "decode_cid len old =
     (if MAX_CID_SIZE < len \<or> old \<noteq> None then pfail TpMalformed else ptry TpMalformed (take_bytes len))"

definition read_param :: "tp_id \<Rightarrow> nat \<Rightarrow> tp_state \<Rightarrow> (tp_error, tp_state) parser" where
  "read_param i len st =
     (let p = fst st; got = snd st in
      case i of
        OriginalDestinationConnectionId \<Rightarrow>
          pbind (decode_cid len (tp_original_dst_cid p)) (\<lambda>c. preturn (p\<lparr>tp_original_dst_cid := Some c\<rparr>, got))
      | StatelessResetToken \<Rightarrow>
          if len \<noteq> 16 \<or> tp_stateless_reset_token p \<noteq> None then pfail TpMalformed
          else pbind (ptry TpMalformed (take_bytes RESET_TOKEN_SIZE))
            (\<lambda>t. preturn (p\<lparr>tp_stateless_reset_token := Some t\<rparr>, got))
      | DisableActiveMigration \<Rightarrow>
          if len \<noteq> 0 \<or> tp_disable_active_migration p then pfail TpMalformed
          else preturn (p\<lparr>tp_disable_active_migration := True\<rparr>, got)
      | PreferredAddress \<Rightarrow>
          if tp_preferred_address p \<noteq> None then pfail TpMalformed
          else (\<lambda>r. case pa_read (take len r) of
              Inl e \<Rightarrow> Inl e
            | Inr (a, unread) \<Rightarrow> Inr ((p\<lparr>tp_preferred_address := Some a\<rparr>, got), unread @ drop len r))
      | InitialSourceConnectionId \<Rightarrow>
          pbind (decode_cid len (tp_initial_src_cid p)) (\<lambda>c. preturn (p\<lparr>tp_initial_src_cid := Some c\<rparr>, got))
      | RetrySourceConnectionId \<Rightarrow>
          pbind (decode_cid len (tp_retry_src_cid p)) (\<lambda>c. preturn (p\<lparr>tp_retry_src_cid := Some c\<rparr>, got))
      | MaxDatagramFrameSize \<Rightarrow>
          if 8 < len \<or> tp_max_datagram_frame_size p \<noteq> None then pfail TpMalformed
          else pbind (ptry TpMalformed varint_decode) (\<lambda>v. preturn (p\<lparr>tp_max_datagram_frame_size := Some v\<rparr>, got))
      | GreaseQuicBit \<Rightarrow>
          if len = 0 then preturn (p\<lparr>tp_grease_quic_bit := True\<rparr>, got) else pfail TpMalformed
      | MinAckDelayDraft07 \<Rightarrow>
          pbind (ptry TpMalformed varint_decode) (\<lambda>v. preturn (p\<lparr>tp_min_ack_delay := Some v\<rparr>, got))
      | _ \<Rightarrow>
          (case int_default i of
             Some _ \<Rightarrow>
               pbind (ptry TpMalformed varint_decode) (\<lambda>v.
                 if varint_size v \<noteq> Some len \<or> got i then pfail TpMalformed
                 else preturn (set_int i v p, got(i := True)))
           | None \<Rightarrow> pbind (ptry TpMalformed (take_bytes len)) (\<lambda>_. preturn (p, got))))"

lemma shrinks_decode_cid [intro!]: "shrinks (decode_cid len old)"
  unfolding decode_cid_def by (intro shrinks_if) auto

lemma shrinks_pa_read: "shrinks pa_read"
  unfolding pa_read_def Let_def by (intro shrinks_pbind shrinks_if) auto

lemma shrinks_preferred:
  "shrinks (\<lambda>r. case pa_read (take len r) of Inl e \<Rightarrow> Inl e | Inr (a, unread) \<Rightarrow> Inr (f a, unread @ drop len r))"
  using shrinks_pa_read unfolding shrinks_def by (fastforce split: sum.splits)

lemma shrinks_read_param: "shrinks (read_param i len st)"
  unfolding read_param_def Let_def
  by (cases i) (auto simp only: tp_id.case int_default.simps option.case intro!: shrinks_if shrinks_pbind shrinks_preferred)

lemma read_param_shorter: "read_param i len st r = Inr (st', r') \<Longrightarrow> length r' \<le> length r"
  using shrinks_read_param unfolding shrinks_def by blast

function read_params :: "tp_state \<Rightarrow> bytes \<Rightarrow> tp_error + transport_parameters" where
  "read_params st r =
     (if r = [] then Inr (fst st)
      else
        case get_var r of
          None \<Rightarrow> Inl TpMalformed
        | Some (code, r1) \<Rightarrow>
            case get_var r1 of
              None \<Rightarrow> Inl TpMalformed
            | Some (len, r2) \<Rightarrow>
                if length r2 < len then Inl TpMalformed
                else
                  case tp_try_from code of
                    None \<Rightarrow> read_params st (drop len r2)
                  | Some i \<Rightarrow>
                      case read_param i len st r2 of
                        Inl e \<Rightarrow> Inl e
                      | Inr (st', r3) \<Rightarrow> read_params st' r3)"
  by pat_completeness auto
termination
proof (relation "measure (length \<circ> snd)")
qed (auto dest!: var_codec.decode_shorter read_param_shorter)

declare read_params.simps [simp del]

definition tp_illegal :: "side \<Rightarrow> transport_parameters \<Rightarrow> bool" where
  "tp_illegal side p \<longleftrightarrow>
     20 < tp_ack_delay_exponent p \<or> 2 ^ 14 \<le> tp_max_ack_delay p \<or> tp_active_connection_id_limit p < 2 \<or>
     tp_max_udp_payload_size p < 1200 \<or> MAX_STREAM_COUNT < tp_initial_max_streams_bidi p \<or>
     MAX_STREAM_COUNT < tp_initial_max_streams_uni p \<or>
     (case tp_min_ack_delay p of None \<Rightarrow> False | Some d \<Rightarrow> tp_max_ack_delay p * 1000 < d) \<or>
     side = Server \<and> (tp_original_dst_cid p \<noteq> None \<or> tp_preferred_address p \<noteq> None \<or> tp_retry_src_cid p \<noteq> None \<or>
       tp_stateless_reset_token p \<noteq> None) \<or>
     (case tp_preferred_address p of None \<Rightarrow> False | Some a \<Rightarrow> pa_connection_id a = [])"

definition tp_read :: "side \<Rightarrow> bytes \<Rightarrow> tp_error + transport_parameters" where
  "tp_read side r =
     (case read_params (tp_default, \<lambda>_. False) r of
        Inl e \<Rightarrow> Inl e
      | Inr p \<Rightarrow> if tp_illegal side p then Inl TpIllegalValue else Inr p)"

section \<open>What is written is read back\<close>

text \<open>Parameters that can be written: every value fits its encoding.\<close>

definition addr_ok :: "nat \<Rightarrow> socket_addr option \<Rightarrow> bool" where
  "addr_ok n a = (case a of None \<Rightarrow> True
     | Some (ip, port) \<Rightarrow> length ip = n \<and> port < 65536 \<and> \<not> (list_all (\<lambda>b. b = 0) ip \<and> port = 0))"

definition pa_ok :: "preferred_address \<Rightarrow> bool" where
  "pa_ok a \<longleftrightarrow> addr_ok 4 (pa_address_v4 a) \<and> addr_ok 16 (pa_address_v6 a) \<and>
     (pa_address_v4 a \<noteq> None \<or> pa_address_v6 a \<noteq> None) \<and> length (pa_connection_id a) \<le> MAX_CID_SIZE \<and>
     length (pa_stateless_reset_token a) = 16"

definition holds :: "('a \<Rightarrow> bool) \<Rightarrow> 'a option \<Rightarrow> bool" where
  "holds P x = (case x of None \<Rightarrow> True | Some y \<Rightarrow> P y)"

abbreviation cid_ok :: "connection_id option \<Rightarrow> bool" where
  "cid_ok \<equiv> holds (\<lambda>c. length c \<le> MAX_CID_SIZE)"

definition tp_ok :: "transport_parameters \<Rightarrow> bool" where
  "tp_ok p \<longleftrightarrow> list_all (\<lambda>i. is_varint (get_int i p)) SUPPORTED \<and>
     holds is_varint (tp_max_datagram_frame_size p) \<and> holds is_varint (tp_min_ack_delay p) \<and>
     cid_ok (tp_initial_src_cid p) \<and> cid_ok (tp_original_dst_cid p) \<and> cid_ok (tp_retry_src_cid p) \<and>
     holds (\<lambda>t. length t = RESET_TOKEN_SIZE) (tp_stateless_reset_token p) \<and> holds pa_ok (tp_preferred_address p) \<and>
     holds (\<lambda>g. is_varint (rp_id g) \<and> rp_id g mod 31 = 27 \<and> length (rp_payload g) < 2 ^ 62)
       (tp_grease_transport_parameter p) \<and>
     holds (\<lambda>order. distinct order \<and> set order = {0..<length SUPPORTED}) (tp_write_order p)"

lemma SUPPORTED_all: "set SUPPORTED = UNIV" "distinct SUPPORTED" "length SUPPORTED = 21"
proof -
  have "i \<in> set SUPPORTED" for i by (cases i) (simp_all add: SUPPORTED_def)
  then show "set SUPPORTED = UNIV" by blast
qed (simp_all add: SUPPORTED_def)

lemma tp_try_from_code [simp]: "tp_try_from (tp_code i) = Some i"
  by (cases i) (simp_all add: tp_try_from_def SUPPORTED_def)

lemma tp_try_from_SomeD: "tp_try_from v = Some i \<Longrightarrow> tp_code i = v"
  by (auto simp: tp_try_from_def find_Some_iff)

lemma tp_code_varint [simp]: "is_varint (tp_code i)"
  by (cases i) (simp_all add: is_varint_iff)

text \<open>A reserved identifier is none of the other parameters.\<close>

lemma reserved_id: "v mod 31 = 27 \<Longrightarrow> tp_try_from v \<in> {None, Some ReservedTransportParameter}"
proof (cases "tp_try_from v")
  case (Some i)
  assume "v mod 31 = 27"
  with tp_try_from_SomeD [OF Some] Some show ?thesis by (cases i) auto
qed simp

lemma write_sized_bytes:
  "is_varint code \<Longrightarrow> is_varint (length payload) \<Longrightarrow>
    write_sized code (Some (length payload)) (Some payload) = Some (var_bytes code @ var_bytes (length payload) @ payload)"
  by (simp add: write_sized_def write_var_bytes)

lemma read_params_unknown:
  assumes "is_varint code" "is_varint (length payload)" "tp_try_from code = None"
  shows "read_params st (var_bytes code @ var_bytes (length payload) @ payload @ rest) = read_params st rest"
  using assms by (subst read_params.simps) (simp add: get_var_bytes)

lemma read_params_known:
  assumes "is_varint (length payload)" "read_param i (length payload) st (payload @ rest) = Inr (st', rest)"
  shows "read_params st (var_bytes (tp_code i) @ var_bytes (length payload) @ payload @ rest) = read_params st' rest"
  using assms by (subst read_params.simps) (simp add: get_var_bytes)

text \<open>The parameters read when those in \<open>D\<close> have been read.\<close>

definition pick :: "tp_id set \<Rightarrow> transport_parameters \<Rightarrow> transport_parameters" where
  "pick D p = \<lparr>tp_max_idle_timeout = (if MaxIdleTimeout \<in> D then tp_max_idle_timeout p else 0),
     tp_max_udp_payload_size = (if MaxUdpPayloadSize \<in> D then tp_max_udp_payload_size p else 65527),
     tp_initial_max_data = (if InitialMaxData \<in> D then tp_initial_max_data p else 0),
     tp_initial_max_stream_data_bidi_local =
       (if InitialMaxStreamDataBidiLocal \<in> D then tp_initial_max_stream_data_bidi_local p else 0),
     tp_initial_max_stream_data_bidi_remote =
       (if InitialMaxStreamDataBidiRemote \<in> D then tp_initial_max_stream_data_bidi_remote p else 0),
     tp_initial_max_stream_data_uni = (if InitialMaxStreamDataUni \<in> D then tp_initial_max_stream_data_uni p else 0),
     tp_initial_max_streams_bidi = (if InitialMaxStreamsBidi \<in> D then tp_initial_max_streams_bidi p else 0),
     tp_initial_max_streams_uni = (if InitialMaxStreamsUni \<in> D then tp_initial_max_streams_uni p else 0),
     tp_ack_delay_exponent = (if AckDelayExponent \<in> D then tp_ack_delay_exponent p else 3),
     tp_max_ack_delay = (if MaxAckDelay \<in> D then tp_max_ack_delay p else 25),
     tp_active_connection_id_limit = (if ActiveConnectionIdLimit \<in> D then tp_active_connection_id_limit p else 2),
     tp_disable_active_migration = (DisableActiveMigration \<in> D \<and> tp_disable_active_migration p),
     tp_max_datagram_frame_size = (if MaxDatagramFrameSize \<in> D then tp_max_datagram_frame_size p else None),
     tp_initial_src_cid = (if InitialSourceConnectionId \<in> D then tp_initial_src_cid p else None),
     tp_grease_quic_bit = (GreaseQuicBit \<in> D \<and> tp_grease_quic_bit p),
     tp_min_ack_delay = (if MinAckDelayDraft07 \<in> D then tp_min_ack_delay p else None),
     tp_original_dst_cid = (if OriginalDestinationConnectionId \<in> D then tp_original_dst_cid p else None),
     tp_retry_src_cid = (if RetrySourceConnectionId \<in> D then tp_retry_src_cid p else None),
     tp_stateless_reset_token = (if StatelessResetToken \<in> D then tp_stateless_reset_token p else None),
     tp_preferred_address = (if PreferredAddress \<in> D then tp_preferred_address p else None),
     tp_grease_transport_parameter = None, tp_write_order = None\<rparr>"

definition seen :: "tp_id set \<Rightarrow> transport_parameters \<Rightarrow> tp_id \<Rightarrow> bool" where
  "seen D p i \<longleftrightarrow> i \<in> D \<and> (case int_default i of Some d \<Rightarrow> get_int i p \<noteq> d | None \<Rightarrow> False)"

abbreviation reads :: "transport_parameters \<Rightarrow> tp_id \<Rightarrow> tp_id set \<Rightarrow> bool" where
  "reads p i D \<equiv> \<exists>bs. write_param p i = Some bs \<and> (\<forall>rest. read_params (pick D p, seen D p) (bs @ rest) =
     read_params (pick (insert i D) p, seen (insert i D) p) rest)"

lemma pick_int: "int_default i \<noteq> None \<Longrightarrow> pick (insert i D) p = set_int i (get_int i p) (pick D p)"
  by (cases i) (simp_all add: pick_def)

lemma get_int_pick: "int_default i = Some d \<Longrightarrow> i \<notin> D \<Longrightarrow> get_int i p = d \<Longrightarrow> pick (insert i D) p = pick D p"
  by (cases i) (auto simp: pick_def)

lemma seen_insert:
  "seen (insert i D) p = (case int_default i of None \<Rightarrow> seen D p
     | Some d \<Rightarrow> if get_int i p = d then (seen D p)(i := False) else (seen D p)(i := True))"
  by (rule ext) (auto simp: seen_def split: option.splits)

lemma seen_other [simp]: "int_default i = None \<Longrightarrow> seen (insert i D) p = seen D p"
  by (simp add: seen_insert)

lemma reads_absent:
  "write_param p i = Some [] \<Longrightarrow> pick (insert i D) p = pick D p \<Longrightarrow> seen (insert i D) p = seen D p \<Longrightarrow> reads p i D"
  by simp

lemma reads_present:
  assumes "write_param p i = write_sized (tp_code i) (Some (length payload)) (Some payload)" "is_varint (length payload)"
    "\<And>rest. read_param i (length payload) (pick D p, seen D p) (payload @ rest) =
       Inr ((pick (insert i D) p, seen (insert i D) p), rest)"
  shows "reads p i D"
  using assms write_sized_bytes [OF tp_code_varint, of payload i] read_params_known [OF assms(2,3)] by simp

lemma is_varint_small [simp]: "n < 64 \<Longrightarrow> is_varint n"
  by (simp add: is_varint_iff)

lemma varint_encode_bytes: "is_varint v \<Longrightarrow> varint_encode v = Some (var_bytes v)"
  using write_var_bytes [of v] write_var_valid [of v] by simp

lemma varint_decode_bytes: "is_varint v \<Longrightarrow> varint_decode (var_bytes v @ rest) = Some (v, rest)"
  using get_var_bytes [of v rest] by (simp add: get_var_def)

lemma pbind_decoded:
  "is_varint v \<Longrightarrow> pbind (ptry e varint_decode) f (var_bytes v @ rest) = f v rest"
  "length xs = n \<Longrightarrow> pbind (ptry e (take_bytes n)) g (xs @ rest) = g xs rest"
  "length xs = 4 \<Longrightarrow> pbind (ptry e ipv4_decode) g (xs @ rest) = g xs rest"
  "length xs = 16 \<Longrightarrow> pbind (ptry e ipv6_decode) g (xs @ rest) = g xs rest"
  "v < 65536 \<Longrightarrow> pbind (ptry e u16_decode) f (be_bytes 2 v @ rest) = f v rest"
  "pbind (ptry e u8_decode) h (b # rest) = h b rest"
  by (simp_all add: pbind_def ptry_def varint_decode_bytes ipv4_decode_def ipv6_decode_def u16_decode_def u8_decode_def
      del: be_bytes.simps)

lemma reads_int:
  assumes "tp_ok p" "i \<notin> D" "int_default i = Some d"
  shows "reads p i D"
proof -
  let ?v = "get_int i p"
  have v: "is_varint ?v" using assms(1) SUPPORTED_all(1) by (simp add: tp_ok_def list_all_iff)
  have cases: "(case i of ReservedTransportParameter \<Rightarrow> a | StatelessResetToken \<Rightarrow> b | DisableActiveMigration \<Rightarrow> c
      | MaxDatagramFrameSize \<Rightarrow> x1 | PreferredAddress \<Rightarrow> e | OriginalDestinationConnectionId \<Rightarrow> f
      | InitialSourceConnectionId \<Rightarrow> g | RetrySourceConnectionId \<Rightarrow> h | GreaseQuicBit \<Rightarrow> j | MinAckDelayDraft07 \<Rightarrow> k
      | _ \<Rightarrow> z) = z" for a b c x1 e f g h j k z and dummy :: nat
    using assms(3) by (cases i) simp_all
  show ?thesis
  proof (cases "?v = d")
    case True
    then have "write_param p i = Some []" using assms(3) unfolding write_param_def cases by simp
    then show ?thesis
      using True assms(2,3) get_int_pick by (intro reads_absent) (auto simp: seen_insert seen_def fun_eq_iff)
  next
    case False
    let ?b = "var_bytes ?v"
    have len: "varint_size ?v = Some (length ?b)" using v by (rule varint_size_bytes)
    have "length ?b \<le> 8" using v by (rule length_var_bytes_le)
    show ?thesis
    proof (rule reads_present [where payload = ?b])
      show "write_param p i = write_sized (tp_code i) (Some (length ?b)) (Some ?b)"
        using False assms(3) v len unfolding write_param_def cases by (simp add: varint_encode_bytes)
      show "is_varint (length ?b)" using \<open>length ?b \<le> 8\<close> by simp
      show "read_param i (length ?b) (pick D p, seen D p) (?b @ rest) =
          Inr ((pick (insert i D) p, seen (insert i D) p), rest)" for rest
        using False assms(2,3) v len pick_int [of i D p]
        by (cases i) (simp_all add: read_param_def Let_def pbind_decoded seen_insert, simp_all add: seen_def)
    qed
  qed
qed

lemma reads_cid:
  assumes "holds (\<lambda>c. length c \<le> MAX_CID_SIZE) x" "int_default i = None"
    "write_param p i = write_opt x (\<lambda>cid. write_sized (tp_code i) (Some (length cid)) (Some cid))"
    "x = None \<Longrightarrow> pick (insert i D) p = pick D p"
    "\<And>c rest. x = Some c \<Longrightarrow> read_param i (length c) (pick D p, seen D p) (c @ rest) =
      Inr ((pick (insert i D) p, seen (insert i D) p), rest)"
  shows "reads p i D"
proof (cases x)
  case None
  then show ?thesis using assms by (intro reads_absent) (simp_all add: write_opt_def)
next
  case (Some c)
  then have "is_varint (length c)" using assms(1) by (simp add: holds_def MAX_CID_SIZE_def)
  then show ?thesis using assms(3,5) Some by (intro reads_present [where payload = c]) (simp_all add: write_opt_def)
qed

lemma reads_varint:
  assumes "holds is_varint x" "int_default i = None"
    "write_param p i = write_opt x (\<lambda>v. write_sized (tp_code i) (varint_size v) (varint_encode v))"
    "x = None \<Longrightarrow> pick (insert i D) p = pick D p"
    "\<And>v rest. x = Some v \<Longrightarrow> is_varint v \<Longrightarrow> length (var_bytes v) \<le> 8 \<Longrightarrow>
      read_param i (length (var_bytes v)) (pick D p, seen D p) (var_bytes v @ rest) =
      Inr ((pick (insert i D) p, seen (insert i D) p), rest)"
  shows "reads p i D"
proof (cases x)
  case None
  then show ?thesis using assms by (intro reads_absent) (simp_all add: write_opt_def)
next
  case (Some v)
  then have v: "is_varint v" using assms(1) by (simp add: holds_def)
  then have "length (var_bytes v) \<le> 8" by (rule length_var_bytes_le)
  then show ?thesis
    using assms(3,5) Some v
    by (intro reads_present [where payload = "var_bytes v"]) (simp_all add: write_opt_def varint_size_bytes varint_encode_bytes)
qed

text \<open>The preferred address.\<close>

lemma addr_option_written:
  "addr_ok n a \<Longrightarrow> addr_option (case a of None \<Rightarrow> replicate n 0 | Some x \<Rightarrow> fst x) (case a of None \<Rightarrow> 0 | Some x \<Rightarrow> snd x) = a"
  by (auto simp: addr_option_def addr_ok_def list_all_iff split: option.splits)

lemma pa_roundtrip:
  assumes "pa_ok a"
  shows "\<exists>bs. pa_write a = Some bs \<and> length bs = pa_wire_size a \<and> pa_read bs = Inr (a, [])"
proof -
  let ?ip4 = "case pa_address_v4 a of None \<Rightarrow> replicate 4 0 | Some x \<Rightarrow> fst x"
  let ?p4 = "case pa_address_v4 a of None \<Rightarrow> 0 | Some x \<Rightarrow> snd x"
  let ?ip6 = "case pa_address_v6 a of None \<Rightarrow> replicate 16 0 | Some x \<Rightarrow> fst x"
  let ?p6 = "case pa_address_v6 a of None \<Rightarrow> 0 | Some x \<Rightarrow> snd x"
  let ?cid = "pa_connection_id a" and ?tok = "pa_stateless_reset_token a"
  have len: "length ?ip4 = 4" "length ?ip6 = 16" "?p4 < 65536" "?p6 < 65536" "length ?cid \<le> 20" "length ?tok = 16"
    using assms by (auto simp: pa_ok_def addr_ok_def MAX_CID_SIZE_def split: option.splits)
  have addr: "addr_option ?ip4 ?p4 = pa_address_v4 a" "addr_option ?ip6 ?p6 = pa_address_v6 a"
    using assms addr_option_written by (auto simp: pa_ok_def)
  have cid: "unat (of_nat (length ?cid) :: u8) = length ?cid" using len(5) by (simp add: unat_of_nat)
  let ?bs = "?ip4 @ be_bytes 2 ?p4 @ ?ip6 @ be_bytes 2 ?p6 @ [of_nat (length ?cid)] @ ?cid @ ?tok"
  have w: "pa_write a = Some ?bs"
    using len by (simp add: pa_write_def ipv4_encode_def ipv6_encode_def u16_encode_def u8_encode_def put_uint_def del: be_bytes.simps)
  have "pa_read (?bs @ []) = Inr (a, [])"
    unfolding pa_read_def append_assoc using len addr assms
    by (simp add: pbind_decoded cid MAX_CID_SIZE_def pa_ok_def Let_def del: append_Nil2 be_bytes.simps)
  then have r: "pa_read ?bs = Inr (a, [])" by simp
  show ?thesis using w r len by (simp add: pa_wire_size_def)
qed

lemma reads_preferred:
  assumes "holds pa_ok (tp_preferred_address p)" "PreferredAddress \<notin> D"
  shows "reads p PreferredAddress D"
proof (cases "tp_preferred_address p")
  case None
  then show ?thesis by (intro reads_absent) (simp_all add: write_param_def write_opt_def pick_def)
next
  case (Some a)
  then obtain bs where bs: "pa_write a = Some bs" "length bs = pa_wire_size a" "pa_read bs = Inr (a, [])"
    using assms(1) pa_roundtrip by (auto simp: holds_def)
  have "length (pa_connection_id a) \<le> 20" using assms(1) Some by (simp add: holds_def pa_ok_def MAX_CID_SIZE_def)
  then have "is_varint (length bs)" using bs(2) by (simp add: pa_wire_size_def)
  moreover have "pick (insert PreferredAddress D) p = (pick D p)\<lparr>tp_preferred_address := Some a\<rparr>"
    "tp_preferred_address (pick D p) = None"
    using Some assms(2) by (simp_all add: pick_def)
  ultimately show ?thesis
    using Some bs by (intro reads_present [where payload = bs]) (simp_all add: write_param_def write_opt_def read_param_def)
qed

lemma reads_grease:
  assumes "tp_ok p"
  shows "reads p ReservedTransportParameter D"
proof (cases "tp_grease_transport_parameter p")
  case None
  then show ?thesis by (intro reads_absent) (simp_all add: write_param_def write_opt_def pick_def)
next
  case (Some g)
  let ?b = "rp_payload g"
  have g: "is_varint (rp_id g)" "rp_id g mod 31 = 27" "is_varint (length ?b)"
    using assms Some by (simp_all add: tp_ok_def holds_def is_varint_iff)
  have w: "write_param p ReservedTransportParameter = Some (var_bytes (rp_id g) @ var_bytes (length ?b) @ ?b)"
    using Some g by (simp add: write_param_def write_opt_def rp_write_def write_var_bytes)
  have same: "pick (insert ReservedTransportParameter D) p = pick D p" by (simp add: pick_def)
  consider "tp_try_from (rp_id g) = None" | "tp_try_from (rp_id g) = Some ReservedTransportParameter"
    using reserved_id [OF g(2)] by auto
  then show ?thesis
  proof cases
    case 1
    then show ?thesis using w same read_params_unknown [OF g(1,3)] by simp
  next
    case 2
    then have "rp_id g = tp_code ReservedTransportParameter" using tp_try_from_SomeD [OF 2] by simp
    moreover have "read_param ReservedTransportParameter (length ?b) (pick D p, seen D p) (?b @ rest) =
        Inr ((pick D p, seen D p), rest)" for rest
      by (simp add: read_param_def Let_def pbind_decoded)
    then have "read_params (pick D p, seen D p)
        (var_bytes (tp_code ReservedTransportParameter) @ var_bytes (length ?b) @ ?b @ rest) =
        read_params (pick D p, seen D p) rest" for rest
      by (rule read_params_known [OF g(3)])
    ultimately show ?thesis using w same by simp
  qed
qed

lemma reads_param:
  assumes "tp_ok p" "i \<notin> D"
  shows "reads p i D"
proof (cases "int_default i")
  case (Some d)
  then show ?thesis using assms reads_int by blast
next
  case None
  note ok = assms(1) [unfolded tp_ok_def]
  from None show ?thesis
  proof (cases i)
    case OriginalDestinationConnectionId
    show ?thesis
      by (rule reads_cid [of "tp_original_dst_cid p"], insert ok assms(2))
        (auto simp: OriginalDestinationConnectionId write_param_def read_param_def Let_def decode_cid_def pbind_decoded holds_def pick_def)
  next
    case InitialSourceConnectionId
    show ?thesis
      by (rule reads_cid [of "tp_initial_src_cid p"], insert ok assms(2))
        (auto simp: InitialSourceConnectionId write_param_def read_param_def Let_def decode_cid_def pbind_decoded holds_def pick_def)
  next
    case RetrySourceConnectionId
    show ?thesis
      by (rule reads_cid [of "tp_retry_src_cid p"], insert ok assms(2))
        (auto simp: RetrySourceConnectionId write_param_def read_param_def Let_def decode_cid_def pbind_decoded holds_def pick_def)
  next
    case MaxDatagramFrameSize
    show ?thesis
      by (rule reads_varint [of "tp_max_datagram_frame_size p"], insert ok assms(2))
        (auto simp: MaxDatagramFrameSize write_param_def read_param_def Let_def pbind_decoded pick_def)
  next
    case MinAckDelayDraft07
    show ?thesis
      by (rule reads_varint [of "tp_min_ack_delay p"], insert ok assms(2))
        (auto simp: MinAckDelayDraft07 write_param_def read_param_def Let_def pbind_decoded pick_def)
  next
    case StatelessResetToken
    show ?thesis
    proof (cases "tp_stateless_reset_token p")
      case None
      then show ?thesis
        unfolding StatelessResetToken by (intro reads_absent) (simp_all add: write_param_def write_opt_def pick_def)
    next
      case (Some t)
      then have "length t = 16" using ok by (simp add: holds_def RESET_TOKEN_SIZE_def)
      then show ?thesis
        unfolding StatelessResetToken using Some assms(2) StatelessResetToken
        by (intro reads_present [where payload = t])
          (simp_all add: write_param_def write_opt_def read_param_def Let_def pbind_decoded RESET_TOKEN_SIZE_def pick_def)
    qed
  next
    case DisableActiveMigration
    show ?thesis
    proof (cases "tp_disable_active_migration p")
      case False
      then show ?thesis
        unfolding DisableActiveMigration by (intro reads_absent) (simp_all add: write_param_def write_opt_def pick_def)
    next
      case True
      then show ?thesis
        unfolding DisableActiveMigration using assms(2) DisableActiveMigration
        by (intro reads_present [where payload = "[]"]) (simp_all add: write_param_def read_param_def Let_def pick_def)
    qed
  next
    case GreaseQuicBit
    show ?thesis
    proof (cases "tp_grease_quic_bit p")
      case False
      then show ?thesis
        unfolding GreaseQuicBit by (intro reads_absent) (simp_all add: write_param_def write_opt_def pick_def)
    next
      case True
      then show ?thesis
        unfolding GreaseQuicBit using assms(2) GreaseQuicBit
        by (intro reads_present [where payload = "[]"]) (simp_all add: write_param_def read_param_def Let_def pick_def)
    qed
  qed (use assms ok reads_preferred reads_grease in simp_all)
qed

lemma reads_list:
  "tp_ok p \<Longrightarrow> distinct ids \<Longrightarrow> set ids \<inter> D = {} \<Longrightarrow>
    \<exists>bs. wcat (map (write_param p) ids) = Some bs \<and>
      (\<forall>rest. read_params (pick D p, seen D p) (bs @ rest) = read_params (pick (set ids \<union> D) p, seen (set ids \<union> D) p) rest)"
proof (induction ids arbitrary: D)
  case (Cons i ids)
  obtain a where a: "write_param p i = Some a" "\<forall>rest. read_params (pick D p, seen D p) (a @ rest) =
      read_params (pick (insert i D) p, seen (insert i D) p) rest"
    using reads_param [of p i D] Cons.prems by auto
  obtain b where b: "wcat (map (write_param p) ids) = Some b" "\<forall>rest. read_params (pick (insert i D) p, seen (insert i D) p) (b @ rest) =
      read_params (pick (set ids \<union> insert i D) p, seen (set ids \<union> insert i D) p) rest"
    using Cons.IH [of "insert i D"] Cons.prems by auto
  show ?case using a b by (intro exI [of _ "a @ b"]) simp
qed simp

text \<open>
  C13: Transport parameters survive the handshake. Whatever order the parameters are written in and whatever
  reserved parameter is mixed in, reading them back yields the same parameters (without the order and the
  reserved one), provided they are legal for the reading side.
\<close>

theorem transport_parameters_round_trip:
  assumes "tp_ok p" "\<not> tp_illegal side p"
  shows "\<exists>bs. tp_write p = Some bs \<and>
    tp_read side bs = Inr (p\<lparr>tp_grease_transport_parameter := None, tp_write_order := None\<rparr>)"
proof -
  define order where "order = (case tp_write_order p of Some order \<Rightarrow> order | None \<Rightarrow> [0..<length SUPPORTED])"
  define ids where "ids = map ((!) SUPPORTED) order"
  have order: "distinct order" "set order = {0..<length SUPPORTED}"
    using assms(1) by (auto simp: tp_ok_def holds_def order_def split: option.splits)
  have "set ids = UNIV" using order(2) SUPPORTED_all(1) nth_image [of "length SUPPORTED" SUPPORTED]
    by (simp add: ids_def)
  moreover have "distinct ids"
    using order SUPPORTED_all(2) by (auto simp: ids_def distinct_map inj_on_def nth_eq_iff_index_eq)
  ultimately obtain bs where bs: "wcat (map (write_param p) ids) = Some bs"
    "\<forall>rest. read_params (pick {} p, seen {} p) (bs @ rest) = read_params (pick UNIV p, seen UNIV p) rest"
    using reads_list [OF assms(1), of ids "{}"] by auto
  have "tp_write p = Some bs" using bs(1) by (simp add: tp_write_def ids_def order_def o_def)
  moreover have "pick {} p = tp_default" "seen {} p = (\<lambda>_. False)"
    "pick UNIV p = p\<lparr>tp_grease_transport_parameter := None, tp_write_order := None\<rparr>"
    by (simp_all add: pick_def tp_default_def seen_def fun_eq_iff)
  moreover have "read_params st [] = Inr (fst st)" for st by (subst read_params.simps) simp
  moreover have "\<not> tp_illegal side (p\<lparr>tp_grease_transport_parameter := None, tp_write_order := None\<rparr>)"
    using assms(2) by (simp add: tp_illegal_def split: option.splits)
  ultimately show ?thesis using bs(2) [rule_format, of "[]"] by (simp add: tp_read_def)
qed

theorem transport_parameters_round_trip_witness:
  "\<exists>bs. tp_write (tp_default\<lparr>tp_initial_max_data := 70000\<rparr>) = Some bs \<and>
     tp_read Client bs = Inr (tp_default\<lparr>tp_initial_max_data := 70000\<rparr>)"
proof -
  have "tp_ok (tp_default\<lparr>tp_initial_max_data := 70000\<rparr>)" "\<not> tp_illegal Client (tp_default\<lparr>tp_initial_max_data := 70000\<rparr>)"
    by (simp_all add: tp_ok_def tp_default_def SUPPORTED_def holds_def is_varint_iff tp_illegal_def MAX_STREAM_COUNT_def)
  from transport_parameters_round_trip [OF this] show ?thesis by (simp add: tp_default_def)
qed

section \<open>Lengths that are not checked\<close>

text \<open>
  The declared length of \<open>min_ack_delay\<close> is never compared with the value, nor is a repetition refused, and
  the length of \<open>max_datagram_frame_size\<close> is only bounded: whatever length is declared, the value is read from the
  bytes that follow and reading goes on behind it, so the reader loses the boundary of the parameter. All integer
  parameters read by the common code refuse such a length as malformed.
\<close>

theorem parameter_length_ignored:
  assumes "is_varint v" "is_varint len" "len \<le> length (var_bytes v @ rest)"
  shows "read_params (p, got) (var_bytes (tp_code MinAckDelayDraft07) @ var_bytes len @ var_bytes v @ rest) =
      read_params (p\<lparr>tp_min_ack_delay := Some v\<rparr>, got) rest \<and>
    (len \<le> 8 \<and> tp_max_datagram_frame_size p = None \<longrightarrow>
      read_params (p, got) (var_bytes (tp_code MaxDatagramFrameSize) @ var_bytes len @ var_bytes v @ rest) =
      read_params (p\<lparr>tp_max_datagram_frame_size := Some v\<rparr>, got) rest) \<and>
    (len \<noteq> length (var_bytes v) \<longrightarrow>
      read_params (p, got) (var_bytes (tp_code MaxIdleTimeout) @ var_bytes len @ var_bytes v @ rest) = Inl TpMalformed)"
proof -
  have known: "read_params (p, got) (var_bytes (tp_code i) @ var_bytes len @ var_bytes v @ rest) =
      (case read_param i len (p, got) (var_bytes v @ rest) of Inl e \<Rightarrow> Inl e | Inr (st', r3) \<Rightarrow> read_params st' r3)" for i
    using assms by (subst read_params.simps) (simp add: get_var_bytes)
  show ?thesis
    unfolding known using assms(1) by (simp add: read_param_def Let_def pbind_decoded varint_size_bytes)
qed

theorem parameter_length_ignored_witness:
  "read_params (tp_default, \<lambda>_. False) (var_bytes (tp_code MinAckDelayDraft07) @ var_bytes 0 @ var_bytes 5 @ []) =
     read_params (tp_default\<lparr>tp_min_ack_delay := Some 5\<rparr>, \<lambda>_. False) []"
  using parameter_length_ignored [of 5 0 "[]" tp_default "\<lambda>_. False"] by simp

end
