(* ===== verification/Streams.thy ===== *)
theory Streams
  imports Stream_Recv Stream_Send Transport_Parameters "HOL-Library.Monad_Syntax"
begin

text \<open>
  \<open>quic-proto/src/connection/streams/state.rs\<close> and \<open>streams/mod.rs\<close>: all streams of a connection, their flow
  control and the application's access to them. Per-direction arrays are functions of the direction, hash maps
  are partial maps, \<open>Vec\<close>s are lists whose last element is on top. The result \<open>None\<close> is a panic (a failed
  \<open>assert!\<close>, \<open>unwrap\<close> or \<open>unreachable!\<close>); statistics counters are left out.
\<close>

section \<open>Data\<close>

subsection \<open>Queued control frames (\<open>Retransmits\<close> of \<open>spaces.rs\<close>)\<close>

record issued_cid =
  ic_sequence :: nat
  ic_id :: connection_id
  ic_reset_token :: bytes

record retransmits =
  rt_max_data :: bool
  rt_max_stream_id :: "dir \<Rightarrow> bool"
  rt_streams_blocked :: "dir \<Rightarrow> bool"
  rt_reset_stream :: "(stream_id \<times> nat) list"
  rt_stop_sending :: "stop_sending list"
  rt_max_stream_data :: "stream_id list"
  rt_crypto :: "crypto_frame list"
  rt_new_cids :: "issued_cid list"
  rt_retire_cids :: "nat list"
  rt_ack_frequency :: bool
  rt_handshake_done :: bool
  rt_new_tokens :: "socket_addr list"

definition retransmits_default :: retransmits where
  "retransmits_default = \<lparr>rt_max_data = False, rt_max_stream_id = (\<lambda>_. False), rt_streams_blocked = (\<lambda>_. False),
     rt_reset_stream = [], rt_stop_sending = [], rt_max_stream_data = [], rt_crypto = [], rt_new_cids = [],
     rt_retire_cids = [], rt_ack_frequency = False, rt_handshake_done = False, rt_new_tokens = []\<rparr>"

type_synonym thin_retransmits = "retransmits option"

definition get_or_create :: "thin_retransmits \<Rightarrow> retransmits" where
  "get_or_create t = (case t of None \<Rightarrow> retransmits_default | Some r \<Rightarrow> r)"

text \<open>A set of stream ids, in the order it is iterated.\<close>

definition id_insert :: "stream_id \<Rightarrow> stream_id list \<Rightarrow> stream_id list" where
  "id_insert i ids = (if i \<in> set ids then ids else ids @ [i])"

subsection \<open>The queue of streams with data to send\<close>

record pending_stream =
  ps_priority :: int
  ps_recency :: nat
  ps_id :: stream_id

record pending_queue =
  pq_streams :: "pending_stream list"
  pq_next :: "pending_stream option"
  pq_recency :: nat

text \<open>The derived order on \<open>PendingStream\<close>; the heap is the list in the order \<open>pop\<close> yields.\<close>

definition ps_before :: "pending_stream \<Rightarrow> pending_stream \<Rightarrow> bool" where
  "ps_before a b \<longleftrightarrow> ps_priority b < ps_priority a \<or>
     ps_priority b = ps_priority a \<and> (ps_recency b < ps_recency a \<or> ps_recency b = ps_recency a \<and> ps_id b \<le> ps_id a)"

fun ps_push :: "pending_stream \<Rightarrow> pending_stream list \<Rightarrow> pending_stream list" where
  "ps_push x [] = [x]"
| "ps_push x (y # ys) = (if ps_before y x then y # ps_push x ys else x # y # ys)"

definition pq_new :: pending_queue where
  "pq_new = \<lparr>pq_streams = [], pq_next = None, pq_recency = u64_max\<rparr>"

definition reinsert_pending :: "stream_id \<Rightarrow> int \<Rightarrow> pending_queue \<Rightarrow> pending_queue option" where
  "reinsert_pending i priority q =
     (if pq_next q \<noteq> None then None
      else Some (q\<lparr>pq_next := Some \<lparr>ps_priority = priority, ps_recency = pq_recency q, ps_id = i\<rparr>\<rparr>))"

definition push_pending :: "stream_id \<Rightarrow> int \<Rightarrow> pending_queue \<Rightarrow> pending_queue" where
  "push_pending i priority q =
     (let recency = wrapping_sub (pq_recency q) 1 in
      q\<lparr>pq_recency := recency,
        pq_streams := ps_push \<lparr>ps_priority = priority, ps_recency = recency, ps_id = i\<rparr> (pq_streams q)\<rparr>)"

definition pq_pop :: "pending_queue \<Rightarrow> pending_stream option \<times> pending_queue" where
  "pq_pop q =
     (case pq_next q of
        Some x \<Rightarrow> (Some x, q\<lparr>pq_next := None\<rparr>)
      | None \<Rightarrow> (case pq_streams q of [] \<Rightarrow> (None, q) | x # xs \<Rightarrow> (Some x, q\<lparr>pq_streams := xs\<rparr>)))"

definition pq_clear :: "pending_queue \<Rightarrow> pending_queue" where
  "pq_clear q = q\<lparr>pq_next := None, pq_streams := []\<rparr>"

definition pq_iter :: "pending_queue \<Rightarrow> pending_stream list" where
  "pq_iter q = (case pq_next q of None \<Rightarrow> [] | Some x \<Rightarrow> [x]) @ pq_streams q"

subsection \<open>The state\<close>

datatype stream_event = Opened dir | Readable stream_id | Writable stream_id | Finished stream_id
  | Stopped stream_id nat | Available dir

datatype stream_half = SendHalf | RecvHalf

datatype stream_recv = FreeRecv recv | OpenRecv recv

record streams =
  st_side :: side
  st_send :: "stream_id \<rightharpoonup> send option"
  st_recv :: "stream_id \<rightharpoonup> stream_recv option"
  st_free_recv :: "stream_recv list"
  st_next :: "dir \<Rightarrow> nat"
  st_max :: "dir \<Rightarrow> nat"
  st_max_remote :: "dir \<Rightarrow> nat"
  st_sent_max_remote :: "dir \<Rightarrow> nat"
  st_allocated_remote_count :: "dir \<Rightarrow> nat"
  st_max_concurrent_remote_count :: "dir \<Rightarrow> nat"
  st_flow_control_adjusted :: bool
  st_next_remote :: "dir \<Rightarrow> nat"
  st_opened :: "dir \<Rightarrow> bool"
  st_next_reported_remote :: "dir \<Rightarrow> nat"
  st_send_streams :: nat
  st_pending :: pending_queue
  st_events :: "stream_event list"
  st_connection_blocked :: "stream_id list"
  st_max_data :: nat
  st_receive_window :: nat
  st_local_max_data :: nat
  st_sent_max_data :: nat
  st_data_sent :: nat
  st_data_recvd :: nat
  st_unacked_data :: nat
  st_send_window :: nat
  st_stream_receive_window :: nat
  st_initial_max_stream_data_uni :: nat
  st_initial_max_stream_data_bidi_local :: nat
  st_initial_max_stream_data_bidi_remote :: nat
  st_receive_window_shrink_debt :: nat
  st_streams_blocked :: "dir \<Rightarrow> bool"

fun as_open_recv :: "stream_recv \<Rightarrow> recv option" where
  "as_open_recv (OpenRecv r) = Some r"
| "as_open_recv (FreeRecv r) = None"

fun into_inner :: "stream_recv \<Rightarrow> recv" where
  "into_inner (FreeRecv r) = r"
| "into_inner (OpenRecv r) = r"

fun recv_free :: "nat \<Rightarrow> stream_recv \<Rightarrow> stream_recv option" where
  "recv_free initial_max_data (FreeRecv r) = None"
| "recv_free initial_max_data (OpenRecv r) = Some (FreeRecv (recv_reinit initial_max_data r))"

definition get_or_insert_send :: "nat \<Rightarrow> send option \<Rightarrow> send" where
  "get_or_insert_send max_data x = (case x of None \<Rightarrow> send_new max_data | Some s \<Rightarrow> s)"

definition get_or_insert_recv :: "nat \<Rightarrow> stream_recv option \<Rightarrow> recv" where
  "get_or_insert_recv initial_max_data x = (case x of None \<Rightarrow> recv_new initial_max_data | Some s \<Rightarrow> into_inner s)"

section \<open>Creating and freeing streams\<close>

definition vec_pop :: "'a list \<Rightarrow> 'a option \<times> 'a list" where
  "vec_pop xs = (if xs = [] then (None, []) else (Some (last xs), butlast xs))"

definition streams_insert :: "bool \<Rightarrow> stream_id \<Rightarrow> streams \<Rightarrow> streams option" where
  "streams_insert remote i s =
     (let bi = (stream_id_dir i = Bi) in
      do {
        s1 \<leftarrow> (if bi \<or> \<not> remote then
                (if st_send s i \<noteq> None then None else Some (s\<lparr>st_send := (st_send s)(i \<mapsto> None)\<rparr>))
              else Some s);
        (if bi \<or> remote then
           let (r, free) = vec_pop (st_free_recv s1) in
           (if st_recv s1 i \<noteq> None then None
            else Some (s1\<lparr>st_recv := (st_recv s1)(i \<mapsto> r), st_free_recv := free\<rparr>))
         else Some s1)
      })"

fun insert_remote_range :: "dir \<Rightarrow> nat \<Rightarrow> nat \<Rightarrow> streams \<Rightarrow> streams option" where
  "insert_remote_range d start 0 s = Some s"
| "insert_remote_range d start (Suc n) s =
     do {
       s' \<leftarrow> streams_insert True (stream_id_new (side_not (st_side s)) d start) s;
       insert_remote_range d (start + 1) n s'
     }"

definition streams_new :: "side \<Rightarrow> nat \<Rightarrow> nat \<Rightarrow> nat \<Rightarrow> nat \<Rightarrow> nat \<Rightarrow> streams option" where
  "streams_new side max_remote_uni max_remote_bi send_window receive_window stream_receive_window =
     (let counts = (\<lambda>d. case d of Bi \<Rightarrow> max_remote_bi | Uni \<Rightarrow> max_remote_uni);
          this = \<lparr>st_side = side, st_send = Map.empty, st_recv = Map.empty, st_free_recv = [],
            st_next = (\<lambda>_. 0), st_max = (\<lambda>_. 0), st_max_remote = counts, st_sent_max_remote = counts,
            st_allocated_remote_count = counts, st_max_concurrent_remote_count = counts,
            st_flow_control_adjusted = False, st_next_remote = (\<lambda>_. 0), st_opened = (\<lambda>_. False),
            st_next_reported_remote = (\<lambda>_. 0), st_send_streams = 0, st_pending = pq_new, st_events = [],
            st_connection_blocked = [], st_max_data = 0, st_receive_window = receive_window,
            st_local_max_data = receive_window, st_sent_max_data = receive_window, st_data_sent = 0,
            st_data_recvd = 0, st_unacked_data = 0, st_send_window = send_window,
            st_stream_receive_window = stream_receive_window, st_initial_max_stream_data_uni = 0,
            st_initial_max_stream_data_bidi_local = 0, st_initial_max_stream_data_bidi_remote = 0,
            st_receive_window_shrink_debt = 0, st_streams_blocked = (\<lambda>_. False)\<rparr> in
      do {
        s1 \<leftarrow> insert_remote_range Bi 0 (counts Bi) this;
        insert_remote_range Uni 0 (counts Uni) s1
      })"

definition ensure_remote_streams :: "dir \<Rightarrow> streams \<Rightarrow> streams option" where
  "ensure_remote_streams d s =
     (let new_count = saturating_sub (st_max_concurrent_remote_count s d) (st_allocated_remote_count s d) in
      do {
        s' \<leftarrow> insert_remote_range d (st_max_remote s d) new_count s;
        Some (s'\<lparr>st_allocated_remote_count := (st_allocated_remote_count s')(d := st_allocated_remote_count s' d + new_count),
          st_max_remote := (st_max_remote s')(d := st_max_remote s' d + new_count)\<rparr>)
      })"

definition stream_freed :: "stream_id \<Rightarrow> stream_half \<Rightarrow> streams \<Rightarrow> streams option" where
  "stream_freed i half s =
     do {
       s1 \<leftarrow> (if stream_id_initiator i \<noteq> st_side s then
               let d = stream_id_dir i;
                   fully_free = (d = Uni \<or> (case half of SendHalf \<Rightarrow> st_recv s i = None | RecvHalf \<Rightarrow> st_send s i = None)) in
               (if fully_free then
                  ensure_remote_streams d (s\<lparr>st_allocated_remote_count :=
                    (st_allocated_remote_count s)(d := wrapping_sub (st_allocated_remote_count s d) 1)\<rparr>)
                else Some s)
             else Some s);
       Some (if half = SendHalf then s1\<lparr>st_send_streams := wrapping_sub (st_send_streams s1) 1\<rparr> else s1)
     }"

definition stream_recv_freed :: "stream_id \<Rightarrow> stream_recv \<Rightarrow> streams \<Rightarrow> streams option" where
  "stream_recv_freed i r s =
     do {
       free \<leftarrow> recv_free (st_stream_receive_window s) r;
       stream_freed i RecvHalf (s\<lparr>st_free_recv := st_free_recv s @ [free]\<rparr>)
     }"

definition max_send_data :: "stream_id \<Rightarrow> streams \<Rightarrow> nat" where
  "max_send_data i s =
     (case stream_id_dir i of
        Uni \<Rightarrow> st_initial_max_stream_data_uni s
      | Bi \<Rightarrow> if st_side s \<noteq> stream_id_initiator i then st_initial_max_stream_data_bidi_local s
              else st_initial_max_stream_data_bidi_remote s)"

section \<open>Handshake\<close>

definition received_max_data :: "nat \<Rightarrow> streams \<Rightarrow> streams" where
  "received_max_data n s = s\<lparr>st_max_data := max (st_max_data s) n\<rparr>"

definition set_stream_limit :: "nat \<Rightarrow> streams \<Rightarrow> stream_id \<Rightarrow> streams" where
  "set_stream_limit limit s i =
     (case st_send s i of
        Some (Some x) \<Rightarrow> s\<lparr>st_send := (st_send s)(i \<mapsto> Some (x\<lparr>sn_max_data := limit\<rparr>))\<rparr>
      | _ \<Rightarrow> s)"

definition set_params :: "transport_parameters \<Rightarrow> streams \<Rightarrow> streams" where
  "set_params params s0 =
     (let s = received_max_data (tp_initial_max_data params)
            (s0\<lparr>st_initial_max_stream_data_uni := tp_initial_max_stream_data_uni params,
                st_initial_max_stream_data_bidi_local := tp_initial_max_stream_data_bidi_local params,
                st_initial_max_stream_data_bidi_remote := tp_initial_max_stream_data_bidi_remote params,
                st_max := (\<lambda>d. case d of Bi \<Rightarrow> tp_initial_max_streams_bidi params | Uni \<Rightarrow> tp_initial_max_streams_uni params)\<rparr>) in
      foldl (set_stream_limit (tp_initial_max_stream_data_bidi_local params)) s
        (map (stream_id_new (side_not (st_side s)) Bi) [0..<st_max_remote s Bi]))"

fun forget_streams :: "dir \<Rightarrow> nat list \<Rightarrow> streams \<Rightarrow> streams option" where
  "forget_streams d [] s = Some s"
| "forget_streams d (n # ns) s =
     (let i = stream_id_new (st_side s) d n in
      if st_send s i = None then None
      else
        let s1 = s\<lparr>st_send := (st_send s)(i := None)\<rparr> in
        if d = Bi then
          (if st_recv s1 i = None then None else forget_streams d ns (s1\<lparr>st_recv := (st_recv s1)(i := None)\<rparr>))
        else forget_streams d ns s1)"

definition reject_dir :: "dir \<Rightarrow> streams \<Rightarrow> streams option" where
  "reject_dir d s =
     do {
       s1 \<leftarrow> forget_streams d [0..<st_next s d] s;
       let s2 = s1\<lparr>st_next := (st_next s1)(d := 0)\<rparr>;
       Some (if st_flow_control_adjusted s2 then s2\<lparr>st_sent_max_remote := (st_sent_max_remote s2)(d := 0)\<rparr> else s2)
     }"

definition zero_rtt_rejected :: "streams \<Rightarrow> streams option" where
  "zero_rtt_rejected s =
     do {
       s1 \<leftarrow> reject_dir Bi s;
       s2 \<leftarrow> reject_dir Uni s1;
       Some (s2\<lparr>st_pending := pq_clear (st_pending s2), st_send_streams := 0, st_data_sent := 0,
         st_connection_blocked := []\<rparr>)
     }"

section \<open>Flow control of incoming data\<close>

definition add_read_credits :: "nat \<Rightarrow> streams \<Rightarrow> bool \<times> streams" where
  "add_read_credits credits s0 =
     (let s = (if st_receive_window_shrink_debt s0 < credits then
            s0\<lparr>st_local_max_data := saturating_add (st_local_max_data s0) (credits - st_receive_window_shrink_debt s0),
               st_receive_window_shrink_debt := 0\<rparr>
          else s0\<lparr>st_receive_window_shrink_debt := st_receive_window_shrink_debt s0 - credits\<rparr>) in
      if varint_max < st_local_max_data s then (False, s)
      else (st_receive_window s div 8 \<le> wrapping_sub (st_local_max_data s) (st_sent_max_data s), s))"

definition set_receive_window :: "nat \<Rightarrow> streams \<Rightarrow> bool \<times> streams" where
  "set_receive_window receive_window s =
     (if st_receive_window s < receive_window then
        (True, s\<lparr>st_local_max_data := saturating_add (st_local_max_data s) (receive_window - st_receive_window s),
          st_receive_window := receive_window\<rparr>)
      else
        (False, s\<lparr>st_receive_window_shrink_debt :=
            saturating_add (st_receive_window_shrink_debt s) (st_receive_window s - receive_window),
          st_receive_window := receive_window\<rparr>))"

definition set_send_window :: "nat \<Rightarrow> streams \<Rightarrow> streams" where
  "set_send_window w s = s\<lparr>st_send_window := w\<rparr>"

definition set_max_concurrent :: "dir \<Rightarrow> nat \<Rightarrow> streams \<Rightarrow> streams option" where
  "set_max_concurrent d cnt s =
     ensure_remote_streams d (s\<lparr>st_flow_control_adjusted := True,
       st_max_concurrent_remote_count := (st_max_concurrent_remote_count s)(d := cnt)\<rparr>)"

definition max_concurrent :: "dir \<Rightarrow> streams \<Rightarrow> nat" where
  "max_concurrent d s = st_allocated_remote_count s d"

definition queue_max_stream_id :: "retransmits \<Rightarrow> streams \<Rightarrow> bool \<times> retransmits" where
  "queue_max_stream_id pending s =
     (let announce = (\<lambda>d. st_max_concurrent_remote_count s d div 8 < wrapping_sub (st_max_remote s d) (st_sent_max_remote s d)) in
      (announce Bi \<or> announce Uni, pending\<lparr>rt_max_stream_id := (\<lambda>d. announce d \<or> rt_max_stream_id pending d)\<rparr>))"

definition validate_receive_id :: "stream_id \<Rightarrow> streams \<Rightarrow> transport_error + unit" where
  "validate_receive_id i s =
     (if st_side s = stream_id_initiator i then
        (case stream_id_dir i of
           Uni \<Rightarrow> Inl (te_new STREAM_STATE_ERROR ''illegal operation on send-only stream'')
         | Bi \<Rightarrow>
             if st_next s Bi \<le> stream_id_index i then Inl (te_new STREAM_STATE_ERROR ''operation on unopened stream'')
             else Inr ())
      else if st_max_remote s (stream_id_dir i) \<le> stream_id_index i then Inl (te_new STREAM_LIMIT_ERROR '''')
      else Inr ())"

definition is_local_unopened :: "stream_id \<Rightarrow> streams \<Rightarrow> bool" where
  "is_local_unopened i s \<longleftrightarrow> st_next s (stream_id_dir i) \<le> stream_id_index i"

definition on_stream_frame :: "bool \<Rightarrow> stream_id \<Rightarrow> streams \<Rightarrow> streams" where
  "on_stream_frame notify_readable i s =
     (let d = stream_id_dir i in
      if stream_id_initiator i = st_side s then
        (if notify_readable then s\<lparr>st_events := st_events s @ [Readable i]\<rparr> else s)
      else if st_next_remote s d \<le> stream_id_index i then
        s\<lparr>st_next_remote := (st_next_remote s)(d := stream_id_index i + 1), st_opened := (st_opened s)(d := True)\<rparr>
      else if notify_readable then s\<lparr>st_events := st_events s @ [Readable i]\<rparr>
      else s)"

definition put_recv :: "stream_id \<Rightarrow> recv \<Rightarrow> streams \<Rightarrow> streams" where
  "put_recv i r s = s\<lparr>st_recv := (st_recv s)(i \<mapsto> Some (OpenRecv r))\<rparr>"

definition put_send :: "stream_id \<Rightarrow> send \<Rightarrow> streams \<Rightarrow> streams" where
  "put_send i x s = s\<lparr>st_send := (st_send s)(i \<mapsto> Some x)\<rparr>"

text \<open>An incoming STREAM frame.\<close>

definition streams_received :: "stream_frame \<Rightarrow> nat \<Rightarrow> streams \<Rightarrow> (transport_error + (bool \<times> streams)) option" where
  "streams_received frame payload_len s =
     (let i = sf_id frame in
      case validate_receive_id i s of
        Inl e \<Rightarrow> Some (Inl e)
      | Inr _ \<Rightarrow>
          (case st_recv s i of
             None \<Rightarrow> Some (Inr (False, s))
           | Some entry \<Rightarrow>
               let rs = get_or_insert_recv (st_stream_receive_window s) entry; s1 = put_recv i rs s in
               if \<not> is_receiving rs then Some (Inr (False, s1))
               else
                 (case recv_ingest frame payload_len (st_data_recvd s) (st_local_max_data s) rs of
                    Inl e \<Rightarrow> Some (Inl e)
                  | Inr ((new_bytes, closed), rs') \<Rightarrow>
                      let s2 = (put_recv i rs' s)\<lparr>st_data_recvd := saturating_add (st_data_recvd s) new_bytes\<rparr> in
                      if \<not> rv_stopped rs' then Some (Inr (False, on_stream_frame True i s2))
                      else
                        do {
                          s3 \<leftarrow> (if closed then stream_recv_freed i (OpenRecv rs') (s2\<lparr>st_recv := (st_recv s2)(i := None)\<rparr>)
                                else Some s2);
                          Some (Inr (add_read_credits new_bytes s3))
                        })))"

text \<open>An incoming RESET_STREAM frame.\<close>

definition streams_received_reset :: "reset_stream \<Rightarrow> streams \<Rightarrow> (transport_error + (bool \<times> streams)) option" where
  "streams_received_reset frame s =
     (let i = rst_id frame; final = rst_final_offset frame in
      case validate_receive_id i s of
        Inl e \<Rightarrow> Some (Inl e)
      | Inr _ \<Rightarrow>
          (case st_recv s i of
             None \<Rightarrow> Some (Inr (False, s))
           | Some entry \<Rightarrow>
               let rs = get_or_insert_recv (st_stream_receive_window s) entry in
               (case recv_reset (rst_error_code frame) final (st_data_recvd s) (st_local_max_data s) rs of
                  Inl e \<Rightarrow> Some (Inl e)
                | Inr (fresh, rs') \<Rightarrow>
                    let s1 = put_recv i rs' s in
                    if \<not> fresh then Some (Inr (False, s1))
                    else
                      let bytes_read = asm_bytes_read (rv_assembler rs') in
                      do {
                        s2 \<leftarrow> (if rv_stopped rs' then
                                stream_recv_freed i (OpenRecv rs') (s1\<lparr>st_recv := (st_recv s1)(i := None)\<rparr>)
                              else Some s1);
                        let s3 = on_stream_frame (\<not> rv_stopped rs') i s2;
                        Some (Inr (if bytes_read \<noteq> final then
                            add_read_credits (wrapping_sub final bytes_read)
                              (s3\<lparr>st_data_recvd := saturating_add (st_data_recvd s3) (wrapping_sub final (rv_end rs'))\<rparr>)
                          else (False, s3)))
                      })))"

section \<open>Sending\<close>

definition received_stop_sending :: "stream_id \<Rightarrow> nat \<Rightarrow> streams \<Rightarrow> streams" where
  "received_stop_sending i error_code s =
     (case st_send s i of
        None \<Rightarrow> s
      | Some entry \<Rightarrow>
          let (stopped, x) = try_stop error_code (get_or_insert_send (max_send_data i s) entry); s1 = put_send i x s in
          if stopped then on_stream_frame False i (s1\<lparr>st_events := st_events s1 @ [Stopped i error_code]\<rparr>) else s1)"

definition reset_acked :: "stream_id \<Rightarrow> streams \<Rightarrow> streams option" where
  "reset_acked i s =
     (case st_send s i of
        Some (Some x) \<Rightarrow>
          if sn_state x = ResetSent then stream_freed i SendHalf (s\<lparr>st_send := (st_send s)(i := None)\<rparr>) else Some s
      | _ \<Rightarrow> Some s)"

definition can_send_stream_data :: "streams \<Rightarrow> bool" where
  "can_send_stream_data s \<longleftrightarrow> (\<exists>p \<in> set (pq_iter (st_pending s)).
     case st_send s (ps_id p) of Some (Some x) \<Rightarrow> \<not> is_reset x | _ \<Rightarrow> False)"

definition can_send_flow_control :: "stream_id \<Rightarrow> streams \<Rightarrow> bool" where
  "can_send_flow_control i s =
     (case st_recv s i of Some (Some (OpenRecv r)) \<Rightarrow> recv_can_send_flow_control r | _ \<Rightarrow> False)"

definition received_ack_of :: "stream_meta \<Rightarrow> streams \<Rightarrow> streams option" where
  "received_ack_of frame s =
     (let i = sm_id frame; (start, end') = sm_offsets frame in
      case st_send s i of
        Some (Some x) \<Rightarrow>
          if is_reset x then Some s
          else
            let s1 = s\<lparr>st_unacked_data := wrapping_sub (st_unacked_data s) (wrapping_sub end' start)\<rparr> in
            do {
              (finished, x') \<leftarrow> send_ack frame x;
              if \<not> finished then Some (put_send i x' s1)
              else do {
                s2 \<leftarrow> stream_freed i SendHalf (s1\<lparr>st_send := (st_send s1)(i := None)\<rparr>);
                Some (s2\<lparr>st_events := st_events s2 @ [Finished i]\<rparr>)
              }
            }
      | _ \<Rightarrow> Some s)"

definition streams_retransmit :: "stream_meta \<Rightarrow> streams \<Rightarrow> streams" where
  "streams_retransmit frame s =
     (let i = sm_id frame in
      case st_send s i of
        Some (Some x) \<Rightarrow>
          let s1 = (if is_pending x then s else s\<lparr>st_pending := push_pending i (sn_priority x) (st_pending s)\<rparr>) in
          put_send i (x\<lparr>sn_fin_pending := sn_fin_pending x \<or> sm_fin frame,
            sn_pending := sb_retransmit (sm_offsets frame) (sn_pending x)\<rparr>) s1
      | _ \<Rightarrow> s)"

definition retransmit_stream_for_0rtt :: "streams \<Rightarrow> stream_id \<Rightarrow> streams" where
  "retransmit_stream_for_0rtt s i =
     (case st_send s i of
        Some (Some x) \<Rightarrow>
          if sb_is_fully_acked (sn_pending x) \<and> \<not> sn_fin_pending x then s
          else
            let s1 = (if is_pending x then s else s\<lparr>st_pending := push_pending i (sn_priority x) (st_pending s)\<rparr>) in
            put_send i (x\<lparr>sn_pending := sb_retransmit_all_for_0rtt (sn_pending x)\<rparr>) s1
      | _ \<Rightarrow> s)"

definition streams_retransmit_all_for_0rtt :: "streams \<Rightarrow> streams" where
  "streams_retransmit_all_for_0rtt s =
     foldl retransmit_stream_for_0rtt s
       (map (stream_id_new Client Bi) [0..<st_next s Bi] @ map (stream_id_new Client Uni) [0..<st_next s Uni])"

definition received_max_streams :: "dir \<Rightarrow> nat \<Rightarrow> streams \<Rightarrow> transport_error + streams" where
  "received_max_streams d cnt s =
     (if MAX_STREAM_COUNT < cnt then Inl (te_new FRAME_ENCODING_ERROR ''unrepresentable stream limit'')
      else if st_max s d < cnt then
        Inr (s\<lparr>st_max := (st_max s)(d := cnt), st_streams_blocked := (st_streams_blocked s)(d := False),
          st_events := st_events s @ [Available d]\<rparr>)
      else Inr s)"

definition write_limit :: "streams \<Rightarrow> nat" where
  "write_limit s = min (wrapping_sub (st_max_data s) (st_data_sent s)) (saturating_sub (st_send_window s) (st_unacked_data s))"

definition received_max_stream_data :: "stream_id \<Rightarrow> nat \<Rightarrow> streams \<Rightarrow> transport_error + streams" where
  "received_max_stream_data i offset s =
     (if stream_id_initiator i \<noteq> st_side s \<and> stream_id_dir i = Uni then
        Inl (te_new STREAM_STATE_ERROR ''MAX_STREAM_DATA on recv-only stream'')
      else
        case st_send s i of
          Some entry \<Rightarrow>
            let (unblocked, x) = increase_max_data offset (get_or_insert_send (max_send_data i s) entry) in
            Inr (on_stream_frame False i
              (if \<not> unblocked then put_send i x s
               else if 0 < write_limit s then (put_send i x s)\<lparr>st_events := st_events s @ [Writable i]\<rparr>
               else if \<not> sn_connection_blocked x then
                 (put_send i (x\<lparr>sn_connection_blocked := True\<rparr>) s)\<lparr>st_connection_blocked := st_connection_blocked s @ [i]\<rparr>
               else put_send i x s))
        | None \<Rightarrow>
            if stream_id_initiator i = st_side s \<and> is_local_unopened i s then
              Inl (te_new STREAM_STATE_ERROR ''MAX_STREAM_DATA on unopened stream'')
            else Inr (on_stream_frame False i s))"

text \<open>The loop of \<open>poll\<close> over blocked streams, given in the order they are popped.\<close>

fun poll_blocked :: "stream_id list \<Rightarrow> streams \<Rightarrow> stream_event option \<times> streams" where
  "poll_blocked [] s = (None, s\<lparr>st_connection_blocked := []\<rparr>)"
| "poll_blocked (i # is) s =
     (case st_send s i of
        Some (Some x) \<Rightarrow>
          let s1 = put_send i (x\<lparr>sn_connection_blocked := False\<rparr>) s in
          if is_writable x \<and> send_offset x < sn_max_data x then (Some (Writable i), s1\<lparr>st_connection_blocked := rev is\<rparr>)
          else poll_blocked is s1
      | _ \<Rightarrow> poll_blocked is s)"

definition poll_event :: "streams \<Rightarrow> stream_event option \<times> streams" where
  "poll_event s = (case st_events s of [] \<Rightarrow> (None, s) | e # es \<Rightarrow> (Some e, s\<lparr>st_events := es\<rparr>))"

definition streams_poll :: "streams \<Rightarrow> stream_event option \<times> streams" where
  "streams_poll s =
     (if st_opened s Bi then (Some (Opened Bi), s\<lparr>st_opened := (st_opened s)(Bi := False)\<rparr>)
      else if st_opened s Uni then (Some (Opened Uni), s\<lparr>st_opened := (st_opened s)(Uni := False)\<rparr>)
      else if 0 < write_limit s then
        (case poll_blocked (rev (st_connection_blocked s)) s of
           (Some e, s') \<Rightarrow> (Some e, s')
         | (None, s') \<Rightarrow> poll_event s')
      else poll_event s)"

subsection \<open>Control frames\<close>

text \<open>State while control frames are written: the buffer, what is pending, what the packet carries, the streams.\<close>

type_synonym control = "bytes \<times> retransmits \<times> thin_retransmits \<times> streams"

function write_reset_streams :: "nat \<Rightarrow> control \<Rightarrow> control option" where
  "write_reset_streams max_size (buf, pending, retr, s) =
     (if length buf + RESET_STREAM_SIZE_BOUND < max_size \<and> rt_reset_stream pending \<noteq> [] then
        let (i, error_code) = last (rt_reset_stream pending);
            pending' = pending\<lparr>rt_reset_stream := butlast (rt_reset_stream pending)\<rparr> in
        (case st_send s i of
           Some (Some x) \<Rightarrow>
             let r = get_or_create retr in
             (case (if is_varint (send_offset x) then
                      reset_stream_encode \<lparr>rst_id = i, rst_error_code = error_code, rst_final_offset = send_offset x\<rparr>
                    else None) of
                None \<Rightarrow> None
              | Some bs \<Rightarrow>
                  write_reset_streams max_size (buf @ bs, pending',
                    Some (r\<lparr>rt_reset_stream := rt_reset_stream r @ [(i, error_code)]\<rparr>), s))
         | _ \<Rightarrow> write_reset_streams max_size (buf, pending', retr, s))
      else Some (buf, pending, retr, s))"
  by pat_completeness auto
termination by (relation "measure (\<lambda>(_, _, pending, _). length (rt_reset_stream pending))") auto

function write_stop_sendings :: "nat \<Rightarrow> control \<Rightarrow> control option" where
  "write_stop_sendings max_size (buf, pending, retr, s) =
     (if length buf + STOP_SENDING_SIZE_BOUND < max_size \<and> rt_stop_sending pending \<noteq> [] then
        let frame = last (rt_stop_sending pending);
            pending' = pending\<lparr>rt_stop_sending := butlast (rt_stop_sending pending)\<rparr>;
            r = get_or_create retr in
        (case stop_sending_encode frame of
           None \<Rightarrow> None
         | Some bs \<Rightarrow>
             write_stop_sendings max_size (buf @ bs, pending',
               Some (r\<lparr>rt_stop_sending := rt_stop_sending r @ [frame]\<rparr>), s))
      else Some (buf, pending, retr, s))"
  by pat_completeness auto
termination by (relation "measure (\<lambda>(_, _, pending, _). length (rt_stop_sending pending))") auto

declare write_reset_streams.simps [simp del] write_stop_sendings.simps [simp del]

definition write_max_data :: "nat \<Rightarrow> control \<Rightarrow> control option" where
  "write_max_data max_size = (\<lambda>(buf, pending, retr, s).
     if rt_max_data pending \<and> length buf + 9 < max_size then
       let limit = min (st_local_max_data s) varint_max;
           s' = (if st_sent_max_data s < limit then s\<lparr>st_sent_max_data := limit\<rparr> else s);
           r = get_or_create retr in
       map_option (\<lambda>bs. (buf @ bs, pending\<lparr>rt_max_data := False\<rparr>, Some (r\<lparr>rt_max_data := True\<rparr>), s'))
         (wcat [write_var MAX_DATA, write_var limit])
     else Some (buf, pending, retr, s))"

function write_max_stream_data :: "nat \<Rightarrow> control \<Rightarrow> control option" where
  "write_max_stream_data max_size (buf, pending, retr, s) =
     (if length buf + 17 < max_size \<and> rt_max_stream_data pending \<noteq> [] then
        let i = hd (rt_max_stream_data pending);
            pending' = pending\<lparr>rt_max_stream_data := tl (rt_max_stream_data pending)\<rparr> in
        (case st_recv s i of
           Some (Some (OpenRecv rs)) \<Rightarrow>
             if \<not> recv_can_send_flow_control rs then write_max_stream_data max_size (buf, pending', retr, s)
             else
               let r = get_or_create retr;
                   (limit, _) = recv_max_stream_data (st_stream_receive_window s) rs in
               (case wcat [write_var MAX_STREAM_DATA, stream_id_encode i, write_var limit] of
                  None \<Rightarrow> None
                | Some bs \<Rightarrow>
                    write_max_stream_data max_size (buf @ bs, pending',
                      Some (r\<lparr>rt_max_stream_data := id_insert i (rt_max_stream_data r)\<rparr>),
                      put_recv i (record_sent_max_stream_data limit rs) s))
         | _ \<Rightarrow> write_max_stream_data max_size (buf, pending', retr, s))
      else Some (buf, pending, retr, s))"
  by pat_completeness auto
termination by (relation "measure (\<lambda>(_, _, pending, _). length (rt_max_stream_data pending))") auto

declare write_max_stream_data.simps [simp del]

definition write_max_streams :: "nat \<Rightarrow> dir \<Rightarrow> control \<Rightarrow> control option" where
  "write_max_streams max_size d = (\<lambda>(buf, pending, retr, s).
     if \<not> rt_max_stream_id pending d \<or> max_size \<le> length buf + 9 then Some (buf, pending, retr, s)
     else
       let r = get_or_create retr in
       map_option (\<lambda>bs. (buf @ bs, pending\<lparr>rt_max_stream_id := (rt_max_stream_id pending)(d := False)\<rparr>,
           Some (r\<lparr>rt_max_stream_id := (rt_max_stream_id r)(d := True)\<rparr>),
           s\<lparr>st_sent_max_remote := (st_sent_max_remote s)(d := st_max_remote s d)\<rparr>))
         (wcat [write_var (case d of Uni \<Rightarrow> MAX_STREAMS_UNI | Bi \<Rightarrow> MAX_STREAMS_BIDI), write_var (st_max_remote s d)]))"

definition write_streams_blocked :: "nat \<Rightarrow> dir \<Rightarrow> control \<Rightarrow> control option" where
  "write_streams_blocked max_size d = (\<lambda>(buf, pending0, retr, s0).
     let pending = (if st_streams_blocked s0 d then pending0\<lparr>rt_streams_blocked := (rt_streams_blocked pending0)(d := True)\<rparr> else pending0);
         s = (if st_streams_blocked s0 d then s0\<lparr>st_streams_blocked := (st_streams_blocked s0)(d := False)\<rparr> else s0) in
     if \<not> rt_streams_blocked pending d \<or> max_size \<le> length buf + 9 then Some (buf, pending, retr, s)
     else
       let r = get_or_create retr in
       map_option (\<lambda>bs. (buf @ bs, pending\<lparr>rt_streams_blocked := (rt_streams_blocked pending)(d := False)\<rparr>,
           Some (r\<lparr>rt_streams_blocked := (rt_streams_blocked r)(d := True)\<rparr>), s))
         (wcat [write_var (case d of Uni \<Rightarrow> STREAMS_BLOCKED_UNI | Bi \<Rightarrow> STREAMS_BLOCKED_BIDI), write_var (st_max s d)]))"

definition write_control_frames :: "nat \<Rightarrow> control \<Rightarrow> control option" where
  "write_control_frames max_size c =
     do {
       c \<leftarrow> write_reset_streams max_size c;
       c \<leftarrow> write_stop_sendings max_size c;
       c \<leftarrow> write_max_data max_size c;
       c \<leftarrow> write_max_stream_data max_size c;
       c \<leftarrow> write_max_streams max_size Bi c;
       c \<leftarrow> write_max_streams max_size Uni c;
       c \<leftarrow> write_streams_blocked max_size Bi c;
       write_streams_blocked max_size Uni c
     }"

subsection \<open>STREAM frames\<close>

text \<open>One turn of the loop of \<open>write_stream_frames\<close> for a stream that is not reset.\<close>

definition write_stream_frame ::
    "nat \<Rightarrow> bool \<Rightarrow> stream_id \<Rightarrow> send \<Rightarrow> bytes \<Rightarrow> streams \<Rightarrow> (stream_meta \<times> bytes \<times> streams) option" where
  "write_stream_frame max_buf_size fair i x buf s =
     do {
       id_size \<leftarrow> varint_size i;
       ((offsets, encode_length), b) \<leftarrow>
         sb_poll_transmit (wrapping_sub (wrapping_sub (wrapping_sub max_buf_size (length buf)) 1) id_size) (sn_pending x);
       let fin = (snd offsets = sb_offset b \<and> (case sn_state x of DataSent _ \<Rightarrow> True | _ \<Rightarrow> False));
       let x' = x\<lparr>sn_pending := b, sn_fin_pending := (if fin then False else sn_fin_pending x)\<rparr>;
       q \<leftarrow> (if is_pending x' then
              (if fair then Some (push_pending i (sn_priority x') (st_pending s))
               else reinsert_pending i (sn_priority x') (st_pending s))
            else Some (st_pending s));
       let meta = \<lparr>sm_id = i, sm_offsets = offsets, sm_fin = fin\<rparr>;
       header \<leftarrow> stream_meta_encode meta encode_length;
       data \<leftarrow> copy_range offsets b;
       Some (meta, buf @ header @ data, (put_send i x' s)\<lparr>st_pending := q\<rparr>)
     }"

partial_function (option) write_stream_frames ::
    "nat \<Rightarrow> bool \<Rightarrow> bytes \<Rightarrow> streams \<Rightarrow> (stream_meta list \<times> bytes \<times> streams) option" where
  "write_stream_frames max_buf_size fair buf s =
     (if length buf + STREAM_SIZE_BOUND < max_buf_size then
        case pq_pop (st_pending s) of
          (None, q) \<Rightarrow> Some ([], buf, s)
        | (Some p, q) \<Rightarrow>
            let s1 = s\<lparr>st_pending := q\<rparr> in
            (case st_send s1 (ps_id p) of
               Some (Some x) \<Rightarrow>
                 if is_reset x then write_stream_frames max_buf_size fair buf s1
                 else
                   Option.bind (write_stream_frame max_buf_size fair (ps_id p) x buf s1) (\<lambda>(meta, buf', s2).
                     Option.bind (write_stream_frames max_buf_size fair buf' s2) (\<lambda>(metas, r). Some (meta # metas, r)))
             | _ \<Rightarrow> write_stream_frames max_buf_size fair buf s1)
      else Some ([], buf, s))"

section \<open>The application's access\<close>

text \<open>\<open>Streams\<close>: opening and accepting streams; \<open>conn_closed\<close> is \<open>conn_state.is_closed()\<close>.\<close>

definition streams_open :: "bool \<Rightarrow> dir \<Rightarrow> streams \<Rightarrow> (stream_id option \<times> streams) option" where
  "streams_open conn_closed d s =
     (if conn_closed then Some (None, s)
      else if st_max s d \<le> st_next s d then Some (None, s\<lparr>st_streams_blocked := (st_streams_blocked s)(d := True)\<rparr>)
      else
        let i = stream_id_new (st_side s) d (st_next s d) in
        do {
          s1 \<leftarrow> streams_insert False i (s\<lparr>st_next := (st_next s)(d := st_next s d + 1)\<rparr>);
          Some (Some i, s1\<lparr>st_send_streams := st_send_streams s1 + 1\<rparr>)
        })"

definition streams_accept :: "dir \<Rightarrow> streams \<Rightarrow> stream_id option \<times> streams" where
  "streams_accept d s =
     (if st_next_remote s d = st_next_reported_remote s d then (None, s)
      else
        let x = st_next_reported_remote s d in
        (Some (stream_id_new (side_not (st_side s)) d x),
         s\<lparr>st_next_reported_remote := (st_next_reported_remote s)(d := x + 1),
           st_send_streams := (if d = Bi then st_send_streams s + 1 else st_send_streams s)\<rparr>))"

definition remote_open_streams :: "dir \<Rightarrow> streams \<Rightarrow> nat" where
  "remote_open_streams d s =
     wrapping_sub (st_next_remote s d) (wrapping_sub (st_max_remote s d) (st_allocated_remote_count s d))"

text \<open>\<open>RecvStream\<close> and \<open>Chunks\<close>.\<close>

datatype chunks_state = ChReadable recv | ChReset nat | ChFinished | ChFinalized

record chunks =
  ch_id :: stream_id
  ch_ordered :: bool
  ch_state :: chunks_state
  ch_read :: nat

datatype readable_error = ReadableClosedStream | IllegalOrderedRead

datatype read_error = ReadBlocked | ReadReset nat

text \<open>The stream leaves the map while it is read; the state is returned with an error, too.\<close>

definition chunks_new :: "stream_id \<Rightarrow> bool \<Rightarrow> streams \<Rightarrow> (readable_error + chunks) \<times> streams" where
  "chunks_new i ordered s =
     (case st_recv s i of
        None \<Rightarrow> (Inl ReadableClosedStream, s)
      | Some entry \<Rightarrow>
          let r = get_or_insert_recv (st_stream_receive_window s) entry in
          if rv_stopped r then (Inl ReadableClosedStream, put_recv i r s)
          else
            let s1 = s\<lparr>st_recv := (st_recv s)(i := None)\<rparr> in
            (case ensure_ordering ordered (rv_assembler r) of
               Inl _ \<Rightarrow> (Inl IllegalOrderedRead, s1)
             | Inr asm \<Rightarrow>
                 (Inr \<lparr>ch_id = i, ch_ordered = ordered, ch_state = ChReadable (r\<lparr>rv_assembler := asm\<rparr>), ch_read = 0\<rparr>, s1)))"

definition chunks_next ::
    "nat \<Rightarrow> chunks \<Rightarrow> streams \<Rightarrow> ((read_error + chunk option) \<times> chunks \<times> streams) option" where
  "chunks_next max_length c s =
     (case ch_state c of
        ChReset error_code \<Rightarrow> Some (Inl (ReadReset error_code), c, s)
      | ChFinished \<Rightarrow> Some (Inr None, c, s)
      | ChFinalized \<Rightarrow> None
      | ChReadable rs \<Rightarrow>
          (case recv_next max_length (ch_ordered c) rs of
             (RChunk x, rs') \<Rightarrow>
               Some (Inr (Some x), c\<lparr>ch_state := ChReadable rs', ch_read := ch_read c + length (snd x)\<rparr>, s)
           | (RReset error_code, rs') \<Rightarrow>
               map_option (\<lambda>s'. (Inl (ReadReset error_code), c\<lparr>ch_state := ChReset error_code\<rparr>, s'))
                 (stream_recv_freed (ch_id c) (OpenRecv rs') s)
           | (RFinished, rs') \<Rightarrow>
               map_option (\<lambda>s'. (Inr None, c\<lparr>ch_state := ChFinished\<rparr>, s'))
                 (stream_recv_freed (ch_id c) (OpenRecv rs') s)
           | (RBlocked, rs') \<Rightarrow> Some (Inl ReadBlocked, c\<lparr>ch_state := ChReadable rs'\<rparr>, s)))"

definition chunks_finalize :: "chunks \<Rightarrow> retransmits \<Rightarrow> streams \<Rightarrow> bool \<times> retransmits \<times> streams" where
  "chunks_finalize c pending s =
     (if ch_state c = ChFinalized then (False, pending, s)
      else
        let (queued, pending1) = queue_max_stream_id pending s;
            (transmit, pending2, s1) =
              (case ch_state c of
                 ChReadable rs \<Rightarrow>
                   let (_, m) = recv_max_stream_data (st_stream_receive_window s) rs in
                   (m, if m then pending1\<lparr>rt_max_stream_data := id_insert (ch_id c) (rt_max_stream_data pending1)\<rparr> else pending1,
                    put_recv (ch_id c) rs s)
               | _ \<Rightarrow> (False, pending1, s));
            (max_data, s2) = add_read_credits (ch_read c) s1 in
        (queued \<or> transmit \<or> max_data, pending2\<lparr>rt_max_data := rt_max_data pending2 \<or> max_data\<rparr>, s2))"

definition recv_stream_stop :: "stream_id \<Rightarrow> nat \<Rightarrow> retransmits \<Rightarrow> streams \<Rightarrow> (unit + (retransmits \<times> streams)) option" where
  "recv_stream_stop i error_code pending s =
     (case st_recv s i of
        None \<Rightarrow> Some (Inl ())
      | Some entry \<Rightarrow>
          (case recv_stop (get_or_insert_recv (st_stream_receive_window s) entry) of
             Inl _ \<Rightarrow> Some (Inl ())
           | Inr ((read_credits, stop_sending), r) \<Rightarrow>
               let pending1 = (if stop_sending then
                     pending\<lparr>rt_stop_sending := rt_stop_sending pending @ [\<lparr>ss_id = i, ss_error_code = error_code\<rparr>]\<rparr>
                   else pending) in
               do {
                 s1 \<leftarrow> (if \<not> final_offset_unknown r then
                         stream_recv_freed i (OpenRecv r) (s\<lparr>st_recv := (st_recv s)(i := None)\<rparr>)
                       else Some (put_recv i r s));
                 let (transmit, s2) = add_read_credits read_credits s1;
                 Some (Inr (if transmit then pending1\<lparr>rt_max_data := True\<rparr> else pending1, s2))
               }))"

definition recv_stream_received_reset ::
    "stream_id \<Rightarrow> retransmits \<Rightarrow> streams \<Rightarrow> (unit + (nat option \<times> retransmits \<times> streams)) option" where
  "recv_stream_received_reset i pending s =
     (case st_recv s i of
        None \<Rightarrow> Some (Inl ())
      | Some (Some (OpenRecv r)) \<Rightarrow>
          if rv_stopped r then Some (Inl ())
          else
            (case reset_code r of
               None \<Rightarrow> Some (Inr (None, pending, s))
             | Some code \<Rightarrow>
                 do {
                   s1 \<leftarrow> stream_recv_freed i (OpenRecv r) (s\<lparr>st_recv := (st_recv s)(i := None)\<rparr>);
                   Some (Inr (Some code, snd (queue_max_stream_id pending s1), s1))
                 })
      | Some _ \<Rightarrow> Some (Inr (None, pending, s)))"

text \<open>\<open>SendStream\<close>. A write that fails may still have created the stream or marked it as blocked.\<close>

definition write_source ::
    "(nat \<Rightarrow> 'b \<Rightarrow> (bytes \<times> nat) \<times> 'b) \<Rightarrow> bool \<Rightarrow> stream_id \<Rightarrow> 'b \<Rightarrow> streams \<Rightarrow> ((write_error + (written \<times> 'b)) \<times> streams) option" where
  "write_source pop_chunk conn_closed i src s =
     (if conn_closed then Some (Inl WriteBlocked, s)
      else
        let limit = write_limit s in
        case st_send s i of
          None \<Rightarrow> Some (Inl WriteClosedStream, s)
        | Some entry \<Rightarrow>
            let x = get_or_insert_send (max_send_data i s) entry in
            if limit = 0 then
              Some (Inl WriteBlocked,
                if sn_connection_blocked x then put_send i x s
                else (put_send i (x\<lparr>sn_connection_blocked := True\<rparr>) s)\<lparr>st_connection_blocked := st_connection_blocked s @ [i]\<rparr>)
            else
              (case send_write pop_chunk limit src x of
                 None \<Rightarrow> None
               | Some (Inl e) \<Rightarrow> Some (Inl e, put_send i x s)
               | Some (Inr (w, src', x')) \<Rightarrow>
                   let s1 = (put_send i x' s)\<lparr>st_data_sent := st_data_sent s + wr_bytes w,
                         st_unacked_data := st_unacked_data s + wr_bytes w\<rparr> in
                   Some (Inr (w, src'),
                     if is_pending x then s1 else s1\<lparr>st_pending := push_pending i (sn_priority x') (st_pending s)\<rparr>)))"

definition send_stream_stopped :: "stream_id \<Rightarrow> streams \<Rightarrow> unit + nat option" where
  "send_stream_stopped i s =
     (case st_send s i of None \<Rightarrow> Inl () | Some None \<Rightarrow> Inr None | Some (Some x) \<Rightarrow> Inr (sn_stop_reason x))"

definition send_stream_finish :: "stream_id \<Rightarrow> streams \<Rightarrow> (finish_error + unit) \<times> streams" where
  "send_stream_finish i s =
     (case st_send s i of
        None \<Rightarrow> (Inl FinishClosedStream, s)
      | Some entry \<Rightarrow>
          let x = get_or_insert_send (max_send_data i s) entry in
          (case send_finish x of
             Inl e \<Rightarrow> (Inl e, put_send i x s)
           | Inr x' \<Rightarrow>
               (Inr (), if is_pending x then put_send i x' s
                 else (put_send i x' s)\<lparr>st_pending := push_pending i (sn_priority x') (st_pending s)\<rparr>)))"

definition send_stream_reset :: "stream_id \<Rightarrow> nat \<Rightarrow> retransmits \<Rightarrow> streams \<Rightarrow> (unit + retransmits) \<times> streams" where
  "send_stream_reset i error_code pending s =
     (case st_send s i of
        None \<Rightarrow> (Inl (), s)
      | Some entry \<Rightarrow>
          let x = get_or_insert_send (max_send_data i s) entry in
          if sn_state x = ResetSent then (Inl (), put_send i x s)
          else
            (Inr (pending\<lparr>rt_reset_stream := rt_reset_stream pending @ [(i, error_code)]\<rparr>),
             (put_send i (send_reset x) s)\<lparr>st_unacked_data := wrapping_sub (st_unacked_data s) (sb_unacked (sn_pending x))\<rparr>))"

definition send_stream_set_priority :: "stream_id \<Rightarrow> int \<Rightarrow> streams \<Rightarrow> (unit + unit) \<times> streams" where
  "send_stream_set_priority i priority s =
     (case st_send s i of
        None \<Rightarrow> (Inl (), s)
      | Some entry \<Rightarrow>
          (Inr (), put_send i ((get_or_insert_send (max_send_data i s) entry)\<lparr>sn_priority := priority\<rparr>) s))"

definition send_stream_priority :: "stream_id \<Rightarrow> streams \<Rightarrow> unit + int" where
  "send_stream_priority i s =
     (case st_send s i of None \<Rightarrow> Inl () | Some None \<Rightarrow> Inr 0 | Some (Some x) \<Rightarrow> Inr (sn_priority x))"

end
