(* ===== verification/Streams_Send_Inv.thy ===== *)
theory Streams_Send_Inv
  imports Streams
begin

text \<open>
  What the sending side of \<open>StreamsState\<close> keeps: the limits the peer has set, and the books on unacknowledged
  data, which decide how much more may be written.
\<close>

section \<open>Sums over the streams\<close>

definition msum :: "('b option \<Rightarrow> nat) \<Rightarrow> ('a \<rightharpoonup> 'b) \<Rightarrow> nat" where
  "msum f m = (\<Sum>i \<in> dom m. f (m i))"

lemma msum_update:
  assumes "finite (dom m)" "f None = 0"
  shows "msum f (m(i := v)) + f (m i) = msum f m + f v"
proof -
  let ?D = "dom m - {i}"
  have fin: "finite ?D" using assms(1) by simp
  have same: "(\<Sum>j \<in> ?D. f ((m(i := v)) j)) = (\<Sum>j \<in> ?D. f (m j))" by (rule sum.cong) auto
  have 1: "msum f m = (\<Sum>j \<in> ?D. f (m j)) + f (m i)"
    using assms sum.remove [of "dom m" i "\<lambda>j. f (m j)"] by (cases "i \<in> dom m") (auto simp: msum_def domIff)
  have "msum f (m(i := v)) = (\<Sum>j \<in> ?D. f ((m(i := v)) j)) + f v"
  proof (cases v)
    case (Some a)
    have "dom (m(i := v)) = insert i ?D" using Some by auto
    then show ?thesis using fin sum.insert [of ?D i "\<lambda>j. f ((m(i := v)) j)"] by (simp add: msum_def)
  qed (use assms in \<open>simp add: msum_def\<close>)
  then show ?thesis using 1 same by simp
qed

definition unacked_of :: "send option option \<Rightarrow> nat" where
  "unacked_of e = (case e of Some (Some x) \<Rightarrow> if is_reset x then 0 else sb_unacked (sn_pending x) | _ \<Rightarrow> 0)"

lemma unacked_of_simps [simp]: "unacked_of None = 0" "unacked_of (Some None) = 0"
  "\<not> is_reset x \<Longrightarrow> unacked_of (Some (Some x)) = sb_unacked (sn_pending x)" "is_reset x \<Longrightarrow> unacked_of (Some (Some x)) = 0"
  by (simp_all add: unacked_of_def)

section \<open>The sending side as a state machine\<close>

text \<open>
  \<open>S i\<close> is what the application writes to stream \<open>i\<close>, \<open>F i\<close> the ranges of its frames in flight. An entry of
  \<open>st_send\<close> that holds no stream yet, or no entry, has nothing in flight.
\<close>

type_synonym flights = "stream_id \<Rightarrow> flight"

definition stream_off :: "stream_id \<Rightarrow> streams \<Rightarrow> nat" where
  "stream_off i s = (case st_send s i of Some (Some x) \<Rightarrow> send_offset x | _ \<Rightarrow> 0)"

definition has_send :: "streams \<Rightarrow> stream_id \<Rightarrow> bool" where
  "has_send s i = (case st_send s i of Some (Some _) \<Rightarrow> True | _ \<Rightarrow> False)"

inductive tx_step :: "(stream_id \<Rightarrow> nat \<Rightarrow> u8) \<Rightarrow> streams \<times> flights \<Rightarrow> streams \<times> flights \<Rightarrow> bool" for S where
  tx_open: "streams_open closed d s = Some (i, s') \<Longrightarrow> tx_step S (s, F) (s', F)"
| tx_write: "write_source slice_pop_chunk closed i data s = Some (r, s') \<Longrightarrow>
    slice (S i) (stream_off i s) (length data) = data \<Longrightarrow> stream_off i s + length data < 2 ^ 62 \<Longrightarrow>
    tx_step S (s, F) (s', F)"
| tx_finish: "tx_step S (s, F) (snd (send_stream_finish i s), F)"
| tx_reset: "tx_step S (s, F) (snd (send_stream_reset i code pending s), F)"
| tx_set_priority: "tx_step S (s, F) (snd (send_stream_set_priority i p s), F)"
| tx_frame: "st_send s i = Some (Some x) \<Longrightarrow> \<not> is_reset x \<Longrightarrow> length buf + STREAM_SIZE_BOUND < sz \<Longrightarrow> sz < 2 ^ 62 \<Longrightarrow>
    write_stream_frame sz fair i x buf s = Some (meta, buf', s') \<Longrightarrow>
    tx_step S (s, F) (s', F(i := sm_offsets meta # F i))"
| tx_ack: "received_ack_of frame s = Some s' \<Longrightarrow> F (sm_id frame) = F1 @ sm_offsets frame # F2 \<Longrightarrow>
    tx_step S (s, F) (s', F(sm_id frame := (if has_send s' (sm_id frame) then F1 @ F2 else [])))"
| tx_lost: "F (sm_id frame) = F1 @ sm_offsets frame # F2 \<Longrightarrow>
    tx_step S (s, F) (streams_retransmit frame s, F(sm_id frame := F1 @ F2))"
| tx_reset_acked: "reset_acked i s = Some s' \<Longrightarrow>
    tx_step S (s, F) (s', F(i := (if has_send s' i then F i else [])))"
| tx_max_data: "tx_step S (s, F) (received_max_data n s, F)"
| tx_max_stream_data: "received_max_stream_data i n s = Inr s' \<Longrightarrow> tx_step S (s, F) (s', F)"
| tx_stop_sending: "tx_step S (s, F) (received_stop_sending i code s, F)"
| tx_send_window: "tx_step S (s, F) (set_send_window n s, F)"

definition tx_start :: "streams \<Rightarrow> bool" where
  "tx_start s \<longleftrightarrow> finite (dom (st_send s)) \<and> (\<forall>e \<in> ran (st_send s). e = None) \<and> st_unacked_data s = 0 \<and>
     st_data_sent s = 0"

inductive tx_reachable :: "(stream_id \<Rightarrow> nat \<Rightarrow> u8) \<Rightarrow> streams \<times> flights \<Rightarrow> bool" for S where
  tx_init: "tx_start s \<Longrightarrow> tx_reachable S (s, \<lambda>_. [])"
| tx_next: "tx_reachable S st \<Longrightarrow> tx_step S st st' \<Longrightarrow> tx_reachable S st'"

definition entry_ok :: "(nat \<Rightarrow> u8) \<Rightarrow> send option option \<Rightarrow> flight \<Rightarrow> bool" where
  "entry_ok S e F = (case e of
     Some (Some x) \<Rightarrow> send_offset x \<le> sn_max_data x \<and> (\<not> is_reset x \<longrightarrow> sb_inv S (sn_pending x) F)
   | _ \<Rightarrow> F = [])"

definition tx_inv :: "(stream_id \<Rightarrow> nat \<Rightarrow> u8) \<Rightarrow> streams \<Rightarrow> flights \<Rightarrow> bool" where
  "tx_inv S s F \<longleftrightarrow> finite (dom (st_send s)) \<and> (\<forall>i. entry_ok (S i) (st_send s i) (F i)) \<and>
     st_unacked_data s = msum unacked_of (st_send s) \<and> st_data_sent s \<le> st_max_data s"

text \<open>An operation that replaces the entry of one stream.\<close>

lemma tx_inv_update:
  assumes "tx_inv S s F" "st_send s' = (st_send s)(i := v)" "entry_ok (S i) v (F' i)" "\<And>j. j \<noteq> i \<Longrightarrow> F' j = F j"
    "st_unacked_data s' + unacked_of (st_send s i) = st_unacked_data s + unacked_of v" "st_data_sent s' \<le> st_max_data s'"
  shows "tx_inv S s' F'"
proof -
  have "finite (dom (st_send s'))" using assms(1,2) by (cases v) (simp_all add: tx_inv_def)
  moreover have "msum unacked_of (st_send s') + unacked_of (st_send s i) = msum unacked_of (st_send s) + unacked_of v"
    using msum_update [of "st_send s" unacked_of i v] assms(1,2) by (simp add: tx_inv_def)
  ultimately show ?thesis using assms by (auto simp: tx_inv_def)
qed

lemma tx_inv_same:
  "tx_inv S s F \<Longrightarrow> st_send s' = st_send s \<Longrightarrow> st_unacked_data s' = st_unacked_data s \<Longrightarrow> st_data_sent s' \<le> st_max_data s' \<Longrightarrow>
    tx_inv S s' F"
  by (simp add: tx_inv_def)

text \<open>New streams start with an empty entry.\<close>

definition adds_entries :: "(stream_id \<rightharpoonup> send option) \<Rightarrow> (stream_id \<rightharpoonup> send option) \<Rightarrow> bool" where
  "adds_entries m m' \<longleftrightarrow> finite (dom m' - dom m) \<and> (\<forall>i. m' i = m i \<or> m i = None \<and> m' i = Some None)"

definition adds_streams :: "streams \<Rightarrow> streams \<Rightarrow> bool" where
  "adds_streams s s' \<longleftrightarrow> adds_entries (st_send s) (st_send s') \<and>
   st_unacked_data s' = st_unacked_data s \<and> st_data_sent s' = st_data_sent s \<and> st_max_data s' = st_max_data s"

lemma adds_entries_refl [simp]: "adds_entries m m"
  by (simp add: adds_entries_def)

lemma adds_streams_refl [simp]: "adds_streams s s"
  by (simp add: adds_streams_def)

lemma adds_entries_trans:
  assumes "adds_entries m m1" "adds_entries m1 m2"
  shows "adds_entries m m2"
proof -
  have "dom m2 - dom m \<subseteq> (dom m2 - dom m1) \<union> (dom m1 - dom m)" by blast
  then have "finite (dom m2 - dom m)" using assms by (auto simp: adds_entries_def intro: finite_subset)
  moreover have "m2 i = m i \<or> m i = None \<and> m2 i = Some None" for i
  proof -
    have "m1 i = m i \<or> m i = None \<and> m1 i = Some None" "m2 i = m1 i \<or> m1 i = None \<and> m2 i = Some None"
      using assms by (simp_all add: adds_entries_def)
    then show ?thesis by auto
  qed
  ultimately show ?thesis by (simp add: adds_entries_def)
qed

lemma adds_streams_trans: "adds_streams s s1 \<Longrightarrow> adds_streams s1 s2 \<Longrightarrow> adds_streams s s2"
  using adds_entries_trans by (auto simp: adds_streams_def)

lemma adds_streams_fields:
  "adds_streams s s' \<Longrightarrow> st_send t' = st_send s' \<Longrightarrow> st_unacked_data t' = st_unacked_data s' \<Longrightarrow>
    st_data_sent t' = st_data_sent s' \<Longrightarrow> st_max_data t' = st_max_data s' \<Longrightarrow> adds_streams s t'"
  by (simp add: adds_streams_def)

lemma streams_insert_adds: "streams_insert remote i s = Some s' \<Longrightarrow> adds_streams s s'"
proof -
  assume "streams_insert remote i s = Some s'"
  then have "(st_send s i = None \<and> st_send s' = (st_send s)(i \<mapsto> None) \<or> st_send s' = st_send s) \<and>
      st_unacked_data s' = st_unacked_data s \<and> st_data_sent s' = st_data_sent s \<and> st_max_data s' = st_max_data s"
    by (auto simp: streams_insert_def Let_def split: if_splits prod.splits)
  moreover have "adds_entries m (m(i \<mapsto> None))" if "m i = None" for m
    using that by (auto simp: adds_entries_def intro: finite_subset [of _ "{i}"])
  ultimately show ?thesis by (auto simp: adds_streams_def)
qed

lemma insert_remote_range_adds: "insert_remote_range d k n s = Some s' \<Longrightarrow> adds_streams s s'"
proof (induction n arbitrary: k s)
  case (Suc n)
  then show ?case using streams_insert_adds adds_streams_trans by (fastforce simp: bind_eq_Some_conv)
qed simp

lemma adds_streams_from:
  "adds_streams t s' \<Longrightarrow> st_send t = st_send s \<Longrightarrow> st_unacked_data t = st_unacked_data s \<Longrightarrow>
    st_data_sent t = st_data_sent s \<Longrightarrow> st_max_data t = st_max_data s \<Longrightarrow> adds_streams s s'"
  by (simp add: adds_streams_def)

lemma ensure_remote_streams_adds: "ensure_remote_streams d s = Some s' \<Longrightarrow> adds_streams s s'"
  by (auto simp: ensure_remote_streams_def Let_def bind_eq_Some_conv dest!: insert_remote_range_adds
      elim!: adds_streams_fields)

lemma bind_if_Some:
  "Option.bind (if a then if b then m else Some s else Some s) (\<lambda>s1. Some (f s1)) = Some s' \<Longrightarrow>
    \<exists>s1. (s1 = s \<or> m = Some s1) \<and> s' = f s1"
  by (auto simp: bind_eq_Some_conv split: if_splits)

lemma stream_freed_adds:
  assumes "stream_freed i half s = Some s'"
  shows "adds_streams s s'"
proof -
  let ?s = "s\<lparr>st_allocated_remote_count :=
    (st_allocated_remote_count s)(stream_id_dir i := wrapping_sub (st_allocated_remote_count s (stream_id_dir i)) 1)\<rparr>"
  obtain s1 where s1: "s1 = s \<or> ensure_remote_streams (stream_id_dir i) ?s = Some s1"
      and s': "s' = (if half = SendHalf then s1\<lparr>st_send_streams := wrapping_sub (st_send_streams s1) 1\<rparr> else s1)"
    using bind_if_Some [OF assms [unfolded stream_freed_def Let_def]] by blast
  have "adds_streams s s1" using s1
  proof
    assume "ensure_remote_streams (stream_id_dir i) ?s = Some s1"
    then show ?thesis by (rule adds_streams_from [OF ensure_remote_streams_adds]) simp_all
  qed simp
  then show ?thesis unfolding s' by (cases "half = SendHalf") (auto elim: adds_streams_fields)
qed

lemma msum_adds:
  assumes "adds_entries m m'" "finite (dom m)"
  shows "msum unacked_of m' = msum unacked_of m" "finite (dom m')"
proof -
  have sub: "dom m \<subseteq> dom m'" using assms(1) by (force simp: adds_entries_def dom_def)
  then have dom: "dom m' = dom m \<union> (dom m' - dom m)" by blast
  then show fin: "finite (dom m')" using assms by (metis adds_entries_def finite_Un)
  have "unacked_of (m' i) = 0" if "i \<in> dom m' - dom m" for i
    using assms(1) that by (metis DiffE adds_entries_def domIff unacked_of_simps(2))
  then have "msum unacked_of m' = (\<Sum>i \<in> dom m. unacked_of (m' i))"
    unfolding msum_def using sub fin by (intro sum.mono_neutral_right) auto
  also have "\<dots> = msum unacked_of m"
    unfolding msum_def
  proof (intro sum.cong refl)
    fix i assume "i \<in> dom m"
    then have "m' i = m i" using assms(1) by (metis adds_entries_def domIff)
    then show "unacked_of (m' i) = unacked_of (m i)" by simp
  qed
  finally show "msum unacked_of m' = msum unacked_of m" .
qed

lemma tx_inv_adds:
  assumes "tx_inv S s F" "adds_streams s s'"
  shows "tx_inv S s' F"
proof -
  have ad: "adds_entries (st_send s) (st_send s')" using assms(2) by (simp add: adds_streams_def)
  have "entry_ok (S i) (st_send s' i) (F i)" for i
  proof -
    have "st_send s' i = st_send s i \<or> st_send s i = None \<and> st_send s' i = Some None"
      using ad by (simp add: adds_entries_def)
    moreover have "entry_ok (S i) (st_send s i) (F i)" using assms(1) by (simp add: tx_inv_def)
    ultimately show ?thesis by (auto simp: entry_ok_def)
  qed
  then show ?thesis using assms msum_adds [OF ad] by (simp add: tx_inv_def adds_streams_def)
qed

section \<open>Every operation keeps the books\<close>

lemma entry_get:
  assumes "entry_ok S (Some e) F"
  shows "entry_ok S (Some (Some (get_or_insert_send m e))) F"
    "unacked_of (Some (Some (get_or_insert_send m e))) = unacked_of (Some e)"
proof -
  have "sb_inv S send_buffer_new []" by (rule send_buffer_new_inv)
  then show "entry_ok S (Some (Some (get_or_insert_send m e))) F"
    using assms by (cases e) (auto simp: entry_ok_def get_or_insert_send_def send_new_def send_offset_def send_buffer_new_def)
  show "unacked_of (Some (Some (get_or_insert_send m e))) = unacked_of (Some e)"
    by (cases e) (simp_all add: get_or_insert_send_def unacked_of_def send_new_def is_reset_def sb_unacked_def send_buffer_new_def)
qed

lemma entry_ok_at: "tx_inv S s F \<Longrightarrow> st_send s i = e \<Longrightarrow> entry_ok (S i) e (F i)"
  by (auto simp: tx_inv_def)

lemma on_stream_frame_fields [simp]:
  "st_send (on_stream_frame b i s) = st_send s" "st_unacked_data (on_stream_frame b i s) = st_unacked_data s"
  "st_data_sent (on_stream_frame b i s) = st_data_sent s" "st_max_data (on_stream_frame b i s) = st_max_data s"
  by (simp_all add: on_stream_frame_def Let_def)

text \<open>Operations that leave a stream's data alone.\<close>

lemma tx_inv_put:
  assumes "tx_inv S s F" "st_send s i = Some e" "st_send s' = (st_send s)(i \<mapsto> Some x)"
    "sn_pending x = sn_pending (get_or_insert_send m e)" "sn_max_data (get_or_insert_send m e) \<le> sn_max_data x"
    "is_reset x = is_reset (get_or_insert_send m e)" "st_unacked_data s' = st_unacked_data s"
    "st_data_sent s' = st_data_sent s" "st_max_data s' = st_max_data s"
  shows "tx_inv S s' F"
proof (rule tx_inv_update [OF assms(1,3)])
  have ok: "entry_ok (S i) (Some e) (F i)" using entry_ok_at assms(1,2) by blast
  show "entry_ok (S i) (Some (Some x)) (F i)"
    using entry_get(1) [OF ok, of m] assms(4-6) by (auto simp: entry_ok_def send_offset_def)
  have "unacked_of (Some (Some x)) = unacked_of (Some (Some (get_or_insert_send m e)))"
    using assms(4,6) by (simp add: unacked_of_def)
  then show "st_unacked_data s' + unacked_of (st_send s i) = st_unacked_data s + unacked_of (Some (Some x))"
    using entry_get(2) [OF ok, of m] assms(2,7) by simp
  show "st_data_sent s' \<le> st_max_data s'" using assms(1,8,9) by (simp add: tx_inv_def)
qed simp

lemma tx_inv_finish: "tx_inv S s F \<Longrightarrow> tx_inv S (snd (send_stream_finish i s)) F"
proof (cases "st_send s i")
  case (Some e)
  assume inv: "tx_inv S s F"
  let ?x = "get_or_insert_send (max_send_data i s) e"
  show ?thesis
  proof (cases "send_finish ?x")
    case (Inl err)
    then show ?thesis using Some
      by (intro tx_inv_put [OF inv Some, of _ ?x "max_send_data i s"]) (simp_all add: send_stream_finish_def Let_def put_send_def)
  next
    case (Inr x')
    then have "sn_pending x' = sn_pending ?x" "sn_max_data x' = sn_max_data ?x" "is_reset x' = is_reset ?x"
      by (auto simp: send_finish_def is_reset_def split: option.splits if_splits)
    then show ?thesis using Some Inr
      by (intro tx_inv_put [OF inv Some, of _ x' "max_send_data i s"]) (simp_all add: send_stream_finish_def Let_def put_send_def)
  qed
qed (simp add: send_stream_finish_def)

lemma tx_inv_set_priority: "tx_inv S s F \<Longrightarrow> tx_inv S (snd (send_stream_set_priority i p s)) F"
proof (cases "st_send s i")
  case (Some e)
  assume inv: "tx_inv S s F"
  show ?thesis using Some
    by (intro tx_inv_put [OF inv Some, of _ "(get_or_insert_send (max_send_data i s) e)\<lparr>sn_priority := p\<rparr>" "max_send_data i s"])
      (simp_all add: send_stream_set_priority_def put_send_def is_reset_def)
qed (simp add: send_stream_set_priority_def)

lemma tx_inv_stop_sending: "tx_inv S s F \<Longrightarrow> tx_inv S (received_stop_sending i code s) F"
proof (cases "st_send s i")
  case (Some e)
  assume inv: "tx_inv S s F"
  let ?x = "get_or_insert_send (max_send_data i s) e"
  obtain b x' where t: "try_stop code ?x = (b, x')" by (metis prod.exhaust)
  then have "sn_pending x' = sn_pending ?x" "sn_max_data x' = sn_max_data ?x" "is_reset x' = is_reset ?x"
    by (auto simp: try_stop_def is_reset_def split: if_splits)
  then show ?thesis using Some t
    by (intro tx_inv_put [OF inv Some, of _ x' "max_send_data i s"]) (simp_all add: received_stop_sending_def put_send_def Let_def)
qed (simp add: received_stop_sending_def)

lemma tx_inv_max_stream_data:
  assumes inv: "tx_inv S s F" and r: "received_max_stream_data i n s = Inr s'"
  shows "tx_inv S s' F"
proof (cases "st_send s i")
  case None
  then have "st_send s' = st_send s \<and> st_unacked_data s' = st_unacked_data s \<and> st_data_sent s' = st_data_sent s \<and>
      st_max_data s' = st_max_data s"
    using r by (auto simp: received_max_stream_data_def split: if_splits)
  then show ?thesis using inv by (simp add: tx_inv_def)
next
  case (Some e)
  let ?x = "get_or_insert_send (max_send_data i s) e"
  obtain b x' where t: "increase_max_data n ?x = (b, x')" by (metis prod.exhaust)
  then have x': "sn_pending x' = sn_pending ?x" "sn_max_data ?x \<le> sn_max_data x'" "is_reset x' = is_reset ?x"
    by (auto simp: increase_max_data_def is_reset_def split: if_splits)
  obtain x'' where s': "st_send s' = (st_send s)(i \<mapsto> Some x'')" "x'' = x' \<or> x'' = x'\<lparr>sn_connection_blocked := True\<rparr>"
      "st_unacked_data s' = st_unacked_data s" "st_data_sent s' = st_data_sent s" "st_max_data s' = st_max_data s"
    using r Some t by (auto simp: received_max_stream_data_def put_send_def split: if_splits)
  then have "sn_pending x'' = sn_pending x'" "sn_max_data x'' = sn_max_data x'" "is_reset x'' = is_reset x'"
    by (auto simp: is_reset_def)
  then show ?thesis using x' s' by (intro tx_inv_put [OF inv Some s'(1), of "max_send_data i s"]) simp_all
qed

lemma tx_inv_reset: "tx_inv S s F \<Longrightarrow> tx_inv S (snd (send_stream_reset i code pending s)) F"
proof (cases "st_send s i")
  case (Some e)
  assume inv: "tx_inv S s F"
  let ?x = "get_or_insert_send (max_send_data i s) e"
  have ok: "entry_ok (S i) (Some e) (F i)" using entry_ok_at inv Some by blast
  show ?thesis
  proof (cases "is_reset ?x")
    case True
    then show ?thesis using Some
      by (intro tx_inv_put [OF inv Some, of _ ?x "max_send_data i s"])
        (simp_all add: send_stream_reset_def Let_def put_send_def is_reset_def)
  next
    case False
    have e: "unacked_of (Some e) = sb_unacked (sn_pending ?x)" using entry_get(2) [OF ok, of "max_send_data i s"] False by simp
    have "msum unacked_of ((st_send s)(i := None)) + unacked_of (Some e) = msum unacked_of (st_send s)"
      using msum_update [of "st_send s" unacked_of i None] inv Some by (simp add: tx_inv_def)
    then have le: "sb_unacked (sn_pending ?x) \<le> st_unacked_data s" using e inv by (simp add: tx_inv_def)
    have s': "snd (send_stream_reset i code pending s) = (put_send i (send_reset ?x) s)
        \<lparr>st_unacked_data := wrapping_sub (st_unacked_data s) (sb_unacked (sn_pending ?x))\<rparr>"
      using Some False by (simp add: send_stream_reset_def Let_def is_reset_def)
    show ?thesis
    proof (rule tx_inv_update [OF inv, of _ i "Some (Some (send_reset ?x))"])
      show "entry_ok (S i) (Some (Some (send_reset ?x))) (F i)"
        using entry_get(1) [OF ok, of "max_send_data i s"] by (auto simp: entry_ok_def send_reset_def send_offset_def is_reset_def)
      have "unacked_of (Some (Some (send_reset ?x))) = 0" by (simp add: send_reset_def is_reset_def)
      then show "st_unacked_data (snd (send_stream_reset i code pending s)) + unacked_of (st_send s i) =
          st_unacked_data s + unacked_of (Some (Some (send_reset ?x)))"
        unfolding s' using Some e le by simp
    qed (use inv in \<open>simp_all add: s' put_send_def tx_inv_def\<close>)
  qed
qed (simp add: send_stream_reset_def)

lemma streams_open_adds: "streams_open closed d s = Some (i, s') \<Longrightarrow> adds_streams s s'"
proof -
  assume o: "streams_open closed d s = Some (i, s')"
  let ?t = "s\<lparr>st_next := (st_next s)(d := st_next s d + 1)\<rparr>"
  consider "st_send s' = st_send s" "st_unacked_data s' = st_unacked_data s" "st_data_sent s' = st_data_sent s"
      "st_max_data s' = st_max_data s"
    | s1 where "streams_insert False (stream_id_new (st_side s) d (st_next s d)) ?t = Some s1"
      "s' = s1\<lparr>st_send_streams := st_send_streams s1 + 1\<rparr>"
    using o by (auto simp: streams_open_def Let_def bind_eq_Some_conv simp del: One_nat_def split: if_splits)
  then show ?thesis
  proof cases
    case 1
    then show ?thesis by (auto intro: adds_streams_fields [OF adds_streams_refl])
  next
    case 2
    have "adds_streams s s1" by (rule adds_streams_from [OF streams_insert_adds [OF 2(1)]]) simp_all
    then show ?thesis using 2(2) by (auto elim: adds_streams_fields)
  qed
qed

lemma tx_inv_removed:
  assumes inv: "tx_inv S s F" and fields: "st_send t = (st_send s)(i := None)"
      "st_unacked_data t + unacked_of (st_send s i) = st_unacked_data s" "st_data_sent t = st_data_sent s" "st_max_data t = st_max_data s"
    and freed: "stream_freed i half t = Some s'"
  shows "tx_inv S s' (F(i := []))"
proof (rule tx_inv_adds [OF _ stream_freed_adds [OF freed]])
  show "tx_inv S t (F(i := []))"
    using inv fields by (intro tx_inv_update [OF inv fields(1)]) (auto simp: entry_ok_def tx_inv_def)
qed

lemma freed_has_no_send:
  assumes "stream_freed i half t = Some s'" "st_send t i = None"
  shows "\<not> has_send s' i"
proof -
  have "adds_entries (st_send t) (st_send s')" using stream_freed_adds [OF assms(1)] by (simp add: adds_streams_def)
  then have "st_send s' i = st_send t i \<or> st_send s' i = Some None" by (simp add: adds_entries_def) metis
  then show ?thesis using assms(2) by (auto simp: has_send_def)
qed

lemma no_send_no_flight: "tx_inv S s F \<Longrightarrow> \<not> has_send s i \<Longrightarrow> F i = []"
  using entry_ok_at [of S s F i] by (auto simp: has_send_def entry_ok_def split: option.splits)

lemma tx_inv_reset_acked:
  assumes inv: "tx_inv S s F" and r: "reset_acked i s = Some s'"
  shows "tx_inv S s' (F(i := (if has_send s' i then F i else [])))"
proof (cases "\<exists>x. st_send s i = Some (Some x) \<and> is_reset x")
  case True
  then obtain x where x: "st_send s i = Some (Some x)" "is_reset x" by blast
  have free: "stream_freed i SendHalf (s\<lparr>st_send := (st_send s)(i := None)\<rparr>) = Some s'"
    using r x by (simp add: reset_acked_def is_reset_def)
  have "tx_inv S s' (F(i := []))" using x by (intro tx_inv_removed [OF inv _ _ _ _ free]) simp_all
  then show ?thesis using freed_has_no_send [OF free] by simp
next
  case False
  then have s': "s' = s" using r by (auto simp: reset_acked_def is_reset_def split: option.splits if_splits)
  have "F(i := (if has_send s' i then F i else [])) = F" using s' no_send_no_flight [OF inv, of i] by auto
  then show ?thesis using s' inv by simp
qed

lemma fully_acked_unacked:
  assumes "sb_inv S b F" "sb_is_fully_acked b"
  shows "sb_unacked b = 0"
proof -
  have "sb_base b = sb_offset b" using assms(2) by (simp add: sb_base_def sb_is_fully_acked_def)
  then have "rs_set (sb_acks b) = {}" "rs_inv (sb_acks b)"
    using assms(1) by (auto simp: sb_inv_def sb_tracked_def splits_def)
  then have "rs_size (sb_acks b) = 0" by (simp add: rs_size_card)
  then show ?thesis using assms(2) unfolding sb_unacked_def rs_size_def sb_is_fully_acked_def by simp
qed

lemma tx_inv_ack:
  assumes inv: "tx_inv S s F" and r: "received_ack_of frame s = Some s'" and F: "F (sm_id frame) = F1 @ sm_offsets frame # F2"
  shows "tx_inv S s' (F(sm_id frame := (if has_send s' (sm_id frame) then F1 @ F2 else [])))"
proof -
  let ?i = "sm_id frame"
  have "has_send s ?i" using no_send_no_flight [OF inv] F by fastforce
  then obtain x where x: "st_send s ?i = Some (Some x)" by (auto simp: has_send_def split: option.splits)
  obtain a e where off: "sm_offsets frame = (a, e)" by (metis prod.exhaust)
  have ok: "entry_ok (S ?i) (Some (Some x)) (F1 @ (a, e) # F2)" using entry_ok_at [OF inv x] F off by simp
  show ?thesis
  proof (cases "is_reset x")
    case True
    then have s': "s' = s" using r x off by (simp add: received_ack_of_def)
    have "tx_inv S s (F(?i := F1 @ F2))"
      using ok True x inv by (intro tx_inv_update [OF inv, of s ?i "Some (Some x)"]) (auto simp: entry_ok_def tx_inv_def)
    then show ?thesis using s' x by (simp add: has_send_def)
  next
    case False
    then have b: "sb_inv (S ?i) (sn_pending x) (F1 @ (a, e) # F2)" using ok by (simp add: entry_ok_def)
    obtain b' where b': "sb_ack (a, e) (sn_pending x) = Some b'" "sb_inv (S ?i) b' (F1 @ F2)"
        "sb_offset b' = sb_offset (sn_pending x)" "sb_unsent b' = sb_unsent (sn_pending x)"
        "sb_retransmits b' = sb_retransmits (sn_pending x)"
      using sb_ack_inv [OF b] by blast
    have un: "sb_unacked (sn_pending x) = sb_unacked b' + (e - a)"
      using sb_unacked_split [OF b] sb_unacked_split [OF b'(2)] b'(3-5) by (simp add: rs_size_def)
    have ae: "a \<le> e" using b by (simp add: sb_inv_def sb_tracked_def flight_ok_middle)
    have "msum unacked_of ((st_send s)(?i := None)) + unacked_of (Some (Some x)) = st_unacked_data s"
      using msum_update [of "st_send s" unacked_of ?i None] inv x by (simp add: tx_inv_def)
    then have le: "sb_unacked b' + (e - a) \<le> st_unacked_data s" using un False by simp
    obtain fin x' where fx: "send_ack frame x = Some (fin, x')" "sn_pending x' = b'" "sn_max_data x' = sn_max_data x"
        "\<not> is_reset x'" "fin \<longrightarrow> sb_is_fully_acked b'"
      using b'(1) off False that by (cases "sn_state x") (auto simp: send_ack_def is_reset_def Let_def)
    let ?t = "s\<lparr>st_unacked_data := st_unacked_data s - (e - a)\<rparr>"
    show ?thesis
    proof (cases fin)
      case True
      let ?u = "?t\<lparr>st_send := (st_send s)(?i := None)\<rparr>"
      obtain s2 where s2: "stream_freed ?i SendHalf ?u = Some s2" "s' = s2\<lparr>st_events := st_events s2 @ [Finished ?i]\<rparr>"
        using r x off False fx(1) True le ae by (auto simp: received_ack_of_def bind_eq_Some_conv Let_def)
      have "sb_unacked b' = 0" using fx(5) True fully_acked_unacked [OF b'(2)] by simp
      then have "tx_inv S s2 (F(?i := []))" using x False un le by (intro tx_inv_removed [OF inv _ _ _ _ s2(1)]) simp_all
      moreover have "\<not> has_send s2 ?i" by (rule freed_has_no_send [OF s2(1)]) simp
      ultimately show ?thesis unfolding s2(2) by (simp add: tx_inv_def has_send_def)
    next
      case nfin: False
      then have s': "s' = put_send ?i x' ?t" using r x off False fx(1) le ae by (simp add: received_ack_of_def)
      have "tx_inv S s' (F(?i := F1 @ F2))"
      proof (rule tx_inv_update [OF inv, of _ ?i "Some (Some x')"])
        show "entry_ok (S ?i) (Some (Some x')) ((F(?i := F1 @ F2)) ?i)"
          using ok fx(2,3) b'(2,3) by (simp add: entry_ok_def send_offset_def)
      qed (use s' fx x False un le inv in \<open>simp_all add: put_send_def tx_inv_def\<close>)
      then show ?thesis using s' by (simp add: has_send_def put_send_def)
    qed
  qed
qed

lemma tx_inv_lost:
  assumes inv: "tx_inv S s F" and F: "F (sm_id frame) = F1 @ sm_offsets frame # F2"
  shows "tx_inv S (streams_retransmit frame s) (F(sm_id frame := F1 @ F2))"
proof -
  let ?i = "sm_id frame"
  have "has_send s ?i" using no_send_no_flight [OF inv] F by fastforce
  then obtain x where x: "st_send s ?i = Some (Some x)" by (auto simp: has_send_def split: option.splits)
  obtain a e where off: "sm_offsets frame = (a, e)" by (metis prod.exhaust)
  let ?x = "x\<lparr>sn_fin_pending := sn_fin_pending x \<or> sm_fin frame, sn_pending := sb_retransmit (sm_offsets frame) (sn_pending x)\<rparr>"
  have ok: "entry_ok (S ?i) (Some (Some x)) (F1 @ (a, e) # F2)" using entry_ok_at [OF inv x] F off by simp
  show ?thesis
  proof (rule tx_inv_update [OF inv, of _ ?i "Some (Some ?x)"])
    show "entry_ok (S ?i) (Some (Some ?x)) ((F(?i := F1 @ F2)) ?i)"
      using ok off sb_retransmit_inv [of "S ?i" "sn_pending x" F1 a e F2]
      by (auto simp: entry_ok_def send_offset_def is_reset_def sb_retransmit_def split: prod.splits)
    have "sb_unacked (sb_retransmit (a, e) b) = sb_unacked b" for b
      by (simp add: sb_unacked_def sb_retransmit_def)
    then have "unacked_of (Some (Some ?x)) = unacked_of (Some (Some x))" using off by (simp add: unacked_of_def is_reset_def)
    then show "st_unacked_data (streams_retransmit frame s) + unacked_of (st_send s ?i) = st_unacked_data s + unacked_of (Some (Some ?x))"
      using x by (simp add: streams_retransmit_def Let_def put_send_def)
  qed (use inv x in \<open>simp_all add: streams_retransmit_def Let_def put_send_def tx_inv_def\<close>)
qed

lemma poll_transmit_unacked: "sb_poll_transmit n b = Some (r, b') \<Longrightarrow> sb_unacked b' = sb_unacked b"
  by (auto simp: sb_poll_transmit_def sb_unacked_def split: prod.splits option.splits)

lemma tx_inv_frame:
  assumes inv: "tx_inv S s F" and x: "st_send s i = Some (Some x)" "\<not> is_reset x"
    and sz: "length buf + STREAM_SIZE_BOUND < sz" "sz < 2 ^ 62"
    and w: "write_stream_frame sz fair i x buf s = Some (meta, buf', s')"
  shows "tx_inv S s' (F(i := sm_offsets meta # F i))"
proof -
  have b: "sb_inv (S i) (sn_pending x) (F i)" and off: "send_offset x \<le> sn_max_data x"
    using entry_ok_at [OF inv x(1)] x(2) by (simp_all add: entry_ok_def)
  obtain id_size where id: "varint_size i = Some id_size" using w by (auto simp: write_stream_frame_def bind_eq_Some_conv)
  let ?n = "wrapping_sub (wrapping_sub (wrapping_sub sz (length buf)) 1) id_size"
  have n: "16 \<le> ?n" "?n < 2 ^ 62" using id sz by (auto simp: varint_size_def STREAM_SIZE_BOUND_def split: if_splits)
  obtain a e enc b' where p: "sb_poll_transmit ?n (sn_pending x) = Some (((a, e), enc), b')" "sb_inv (S i) b' ((a, e) # F i)"
      "sb_offset b' = sb_offset (sn_pending x)"
    using poll_transmit_inv [OF b n] by blast
  obtain x' where m: "sm_offsets meta = (a, e)" and s': "st_send s' = (st_send s)(i \<mapsto> Some x')" "st_unacked_data s' = st_unacked_data s"
      "st_data_sent s' = st_data_sent s" "st_max_data s' = st_max_data s"
      and x': "sn_pending x' = b'" "sn_max_data x' = sn_max_data x" "is_reset x' = is_reset x"
    using w id p(1) by (auto simp: write_stream_frame_def bind_eq_Some_conv Let_def put_send_def is_reset_def)
  show ?thesis
  proof (rule tx_inv_update [OF inv s'(1)])
    show "entry_ok (S i) (Some (Some x')) ((F(i := sm_offsets meta # F i)) i)"
      using p(2,3) m x' off by (simp add: entry_ok_def send_offset_def)
    show "st_unacked_data s' + unacked_of (st_send s i) = st_unacked_data s + unacked_of (Some (Some x'))"
      using poll_transmit_unacked [OF p(1)] x x' s'(2) by simp
  qed (use inv s' in \<open>simp_all add: tx_inv_def\<close>)
qed

lemma fold_sb_write_fields [simp]:
  "sb_unsent (fold sb_write chunks b) = sb_unsent b" "sb_retransmits (fold sb_write chunks b) = sb_retransmits b"
  by (induction chunks arbitrary: b) (simp_all add: sb_write_def)

lemma tx_inv_write:
  assumes inv: "tx_inv S s F" and w: "write_source slice_pop_chunk closed i data s = Some (r, s')"
    and data: "slice (S i) (stream_off i s) (length data) = data" "stream_off i s + length data < 2 ^ 62"
  shows "tx_inv S s' F"
proof (cases "closed \<or> st_send s i = None")
  case True
  then have "s' = s" using w by (auto simp: write_source_def Let_def split: if_splits)
  then show ?thesis using inv by simp
next
  case False
  then obtain e where e: "st_send s i = Some e" and nc: "\<not> closed" by auto
  let ?m = "max_send_data i s" and ?limit = "write_limit s"
  let ?x = "get_or_insert_send ?m e"
  have ok: "entry_ok (S i) (Some (Some ?x)) (F i)" "unacked_of (Some (Some ?x)) = unacked_of (Some e)"
    using entry_get [OF entry_ok_at [OF inv e]] by blast+
  consider x where "st_send s' = (st_send s)(i \<mapsto> Some x)" "sn_pending x = sn_pending ?x" "sn_max_data x = sn_max_data ?x"
      "is_reset x = is_reset ?x" "st_unacked_data s' = st_unacked_data s" "st_data_sent s' = st_data_sent s"
      "st_max_data s' = st_max_data s"
    | wr src x' where "send_write slice_pop_chunk ?limit data ?x = Some (Inr (wr, src, x'))"
      "st_send s' = (st_send s)(i \<mapsto> Some x')" "st_unacked_data s' = st_unacked_data s + wr_bytes wr"
      "st_data_sent s' = st_data_sent s + wr_bytes wr" "st_max_data s' = st_max_data s"
    using w e nc by (auto simp: write_source_def Let_def put_send_def is_reset_def split: if_splits option.splits sum.splits prod.splits)
  then show ?thesis
  proof cases
    case (1 x)
    then show ?thesis by (intro tx_inv_put [OF inv e 1(1), of ?m]) simp_all
  next
    case (2 wr src x')
    have off: "send_offset ?x \<le> sn_max_data ?x" using ok(1) by (simp add: entry_ok_def)
    have wr: "is_writable ?x" "sn_stop_reason ?x = None"
      using 2(1) by (auto simp: send_write_def Let_def split: if_splits option.splits)
    then have nr: "\<not> is_reset ?x" and b: "sb_inv (S i) (sn_pending ?x) (F i)"
      using ok(1) by (auto simp: entry_ok_def is_writable_def is_reset_def)
    have so: "stream_off i s = send_offset ?x"
      using e by (cases e) (simp_all add: stream_off_def get_or_insert_send_def send_new_def send_offset_def send_buffer_new_def)
    define n where "n = min ?limit (sn_max_data ?x - send_offset ?x)"
    obtain chunks where c: "x' = ?x\<lparr>sn_pending := fold sb_write chunks (sn_pending ?x)\<rparr>" "concat chunks = take n data"
        "wr_bytes wr = length (take n data)" "send_offset x' \<le> sn_max_data x'"
      using byte_slice.send_write_accepts [OF wr off, of data ?limit] 2(1)
      by (auto simp: accepts_def n_def Let_def split: if_splits)
    have tk: "slice (S i) (send_offset ?x) (length (take n data)) = take n data"
      using data(1) so by (metis length_take min.commute take_slice)
    have b': "sb_inv (S i) (sn_pending x') (F i)"
      using fold_sb_write_inv [OF b, of chunks] c(1,2) tk data(2) so by (simp add: send_offset_def)
    have "sb_offset (sn_pending x') = sb_offset (sn_pending ?x) + wr_bytes wr" "sb_unsent (sn_pending x') = sb_unsent (sn_pending ?x)"
        "sb_retransmits (sn_pending x') = sb_retransmits (sn_pending ?x)"
      using c(1-3) fold_sb_write by simp_all
    then have un: "sb_unacked (sn_pending x') = sb_unacked (sn_pending ?x) + wr_bytes wr"
      using sb_unacked_split [OF b] sb_unacked_split [OF b'] b by (simp add: sb_inv_def sb_tracked_def)
    have "wr_bytes wr \<le> n" by (simp add: c(3))
    moreover have "n \<le> write_limit s" by (simp add: n_def)
    moreover have "write_limit s \<le> st_max_data s - st_data_sent s" using inv by (simp add: write_limit_def tx_inv_def)
    ultimately have "wr_bytes wr \<le> st_max_data s - st_data_sent s" by simp
    moreover have "st_data_sent s \<le> st_max_data s" using inv by (simp add: tx_inv_def)
    ultimately have lim: "st_data_sent s' \<le> st_max_data s'" unfolding 2(4,5) by linarith
    show ?thesis
    proof (rule tx_inv_update [OF inv 2(2) _ _ _ lim])
      show "entry_ok (S i) (Some (Some x')) (F i)" using b' c(4) by (simp add: entry_ok_def)
      have "\<not> is_reset x'" using nr c(1) by (simp add: is_reset_def)
      then show "st_unacked_data s' + unacked_of (st_send s i) = st_unacked_data s + unacked_of (Some (Some x'))"
        using un nr ok(2) e 2(3) by simp
    qed simp
  qed
qed

lemma tx_step_inv: "tx_step S (s, F) (s', F') \<Longrightarrow> tx_inv S s F \<Longrightarrow> tx_inv S s' F'"
proof (induction "(s, F)" "(s', F')" rule: tx_step.induct)
  case (tx_open closed d i)
  then show ?case using tx_inv_adds streams_open_adds by blast
next
  case (tx_write closed i data r)
  then show ?case using tx_inv_write by blast
next
  case (tx_frame i x buf sz fair meta buf')
  then show ?case by (auto intro: tx_inv_frame)
next
  case (tx_ack frame F1 F2)
  then show ?case by (auto intro: tx_inv_ack)
next
  case (tx_lost frame F1 F2)
  then show ?case by (auto intro: tx_inv_lost)
next
  case (tx_reset_acked i)
  then show ?case by (auto intro: tx_inv_reset_acked)
next
  case (tx_max_data n)
  then show ?case by (auto intro: tx_inv_same simp: received_max_data_def tx_inv_def)
next
  case (tx_max_stream_data i n)
  then show ?case using tx_inv_max_stream_data by blast
next
  case (tx_send_window n)
  then show ?case by (auto intro: tx_inv_same simp: set_send_window_def tx_inv_def)
qed (auto intro: tx_inv_finish tx_inv_reset tx_inv_set_priority tx_inv_stop_sending)

lemma tx_start_inv: "tx_start s \<Longrightarrow> tx_inv S s (\<lambda>_. [])"
proof -
  assume st: "tx_start s"
  then have e: "st_send s i = None \<or> st_send s i = Some None" for i
    by (cases "st_send s i") (auto simp: tx_start_def ran_def)
  have "entry_ok (S i) (st_send s i) []" "unacked_of (st_send s i) = 0" for i
    using e [of i] by (auto simp: entry_ok_def)
  then show ?thesis using st by (simp add: tx_inv_def tx_start_def msum_def)
qed

lemma tx_reachable_inv: "tx_reachable S (s, F) \<Longrightarrow> tx_inv S s F"
proof (induction "(s, F)" arbitrary: s F rule: tx_reachable.induct)
  case (tx_next st)
  then show ?case using tx_step_inv by (cases st) blast
qed (simp add: tx_start_inv)


text \<open>A write always returns, and never touches the connection's limit.\<close>

lemma write_source_total:
  assumes inv: "tx_inv S s F"
  shows "\<exists>r s'. write_source slice_pop_chunk closed i data s = Some (r, s') \<and> st_max_data s' = st_max_data s"
proof (cases "closed \<or> st_send s i = None")
  case True
  then show ?thesis by (auto simp: write_source_def Let_def)
next
  case False
  then obtain e where e: "st_send s i = Some e" and nc: "\<not> closed" by auto
  let ?x = "get_or_insert_send (max_send_data i s) e"
  have off: "send_offset ?x \<le> sn_max_data ?x"
    using entry_get(1) [OF entry_ok_at [OF inv e]] by (simp add: entry_ok_def)
  have "\<exists>r. send_write slice_pop_chunk (write_limit s) data ?x = Some r"
  proof (cases "is_writable ?x \<and> sn_stop_reason ?x = None")
    case True
    then show ?thesis using byte_slice.send_write_accepts [of ?x data "write_limit s"] off
      by (auto simp: accepts_def Let_def split: if_splits)
  qed (auto simp: send_write_def)
  then show ?thesis using e nc
    by (auto simp: write_source_def put_send_def Let_def split: sum.splits prod.splits)
qed

text \<open>A client with a stream of its own that may send ten bytes, on a connection that may send four.\<close>

definition example_client :: streams where
  "example_client = the (streams_new Client 0 0 100 100 50)"

definition example_opened :: streams where
  "example_opened = snd (the (streams_open False Uni
     (example_client\<lparr>st_max := (\<lambda>_. 1), st_max_data := 4, st_initial_max_stream_data_uni := 10\<rparr>)))"

lemma example_opened_fields:
  "st_send example_opened = [2 \<mapsto> None]" "st_unacked_data example_opened = 0"
  "st_data_sent example_opened = 0" "st_max_data example_opened = 4"
  by (simp_all add: example_opened_def example_client_def streams_new_def streams_open_def streams_insert_def Let_def vec_pop_def
      stream_id_new_def stream_id_dir_def)


end
