(* ===== verification/Streams_Recv_Inv.thy ===== *)
theory Streams_Recv_Inv
  imports Streams_Send_Inv
begin

text \<open>
  What the receiving side of \<open>StreamsState\<close> keeps: no more is accepted than was allowed, on a stream and on the
  connection. And where its books go wrong.
\<close>

section \<open>Limits on incoming data\<close>

definition end_ok :: "recv \<Rightarrow> bool" where
  "end_ok r \<longleftrightarrow> rv_end r \<le> rv_sent_max_stream_data r"

definition slots_ok :: "streams \<Rightarrow> bool" where
  "slots_ok s \<longleftrightarrow> (\<forall>i r. st_recv s i = Some (Some r) \<longrightarrow> end_ok (into_inner r)) \<and> (\<forall>r \<in> set (st_free_recv s). end_ok (into_inner r))"

definition rx_inv :: "streams \<Rightarrow> bool" where
  "rx_inv s \<longleftrightarrow> slots_ok s \<and> st_data_recvd s \<le> st_local_max_data s \<and> st_local_max_data s < 2 ^ 64"

definition keeps_slots :: "streams \<Rightarrow> streams \<Rightarrow> bool" where
  "keeps_slots s s' \<longleftrightarrow> (slots_ok s \<longrightarrow> slots_ok s') \<and> st_data_recvd s' = st_data_recvd s \<and> st_local_max_data s' = st_local_max_data s \<and>
     st_receive_window_shrink_debt s' = st_receive_window_shrink_debt s"

lemma keeps_slots_refl [simp]: "keeps_slots s s"
  by (simp add: keeps_slots_def)

lemma keeps_slots_trans: "keeps_slots s t \<Longrightarrow> keeps_slots t u \<Longrightarrow> keeps_slots s u"
  by (simp add: keeps_slots_def)

lemma slots_ok_cong: "st_recv u = st_recv t \<Longrightarrow> st_free_recv u = st_free_recv t \<Longrightarrow> slots_ok u = slots_ok t"
  unfolding slots_ok_def by metis

lemma keeps_slots_fields:
  "keeps_slots s t \<Longrightarrow> st_recv u = st_recv t \<Longrightarrow> st_free_recv u = st_free_recv t \<Longrightarrow> st_data_recvd u = st_data_recvd t \<Longrightarrow>
    st_local_max_data u = st_local_max_data t \<Longrightarrow> st_receive_window_shrink_debt u = st_receive_window_shrink_debt t \<Longrightarrow> keeps_slots s u"
  unfolding keeps_slots_def using slots_ok_cong [of u t] by simp

lemma slots_ok_insert:
  assumes "slots_ok s" "vec_pop (st_free_recv s) = (r, free)" "st_recv s' = (st_recv s)(i \<mapsto> r)" "st_free_recv s' = free"
  shows "slots_ok s'"
proof -
  have "set free \<subseteq> set (st_free_recv s)" "\<And>x. r = Some x \<Longrightarrow> x \<in> set (st_free_recv s)"
    using assms(2) by (auto simp: vec_pop_def split: if_splits dest: in_set_butlastD)
  then show ?thesis using assms(1,3,4) by (auto simp: slots_ok_def)
qed

lemma streams_insert_keeps:
  assumes "streams_insert remote i s = Some s'"
  shows "keeps_slots s s'"
proof -
  obtain r free where v: "vec_pop (st_free_recv s) = (r, free)" by (metis prod.exhaust)
  have "(st_recv s' = st_recv s \<and> st_free_recv s' = st_free_recv s \<or> st_recv s' = (st_recv s)(i \<mapsto> r) \<and> st_free_recv s' = free) \<and>
      st_data_recvd s' = st_data_recvd s \<and> st_local_max_data s' = st_local_max_data s \<and>
      st_receive_window_shrink_debt s' = st_receive_window_shrink_debt s"
    using assms v by (auto simp: streams_insert_def Let_def split: if_splits)
  then show ?thesis unfolding keeps_slots_def using slots_ok_insert [OF _ v, of s'] slots_ok_cong [of s' s] by metis
qed

lemma insert_remote_range_keeps: "insert_remote_range d k n s = Some s' \<Longrightarrow> keeps_slots s s'"
proof (induction n arbitrary: k s)
  case (Suc n)
  then show ?case using streams_insert_keeps keeps_slots_trans by (fastforce simp: bind_eq_Some_conv)
qed simp

lemma ensure_remote_streams_keeps: "ensure_remote_streams d s = Some s' \<Longrightarrow> keeps_slots s s'"
  by (auto simp: ensure_remote_streams_def Let_def bind_eq_Some_conv dest!: insert_remote_range_keeps elim!: keeps_slots_fields)

lemma stream_freed_keeps:
  assumes "stream_freed i half s = Some s'"
  shows "keeps_slots s s'"
proof -
  let ?s = "s\<lparr>st_allocated_remote_count :=
    (st_allocated_remote_count s)(stream_id_dir i := wrapping_sub (st_allocated_remote_count s (stream_id_dir i)) 1)\<rparr>"
  obtain s1 where s1: "s1 = s \<or> ensure_remote_streams (stream_id_dir i) ?s = Some s1"
      and s': "s' = (if half = SendHalf then s1\<lparr>st_send_streams := wrapping_sub (st_send_streams s1) 1\<rparr> else s1)"
    using bind_if_Some [OF assms [unfolded stream_freed_def Let_def]] by blast
  have "keeps_slots s s1" using s1
  proof
    assume "ensure_remote_streams (stream_id_dir i) ?s = Some s1"
    then have "keeps_slots ?s s1" by (rule ensure_remote_streams_keeps)
    moreover have "keeps_slots s ?s" by (rule keeps_slots_fields [OF keeps_slots_refl]) simp_all
    ultimately show ?thesis using keeps_slots_trans by blast
  qed simp
  then show ?thesis unfolding s' by (cases "half = SendHalf") (auto elim: keeps_slots_fields)
qed

lemma stream_recv_freed_keeps:
  assumes "stream_recv_freed i r s = Some s'"
  shows "keeps_slots s s'"
proof -
  obtain free where f: "recv_free (st_stream_receive_window s) r = Some free"
      "stream_freed i RecvHalf (s\<lparr>st_free_recv := st_free_recv s @ [free]\<rparr>) = Some s'"
    using assms by (auto simp: stream_recv_freed_def bind_eq_Some_conv)
  have "end_ok (into_inner free)" using f(1) by (cases r) (auto simp: recv_reinit_def end_ok_def)
  then have "keeps_slots s (s\<lparr>st_free_recv := st_free_recv s @ [free]\<rparr>)" by (auto simp: keeps_slots_def slots_ok_def)
  then show ?thesis using stream_freed_keeps [OF f(2)] keeps_slots_trans by blast
qed

lemma on_stream_frame_keeps: "keeps_slots s (on_stream_frame b i s)"
  by (auto simp: on_stream_frame_def Let_def intro: keeps_slots_fields [OF keeps_slots_refl])

lemma read_credits_inv: "rx_inv s \<Longrightarrow> rx_inv (snd (add_read_credits n s))"
  by (auto simp: rx_inv_def add_read_credits_def Let_def saturating_add_def slots_ok_def)

lemma rx_inv_put:
  assumes "rx_inv s" "end_ok r" "st_recv s' = (st_recv s)(i := Some (Some (OpenRecv r))) \<or> st_recv s' = (st_recv s)(i := None)"
    "st_free_recv s' = st_free_recv s" "st_local_max_data s' = st_local_max_data s" "st_data_recvd s' \<le> st_local_max_data s"
  shows "rx_inv s'"
  using assms by (auto simp: rx_inv_def slots_ok_def split: if_splits)

lemma rx_inv_keeps: "rx_inv s \<Longrightarrow> keeps_slots s s' \<Longrightarrow> rx_inv s'"
  by (simp add: rx_inv_def keeps_slots_def)

lemma slot_end_ok: "rx_inv s \<Longrightarrow> st_recv s i = Some e \<Longrightarrow> end_ok (get_or_insert_recv m e)"
  by (cases e) (auto simp: get_or_insert_recv_def rx_inv_def slots_ok_def recv_new_def end_ok_def)

lemma bind_either:
  "Option.bind (if c then m else Some s) (\<lambda>x. Some (Inr (f x))) = Some (Inr y) \<Longrightarrow> \<exists>x. (x = s \<or> m = Some x) \<and> f x = y"
  by (auto simp: bind_eq_Some_conv split: if_splits)

lemma received_inv:
  assumes inv: "rx_inv s" and few: "st_data_recvd s < 2 ^ 63"
    and r: "streams_received frame k s = Some (Inr (t, s'))"
  shows "rx_inv s'"
proof (cases "st_recv s (sf_id frame)")
  case None
  then show ?thesis using r inv by (auto simp: streams_received_def Let_def split: sum.splits)
next
  case (Some e)
  let ?i = "sf_id frame" and ?rs = "get_or_insert_recv (st_stream_receive_window s) e"
  have ok: "end_ok ?rs" by (rule slot_end_ok [OF inv Some])
  show ?thesis
  proof (cases "is_receiving ?rs")
    case False
    then have "s' = put_recv ?i ?rs s" using r Some by (auto simp: streams_received_def Let_def split: sum.splits)
    then show ?thesis using inv by (intro rx_inv_put [OF inv ok, of _ ?i]) (simp_all add: put_recv_def rx_inv_def)
  next
    case True
    then obtain n cl rs' where g: "recv_ingest frame k (st_data_recvd s) (st_local_max_data s) ?rs = Inr ((n, cl), rs')"
      using r Some by (auto simp: streams_received_def Let_def split: sum.splits)
    let ?e = "sf_offset frame + length (sf_data frame)"
    have g': "?e < 2 ^ 62" "n = ?e - rv_end ?rs" "?e \<le> rv_sent_max_stream_data ?rs" "wrapping_add (st_data_recvd s) n \<le> st_local_max_data s"
        "rv_end rs' = max (rv_end ?rs) ?e" "rv_sent_max_stream_data rs' = rv_sent_max_stream_data ?rs"
      using g by (auto simp: ingest_Inr_iff credit_consumed_iff Let_def)
    have ok': "end_ok rs'" using ok g'(3,5,6) by (simp add: end_ok_def)
    have le: "st_data_recvd s + n \<le> st_local_max_data s" using g'(1,2,4) few by simp
    let ?s2 = "(put_recv ?i rs' s)\<lparr>st_data_recvd := saturating_add (st_data_recvd s) n\<rparr>"
    have le': "saturating_add (st_data_recvd s) n \<le> st_local_max_data s" using le by (simp add: saturating_add_def min.coboundedI1)
    have s2: "rx_inv ?s2" "rx_inv (?s2\<lparr>st_recv := (st_recv ?s2)(?i := None)\<rparr>)"
      using le' by (intro rx_inv_put [OF inv ok', of _ ?i]; simp add: put_recv_def)+
    let ?free = "stream_recv_freed ?i (OpenRecv rs') (?s2\<lparr>st_recv := (st_recv ?s2)(?i := None)\<rparr>)"
    have eq: "(if \<not> rv_stopped rs' then Some (Inr (False, on_stream_frame True ?i ?s2))
        else Option.bind (if cl then ?free else Some ?s2) (\<lambda>s3. Some (Inr (add_read_credits n s3)))) =
        (Some (Inr (t, s')) :: (transport_error + (bool \<times> streams)) option)"
      using r Some True g unfolding streams_received_def Let_def by (cases "validate_receive_id ?i s") simp_all
    show ?thesis
    proof (cases "rv_stopped rs'")
      case False
      then have "s' = on_stream_frame True ?i ?s2" using eq by (simp only: not_False_eq_True if_True) blast
      then show ?thesis using rx_inv_keeps [OF s2(1) on_stream_frame_keeps] by simp
    next
      case True
      have "Option.bind (if cl then ?free else Some ?s2) (\<lambda>s3. Some (Inr (add_read_credits n s3))) =
          (Some (Inr (t, s')) :: (transport_error + (bool \<times> streams)) option)"
        using eq by (simp only: True not_True_eq_False if_False)
      from bind_either [OF this] obtain s3 where s3: "s3 = ?s2 \<or> ?free = Some s3" "add_read_credits n s3 = (t, s')" by blast
      then have "rx_inv s3" using s2 rx_inv_keeps stream_recv_freed_keeps by blast
      then show ?thesis using s3(2) read_credits_inv [of s3 n] by simp
    qed
  qed
qed

text \<open>A final size that is known is not below what has arrived already.\<close>

definition size_known :: "stream_id \<Rightarrow> streams \<Rightarrow> bool" where
  "size_known i s = (case st_recv s i of
     Some (Some r) \<Rightarrow> (case final_offset (rv_state (into_inner r)) of None \<Rightarrow> True | Some f \<Rightarrow> rv_end (into_inner r) \<le> f)
   | _ \<Rightarrow> True)"

definition reset_credit :: "nat \<Rightarrow> recv \<Rightarrow> streams \<Rightarrow> bool \<times> streams" where
  "reset_credit final r s =
     (if asm_bytes_read (rv_assembler r) \<noteq> final then
        add_read_credits (wrapping_sub final (asm_bytes_read (rv_assembler r)))
          (s\<lparr>st_data_recvd := saturating_add (st_data_recvd s) (wrapping_sub final (rv_end r))\<rparr>)
      else (False, s))"

lemma reset_outcome:
  assumes e: "st_recv s (rst_id frame) = Some e"
    and g: "recv_reset (rst_error_code frame) (rst_final_offset frame) (st_data_recvd s) (st_local_max_data s)
      (get_or_insert_recv (st_stream_receive_window s) e) = Inr (True, r')"
    and r: "streams_received_reset frame s = Some (Inr (t, s'))"
  shows "\<exists>s2. (keeps_slots (put_recv (rst_id frame) r' s) s2 \<or>
      keeps_slots ((put_recv (rst_id frame) r' s)\<lparr>st_recv := (st_recv (put_recv (rst_id frame) r' s))(rst_id frame := None)\<rparr>) s2) \<and>
    reset_credit (rst_final_offset frame) r' (on_stream_frame (\<not> rv_stopped r') (rst_id frame) s2) = (t, s')"
proof -
  let ?i = "rst_id frame"
  let ?s1 = "put_recv ?i r' s"
  let ?free = "stream_recv_freed ?i (OpenRecv r') (?s1\<lparr>st_recv := (st_recv ?s1)(?i := None)\<rparr>)"
  have "Option.bind (if rv_stopped r' then ?free else Some ?s1)
      (\<lambda>s2. Some (Inr (reset_credit (rst_final_offset frame) r' (on_stream_frame (\<not> rv_stopped r') ?i s2)))) =
      (Some (Inr (t, s')) :: (transport_error + (bool \<times> streams)) option)"
    using r e g unfolding streams_received_reset_def Let_def reset_credit_def by (cases "validate_receive_id ?i s") simp_all
  from bind_either [OF this] show ?thesis using stream_recv_freed_keeps by (metis keeps_slots_refl)
qed

lemma received_reset_inv:
  assumes inv: "rx_inv s" and few: "st_data_recvd s < 2 ^ 63" "rst_final_offset frame < 2 ^ 62"
    and size: "size_known (rst_id frame) s" and r: "streams_received_reset frame s = Some (Inr (t, s'))"
  shows "rx_inv s'"
proof (cases "st_recv s (rst_id frame)")
  case None
  then show ?thesis using r inv by (auto simp: streams_received_reset_def Let_def split: sum.splits)
next
  case (Some e)
  let ?i = "rst_id frame" and ?f = "rst_final_offset frame" and ?rs = "get_or_insert_recv (st_stream_receive_window s) e"
  have ok: "end_ok ?rs" by (rule slot_end_ok [OF inv Some])
  obtain fresh rs' where g: "recv_reset (rst_error_code frame) ?f (st_data_recvd s) (st_local_max_data s) ?rs = Inr (fresh, rs')"
    using r Some by (auto simp: streams_received_reset_def Let_def split: sum.splits)
  have g': "rv_end rs' = rv_end ?rs" "rv_sent_max_stream_data rs' = rv_sent_max_stream_data ?rs"
      "wrapping_add (st_data_recvd s) (?f - rv_end ?rs) \<le> st_local_max_data s"
    using g by (auto simp: recv_reset_def credit_consumed_iff Let_def split: option.splits sum.splits recv_state.splits if_splits)
  have fresh: "fresh \<Longrightarrow> rv_end ?rs \<le> ?f" 
  proof -
    have "final_offset (rv_state ?rs) = Some ?f \<or> rv_end ?rs \<le> ?f"
      using g by (auto simp: recv_reset_def split: option.splits sum.splits if_splits)
    moreover have "rv_end ?rs \<le> f" if "final_offset (rv_state ?rs) = Some f" for f
      using that size Some by (cases e) (auto simp: size_known_def get_or_insert_recv_def recv_new_def)
    ultimately show "rv_end ?rs \<le> ?f" by blast
  qed
  have ok': "end_ok rs'" using ok g' by (simp add: end_ok_def)
  let ?s1 = "put_recv ?i rs' s"
  have s1: "rx_inv ?s1" "rx_inv (?s1\<lparr>st_recv := (st_recv ?s1)(?i := None)\<rparr>)"
    using inv by (intro rx_inv_put [OF inv ok', of _ ?i]; simp add: put_recv_def rx_inv_def)+
  show ?thesis
  proof (cases fresh)
    case False
    then have "s' = ?s1" using r Some g by (auto simp: streams_received_reset_def Let_def split: sum.splits)
    then show ?thesis using s1 by simp
  next
    case True
    obtain s2 where k: "keeps_slots ?s1 s2 \<or> keeps_slots (?s1\<lparr>st_recv := (st_recv ?s1)(?i := None)\<rparr>) s2"
        and s': "reset_credit ?f rs' (on_stream_frame (\<not> rv_stopped rs') ?i s2) = (t, s')"
      using reset_outcome [OF Some _ r, of rs'] g True by auto
    let ?s3 = "on_stream_frame (\<not> rv_stopped rs') ?i s2"
    have s3: "rx_inv ?s3" using k s1 rx_inv_keeps on_stream_frame_keeps by metis
    have "st_data_recvd s2 = st_data_recvd s" "st_local_max_data s2 = st_local_max_data s"
      using k by (auto simp: keeps_slots_def put_recv_def)
    then have d: "st_data_recvd ?s3 = st_data_recvd s" "st_local_max_data ?s3 = st_local_max_data s"
      using on_stream_frame_keeps [of s2 "\<not> rv_stopped rs'" ?i] by (simp_all add: keeps_slots_def)
    have "st_data_recvd s + (?f - rv_end ?rs) \<le> st_local_max_data s" using g'(3) few by simp
    then have "saturating_add (st_data_recvd ?s3) (wrapping_sub ?f (rv_end rs')) \<le> st_local_max_data ?s3"
      using fresh [OF True] d g'(1) by (simp add: saturating_add_def min.coboundedI1)
    then have "rx_inv (?s3\<lparr>st_data_recvd := saturating_add (st_data_recvd ?s3) (wrapping_sub ?f (rv_end rs'))\<rparr>)"
      using s3 by (simp add: rx_inv_def slots_ok_def)
    then show ?thesis using s' s3 read_credits_inv unfolding reset_credit_def by (metis snd_conv)
  qed
qed


text \<open>A client that has opened the bidirectional stream 0 and allows 100 bytes on the connection, 50 on a stream.\<close>

definition example_reading :: streams where
  "example_reading = example_client\<lparr>st_next := (\<lambda>_. 1), st_send := [0 \<mapsto> None], st_recv := [0 \<mapsto> None]\<rparr>"

lemma example_reading_fields:
  "st_recv example_reading = [0 \<mapsto> None]" "st_free_recv example_reading = []" "st_data_recvd example_reading = 0"
  "st_local_max_data example_reading = 100" "st_stream_receive_window example_reading = 50" "st_side example_reading = Client"
  "st_next example_reading = (\<lambda>_. 1)" "st_receive_window_shrink_debt example_reading = 0" "st_send example_reading = [0 \<mapsto> None]"
  "st_events example_reading = []" "st_sent_max_data example_reading = 100" "st_receive_window example_reading = 100"
  by (simp_all add: example_reading_def example_client_def streams_new_def Let_def)

lemma example_reading_inv: "rx_inv example_reading"
  by (simp add: rx_inv_def slots_ok_def example_reading_fields)

lemma example_validates: "st_side s = Client \<Longrightarrow> st_next s Bi = 1 \<Longrightarrow> validate_receive_id 0 s = Inr ()"
  by (simp add: validate_receive_id_def stream_id_initiator_def stream_id_dir_def stream_id_index_def)


section \<open>Where the books go wrong\<close>

lemma bytes_read_clear [simp]: "asm_bytes_read (assembler_clear a) = asm_bytes_read a"
  by (simp add: assembler_clear_def)

lemma add_read_credits_fields:
  "st_receive_window_shrink_debt s = 0 \<Longrightarrow> 0 < n \<Longrightarrow> st_local_max_data s + n < 2 ^ 64 \<Longrightarrow>
    st_local_max_data (snd (add_read_credits n s)) = st_local_max_data s + n"
  "st_receive_window_shrink_debt s = 0 \<Longrightarrow> st_receive_window_shrink_debt (snd (add_read_credits n s)) = 0"
  "st_data_recvd (snd (add_read_credits n s)) = st_data_recvd s" "st_recv (snd (add_read_credits n s)) = st_recv s"
  by (auto simp: add_read_credits_def Let_def saturating_add_def)

text \<open>A stream that is stopped while its final size is unknown.\<close>

lemma stop_credits:
  assumes r: "st_recv s i = Some (Some (OpenRecv r))" "rv_state r = Recv None"
    and stop: "recv_stream_stop i code p s = Some (Inr (p1, s1))"
  shows "st_recv s1 i = Some (Some (OpenRecv (r\<lparr>rv_assembler := assembler_clear (rv_assembler r), rv_stopped := True\<rparr>)))"
    "s1 = snd (add_read_credits (wrapping_sub (rv_end r) (asm_bytes_read (rv_assembler r)))
       (put_recv i (r\<lparr>rv_assembler := assembler_clear (rv_assembler r), rv_stopped := True\<rparr>) s))"
proof -
  let ?r = "r\<lparr>rv_assembler := assembler_clear (rv_assembler r), rv_stopped := True\<rparr>"
  let ?n = "wrapping_sub (rv_end r) (asm_bytes_read (rv_assembler r))"
  show s1: "s1 = snd (add_read_credits ?n (put_recv i ?r s))"
    using stop r by (auto simp: recv_stream_stop_def get_or_insert_recv_def recv_stop_def final_offset_unknown_def Let_def
        split: if_splits prod.splits)
  show "st_recv s1 i = Some (Some (OpenRecv ?r))" unfolding s1 by (simp add: add_read_credits_fields put_recv_def)
qed

text \<open>
  C38: Stopping a stream and then having it reset by the peer returns the same credit twice. \<open>stop\<close> already
  counts the bytes that arrived and were not read; when the RESET_STREAM frame of the peer comes,
  \<open>received_reset\<close> adds them once more with those up to the final size. The limit announced to the peer
  grows by more than the bytes the stream has taken from it.
\<close>

theorem stop_then_reset_credits_twice:
  assumes "st_recv s i = Some (Some (OpenRecv r))" "rv_state r = Recv None" "st_receive_window_shrink_debt s = 0"
    "asm_bytes_read (rv_assembler r) < rv_end r" "st_local_max_data s + 2 * final < 2 ^ 64" "st_data_recvd s + final < 2 ^ 64"
    "recv_stream_stop i code p s = Some (Inr (p1, s1))"
    "streams_received_reset \<lparr>rst_id = i, rst_error_code = code', rst_final_offset = final\<rparr> s1 = Some (Inr (t, s2))"
  shows "st_data_recvd s2 = st_data_recvd s + (final - rv_end r) \<and>
    st_local_max_data s2 = st_local_max_data s + (final - asm_bytes_read (rv_assembler r)) + (rv_end r - asm_bytes_read (rv_assembler r))"
proof -
  let ?frame = "\<lparr>rst_id = i, rst_error_code = code', rst_final_offset = final\<rparr>" and ?read = "asm_bytes_read (rv_assembler r)"
  let ?r = "r\<lparr>rv_assembler := assembler_clear (rv_assembler r), rv_stopped := True\<rparr>"
  let ?r' = "?r\<lparr>rv_state := ResetRecvd final code'\<rparr>"
  note s1 = stop_credits [OF assms(1,2,7)]
  have ok: "recv_reset code' final (st_data_recvd s1) (st_local_max_data s1) ?r = Inr (True, ?r')" "rv_end r \<le> final"
    using assms(2,8) s1(1)
    by (auto simp: streams_received_reset_def get_or_insert_recv_def recv_reset_def assembler_clear_def Let_def split: sum.splits if_splits)
  obtain s3 where k: "keeps_slots (put_recv i ?r' s1) s3 \<or>
        keeps_slots ((put_recv i ?r' s1)\<lparr>st_recv := (st_recv (put_recv i ?r' s1))(i := None)\<rparr>) s3"
      and c: "reset_credit final ?r' (on_stream_frame False i s3) = (t, s2)"
    using reset_outcome [of s1 ?frame _ ?r', OF _ _ assms(8)] s1(1) ok(1) by (auto simp: get_or_insert_recv_def)
  have one: "st_local_max_data s1 = st_local_max_data s + (rv_end r - ?read)" "st_receive_window_shrink_debt s1 = 0"
      "st_data_recvd s1 = st_data_recvd s"
    unfolding s1(2) using assms(3,4,5) ok(2) by (simp_all add: add_read_credits_fields put_recv_def)
  let ?t = "on_stream_frame False i s3"
  have "st_data_recvd s3 = st_data_recvd s1 \<and> st_local_max_data s3 = st_local_max_data s1 \<and>
      st_receive_window_shrink_debt s3 = st_receive_window_shrink_debt s1"
    using k by (auto simp: keeps_slots_def put_recv_def)
  moreover have "st_data_recvd ?t = st_data_recvd s3 \<and> st_local_max_data ?t = st_local_max_data s3 \<and>
      st_receive_window_shrink_debt ?t = st_receive_window_shrink_debt s3"
    using on_stream_frame_keeps [of s3 False i] by (simp add: keeps_slots_def)
  ultimately have two: "st_data_recvd ?t = st_data_recvd s" "st_local_max_data ?t = st_local_max_data s1"
      "st_receive_window_shrink_debt ?t = 0"
    using one by simp_all
  have "s2 = snd (add_read_credits (final - ?read) (?t\<lparr>st_data_recvd := saturating_add (st_data_recvd s) (final - rv_end r)\<rparr>))"
    using c ok(2) assms(4) two(1) by (auto simp: reset_credit_def split: if_splits)
  then show ?thesis
    using assms(4-6) ok(2) one two by (auto simp: add_read_credits_fields saturating_add_def)
qed

text \<open>Ten bytes have arrived on the stream, none has been read.\<close>

definition example_arrived :: streams where
  "example_arrived = example_reading\<lparr>st_recv := [0 \<mapsto> Some (OpenRecv ((recv_new 50)\<lparr>rv_end := 10\<rparr>))], st_data_recvd := 10\<rparr>"

lemma example_stop:
  "\<exists>s1. recv_stream_stop 0 7 retransmits_default example_arrived = Some (Inr (retransmits_default\<lparr>rt_stop_sending := [\<lparr>ss_id = 0, ss_error_code = 7\<rparr>]\<rparr>, s1)) \<and>
    (\<exists>t s2. streams_received_reset \<lparr>rst_id = 0, rst_error_code = 7, rst_final_offset = 10\<rparr> s1 = Some (Inr (t, s2)))"
proof -
  let ?r = "(recv_new 50)\<lparr>rv_end := 10, rv_assembler := assembler_clear assembler_new, rv_stopped := True\<rparr>"
  define s1 where "s1 = snd (add_read_credits 10 (put_recv 0 ?r example_arrived))"
  have "recv_stream_stop 0 7 retransmits_default example_arrived =
      Some (Inr (retransmits_default\<lparr>rt_stop_sending := [\<lparr>ss_id = 0, ss_error_code = 7\<rparr>]\<rparr>, s1))"
    by (simp add: recv_stream_stop_def example_arrived_def get_or_insert_recv_def recv_stop_def recv_new_def is_receiving_def
        final_offset_unknown_def Let_def s1_def add_read_credits_def example_reading_fields put_recv_def saturating_add_def
        assembler_new_def assembler_clear_def varint_max_def retransmits_default_def)
  moreover have f: "st_recv s1 0 = Some (Some (OpenRecv ?r))" "st_local_max_data s1 = 110" "st_data_recvd s1 = 10" "st_side s1 = Client"
      "st_next s1 Bi = 1"
    by (simp_all add: s1_def add_read_credits_def example_arrived_def example_reading_fields put_recv_def saturating_add_def Let_def)
  have "\<exists>t s2. streams_received_reset \<lparr>rst_id = 0, rst_error_code = 7, rst_final_offset = 10\<rparr> s1 = Some (Inr (t, s2))"
    using example_validates [OF f(4,5)] f
    by (simp add: streams_received_reset_def get_or_insert_recv_def recv_reset_def recv_new_def credit_consumed_by_def
        stream_recv_freed_def stream_freed_def stream_id_initiator_def put_recv_def assembler_new_def assembler_clear_def Let_def)
  ultimately show ?thesis by blast
qed

theorem stop_then_reset_credits_twice_witness:
  "\<exists>p1 s1 t s2. recv_stream_stop 0 7 retransmits_default example_arrived = Some (Inr (p1, s1)) \<and>
    streams_received_reset \<lparr>rst_id = 0, rst_error_code = 7, rst_final_offset = 10\<rparr> s1 = Some (Inr (t, s2)) \<and>
    st_data_recvd s2 = 10 \<and> st_local_max_data s2 = 120"
proof -
  obtain p1 s1 t s2 where run: "recv_stream_stop 0 7 retransmits_default example_arrived = Some (Inr (p1, s1))"
      "streams_received_reset \<lparr>rst_id = 0, rst_error_code = 7, rst_final_offset = 10\<rparr> s1 = Some (Inr (t, s2))"
    using example_stop by blast
  have "st_data_recvd s2 = 10 \<and> st_local_max_data s2 = 120"
    using stop_then_reset_credits_twice [OF _ _ _ _ _ _ run, of "(recv_new 50)\<lparr>rv_end := 10\<rparr>"]
    by (simp add: example_arrived_def example_reading_fields recv_new_def assembler_new_def)
  then show ?thesis using run by blast
qed

text \<open>
  A refused read loses the stream. Asking for ordered data after unordered reads fails with
  \<open>IllegalOrderedRead\<close>, but \<open>Chunks::new\<close> has taken the stream out of the map by then: every later read is
  answered as for a closed stream and every later frame is dropped without being counted, and since the stream
  was never freed, the number of streams the peer may open is not raised for it.
\<close>

theorem illegal_ordered_read_loses_stream:
  assumes "chunks_new i ordered s = (Inl IllegalOrderedRead, s')"
  shows "chunks_new i ordered' s' = (Inl ReadableClosedStream, s') \<and>
    (sf_id frame = i \<and> validate_receive_id i s' = Inr () \<longrightarrow> streams_received frame k s' = Some (Inr (False, s'))) \<and>
    st_allocated_remote_count s' = st_allocated_remote_count s \<and> st_max_remote s' = st_max_remote s"
proof -
  have "st_recv s' i = None" "st_allocated_remote_count s' = st_allocated_remote_count s" "st_max_remote s' = st_max_remote s"
    using assms by (auto simp: chunks_new_def Let_def split: option.splits if_splits sum.splits)
  then show ?thesis by (auto simp: chunks_new_def streams_received_def)
qed

theorem illegal_ordered_read_loses_stream_witness:
  "\<exists>s'. chunks_new 0 True (example_reading\<lparr>st_recv := [0 \<mapsto> Some (OpenRecv ((recv_new 50)\<lparr>rv_assembler := assembler_new\<lparr>asm_state := Unordered []\<rparr>\<rparr>))]\<rparr>) =
      (Inl IllegalOrderedRead, s') \<and> chunks_new 0 False s' = (Inl ReadableClosedStream, s')"
proof -
  let ?s = "example_reading\<lparr>st_recv := [0 \<mapsto> Some (OpenRecv ((recv_new 50)\<lparr>rv_assembler := assembler_new\<lparr>asm_state := Unordered []\<rparr>\<rparr>))]\<rparr>"
  have r: "chunks_new 0 True ?s = (Inl IllegalOrderedRead, snd (chunks_new 0 True ?s))"
    by (simp add: chunks_new_def get_or_insert_recv_def recv_new_def ensure_ordering_def Let_def)
  then show ?thesis using illegal_ordered_read_loses_stream [OF r] by blast
qed

text \<open>
  An early end of a stream breaks the connection's count. A peer may end a stream below an offset it has used
  already (the frame is accepted). If it then resets the stream with that final size, \<open>received_reset\<close>
  computes the final size minus the highest offset, which is negative: the subtraction panics where overflow is
  checked, and otherwise wraps, which saturates \<open>data_recvd\<close> at the largest value, above every limit.
\<close>

theorem early_fin_reset_underflows:
  assumes "st_recv s i = Some (Some (OpenRecv r))" "rv_state r = Recv (Some final)" "final < rv_end r" "rv_end r < 2 ^ 62"
    "asm_bytes_read (rv_assembler r) < final" "rv_end r \<le> st_data_recvd s"
    "streams_received_reset \<lparr>rst_id = i, rst_error_code = code, rst_final_offset = final\<rparr> s = Some (Inr (t, s'))"
  shows "st_data_recvd s' = u64_max"
proof -
  let ?frame = "\<lparr>rst_id = i, rst_error_code = code, rst_final_offset = final\<rparr>"
  let ?r = "r\<lparr>rv_state := ResetRecvd final code, rv_assembler := assembler_clear (rv_assembler r)\<rparr>"
  have "recv_reset code final (st_data_recvd s) (st_local_max_data s) r = Inr (True, ?r)"
    using assms(1,2,7) by (auto simp: streams_received_reset_def get_or_insert_recv_def recv_reset_def Let_def split: sum.splits if_splits)
  then obtain s2 where k: "keeps_slots (put_recv i ?r s) s2 \<or>
        keeps_slots ((put_recv i ?r s)\<lparr>st_recv := (st_recv (put_recv i ?r s))(i := None)\<rparr>) s2"
      and c: "reset_credit final ?r (on_stream_frame (\<not> rv_stopped ?r) i s2) = (t, s')"
    using reset_outcome [of s ?frame _ ?r, OF _ _ assms(7)] assms(1) by (auto simp: get_or_insert_recv_def)
  have "st_data_recvd (on_stream_frame (\<not> rv_stopped ?r) i s2) = st_data_recvd s"
    using k on_stream_frame_keeps [of s2 "\<not> rv_stopped ?r" i] by (auto simp: keeps_slots_def put_recv_def)
  then have "st_data_recvd s' = saturating_add (st_data_recvd s) (wrapping_sub final (rv_end r))"
    using arg_cong [OF c, of "\<lambda>x. st_data_recvd (snd x)"] assms(5)
    by (simp add: reset_credit_def add_read_credits_fields(3) del: on_stream_frame_fields)
  moreover have "wrapping_sub final (rv_end r) = 2 ^ 64 - (rv_end r - final)"
    using assms(3,4) by (simp add: wrapping_sub_def)
  ultimately show ?thesis using assms(3,4,6) by (simp add: saturating_add_def)
qed

theorem early_fin_reset_underflows_witness:
  "\<exists>t s'. streams_received_reset \<lparr>rst_id = 0, rst_error_code = 7, rst_final_offset = 5\<rparr>
      (example_reading\<lparr>st_recv := [0 \<mapsto> Some (OpenRecv ((recv_new 50)\<lparr>rv_end := 10, rv_state := Recv (Some 5)\<rparr>))], st_data_recvd := 10\<rparr>) =
      Some (Inr (t, s')) \<and> st_data_recvd s' = u64_max"
proof -
  let ?r = "(recv_new 50)\<lparr>rv_end := 10, rv_state := Recv (Some 5)\<rparr>"
  let ?s = "example_reading\<lparr>st_recv := [0 \<mapsto> Some (OpenRecv ?r)], st_data_recvd := 10\<rparr>"
  have "\<exists>t s'. streams_received_reset \<lparr>rst_id = 0, rst_error_code = 7, rst_final_offset = 5\<rparr> ?s = Some (Inr (t, s'))"
    using example_validates [of ?s]
    by (simp add: streams_received_reset_def example_reading_fields get_or_insert_recv_def recv_reset_def recv_new_def
        credit_consumed_by_def assembler_new_def assembler_clear_def Let_def)
  then obtain t s' where r: "streams_received_reset \<lparr>rst_id = 0, rst_error_code = 7, rst_final_offset = 5\<rparr> ?s = Some (Inr (t, s'))" by blast
  have "st_data_recvd s' = u64_max"
    by (rule early_fin_reset_underflows [OF _ _ _ _ _ _ r, of ?r]) (simp_all add: recv_new_def assembler_new_def)
  then show ?thesis using r by blast
qed

end
