(* ===== verification/Streams_Transmit.thy ===== *)
theory Streams_Transmit
  imports Streams_Send_Inv
begin

text \<open>
  Filling a packet with STREAM frames: \<open>write_stream_frames\<close> returns, fits, and writes frames that the parser of
  the peer reads back as exactly the bytes of the application.
\<close>

section \<open>One frame\<close>

definition meta_frame :: "(stream_id \<Rightarrow> nat \<Rightarrow> u8) \<Rightarrow> stream_meta \<Rightarrow> frame" where
  "meta_frame S m = (let (a, e) = sm_offsets m in
     Stream \<lparr>sf_id = sm_id m, sf_offset = a, sf_fin = sm_fin m, sf_data = slice (S (sm_id m)) a (e - a)\<rparr>)"

lemma stream_header:
  assumes "is_varint i" "is_varint a" "is_varint n"
  shows "\<exists>hdr. stream_meta_encode \<lparr>sm_id = i, sm_offsets = (a, a + n), sm_fin = fin\<rparr> enc = Some hdr \<and>
    length hdr = 1 + length (var_bytes i) + offset_len a + (if enc then length (var_bytes n) else 0)"
proof -
  let ?ty = "stream_ty (a \<noteq> 0) enc fin"
  have ty: "is_varint ?ty" "length (var_bytes ?ty) = 1"
    using stream_ty_flags(2) [of "a \<noteq> 0" enc fin] by (simp_all add: is_varint_iff)
  have enc: "stream_meta_encode \<lparr>sm_id = i, sm_offsets = (a, a + n), sm_fin = fin\<rparr> enc =
      wcat [write_var ?ty, write_var i, (if a \<noteq> 0 then write_var a else Some []), (if enc then write_var n else Some [])]"
    unfolding stream_meta_encode_def stream_ty_def Let_def by (simp cong: if_cong split del: if_split del: wcat.simps)
  show ?thesis
    using assms ty unfolding enc
    by (cases "a = 0"; cases enc; auto simp: wcat_var_Cons wcat_Some_Cons wcat_Nil_iff offset_len_def simp del: wcat.simps)
qed

lemma ps_push_length [simp]: "length (ps_push p ps) = Suc (length ps)"
  by (induction ps) simp_all

lemma requeue:
  "pq_next q = None \<Longrightarrow> \<exists>q'. (if c then if fair then Some (push_pending i p q) else reinsert_pending i p q else Some q) = Some q' \<and>
    length (pq_iter q') \<le> Suc (length (pq_iter q))"
  by (auto simp: reinsert_pending_def push_pending_def pq_iter_def Let_def)

definition ids_ok :: "streams \<Rightarrow> bool" where
  "ids_ok s \<longleftrightarrow> (\<forall>i \<in> dom (st_send s). is_varint i)"

lemma write_stream_frame_correct:
  assumes inv: "tx_inv S s F" and x: "st_send s i = Some (Some x)" "\<not> is_reset x" and i: "is_varint i"
    and sz: "length buf + STREAM_SIZE_BOUND < sz" "sz < 2 ^ 62" and q: "pq_next (st_pending s) = None"
  shows "\<exists>meta out s'. write_stream_frame sz fair i x buf s = Some (meta, buf @ out, s') \<and>
    length buf + 2 \<le> length (buf @ out) \<and> length (buf @ out) \<le> sz \<and> dom (st_send s') = dom (st_send s) \<and>
    length (pq_iter (st_pending s')) \<le> Suc (length (pq_iter (st_pending s))) \<and>
    (\<forall>r. r = [] \<or> length (buf @ out) < sz \<longrightarrow> try_next (out @ r) = Inr (meta_frame S meta, r))"
proof -
  have b: "sb_inv (S i) (sn_pending x) (F i)" using entry_ok_at [OF inv x(1)] x(2) by (simp add: entry_ok_def)
  let ?l = "length (var_bytes i)" and ?off = "sb_offset (sn_pending x)"
  define n where "n = wrapping_sub (wrapping_sub (wrapping_sub sz (length buf)) 1) ?l"
  have l: "1 \<le> ?l" "?l \<le> 8" using length_var_bytes_le [OF i] varint_size_bytes [OF i] by (auto simp: varint_size_def split: if_splits)
  have n: "n = sz - length buf - 1 - ?l" "16 \<le> n" "n < 2 ^ 62" using l sz by (auto simp: n_def STREAM_SIZE_BOUND_def)
  obtain a e enc b' where p: "sb_poll_transmit n (sn_pending x) = Some (((a, e), enc), b')"
      "sb_inv (S i) b' ((a, e) # F i)" "sb_base b' = sb_base (sn_pending x)" "sb_offset b' = ?off" "sb_base (sn_pending x) \<le> a"
      "a \<le> e" "e \<le> ?off" "if enc then offset_len a + (e - a) + 8 \<le> n else offset_len a + (e - a) = n"
    using poll_transmit_inv [OF b n(2,3)] by blast
  have "?off < 2 ^ 62" using b by (simp add: sb_inv_def sb_tracked_def)
  then have v: "is_varint a" "is_varint (e - a)" using p(6,7) by (simp_all add: is_varint_iff)
  define fin where "fin = (e = ?off \<and> (case sn_state x of DataSent _ \<Rightarrow> True | _ \<Rightarrow> False))"
  define meta where "meta = \<lparr>sm_id = i, sm_offsets = (a, e), sm_fin = fin\<rparr>"
  obtain hdr where h: "stream_meta_encode \<lparr>sm_id = i, sm_offsets = (a, a + (e - a)), sm_fin = fin\<rparr> enc = Some hdr"
      "length hdr = 1 + ?l + offset_len a + (if enc then length (var_bytes (e - a)) else 0)"
    using stream_header [OF i v] by blast
  have data: "copy_range (a, e) b' = Some (slice (S i) a (e - a))"
    using p by (intro copy_range_slice [OF p(2)]) simp_all
  let ?out = "hdr @ slice (S i) a (e - a)"
  let ?x = "x\<lparr>sn_pending := b', sn_fin_pending := (if fin then False else sn_fin_pending x)\<rparr>"
  obtain q' where q': "(if is_pending ?x then
              (if fair then Some (push_pending i (sn_priority ?x) (st_pending s))
               else reinsert_pending i (sn_priority ?x) (st_pending s))
            else Some (st_pending s)) = Some q'" "length (pq_iter q') \<le> Suc (length (pq_iter (st_pending s)))"
    using requeue [OF q] by blast
  have w: "write_stream_frame sz fair i x buf s = Some (meta, buf @ ?out, (put_send i ?x s)\<lparr>st_pending := q'\<rparr>)"
    using p(6) h(1) data q'(1)
    by (simp add: write_stream_frame_def varint_size_bytes [OF i] p(1) [unfolded n_def] Let_def p(4) fin_def [symmetric] meta_def
        del: One_nat_def split del: if_split cong: if_cong)
  have v8: "length (var_bytes (e - a)) \<le> 8" by (rule length_var_bytes_le [OF v(2)])
  have len: "length buf + 2 \<le> length (buf @ ?out)" "length (buf @ ?out) \<le> sz" "\<not> enc \<Longrightarrow> length (buf @ ?out) = sz"
    using h(2) p(8) n v8 l by (auto split: if_splits)
  have dec: "try_next (?out @ r) = Inr (meta_frame S meta, r)" if "r = [] \<or> length (buf @ ?out) < sz" for r
  proof -
    have "enc \<or> r = []" using that len(3) by auto
    then have "try_next (hdr @ slice (S i) a (e - a) @ r) =
        Inr (Stream \<lparr>sf_id = i, sf_offset = a, sf_fin = fin, sf_data = slice (S i) a (e - a)\<rparr>, r)"
      using h(1) by (intro stream_meta_decode [of _ _ _ _ enc]) simp_all
    then show ?thesis by (simp add: meta_frame_def meta_def)
  qed
  show ?thesis
    by (rule exI [of _ meta], rule exI [of _ ?out], rule exI [of _ "(put_send i ?x s)\<lparr>st_pending := q'\<rparr>"])
      (use w len(1,2) dec q'(2) x(1) in \<open>auto simp: put_send_def\<close>)
qed

section \<open>The loop\<close>

lemma pq_pop_Some:
  "pq_pop q = (Some p, q') \<Longrightarrow> pq_next q' = None \<and> length (pq_iter q) = Suc (length (pq_iter q'))"
  by (auto simp: pq_pop_def pq_iter_def split: option.splits list.splits)

lemma write_stream_frames_full: "\<not> length buf + STREAM_SIZE_BOUND < sz \<Longrightarrow> write_stream_frames sz fair buf s = Some ([], buf, s)"
  by (subst write_stream_frames.simps) simp

lemma frames_Nil [simp]: "frame_iter_collect \<lparr>fi_bytes = [], fi_last_ty = t\<rparr> = []"
  by (subst frame_iter_collect.simps) (simp add: frame_iter_next_def)

definition frames_sent :: "(stream_id \<Rightarrow> nat \<Rightarrow> u8) \<Rightarrow> nat \<Rightarrow> bytes \<Rightarrow> (stream_meta list \<times> bytes \<times> streams) option \<Rightarrow> bool" where
  "frames_sent S sz buf r \<longleftrightarrow> (\<exists>metas out s' F'. r = Some (metas, buf @ out, s') \<and> length (buf @ out) \<le> sz \<and> tx_inv S s' F' \<and>
     (\<forall>t. frame_iter_collect \<lparr>fi_bytes = out, fi_last_ty = t\<rparr> = map (\<lambda>m. Inr (meta_frame S m)) metas))"

lemma frames_sent_Nil: "tx_inv S s F \<Longrightarrow> length buf \<le> sz \<Longrightarrow> frames_sent S sz buf (Some ([], buf, s))"
  by (auto simp: frames_sent_def)

lemma frames_sent_Cons:
  assumes "frames_sent S sz (buf @ out) r" "\<And>r. r = [] \<or> length (buf @ out) < sz \<Longrightarrow> try_next (out @ r) = Inr (meta_frame S meta, r)"
  shows "frames_sent S sz buf (Option.bind r (\<lambda>(metas, r). Some (meta # metas, r)))"
proof -
  obtain metas out' s' F' where r: "r = Some (metas, (buf @ out) @ out', s')" "length ((buf @ out) @ out') \<le> sz" "tx_inv S s' F'"
      "\<And>t. frame_iter_collect \<lparr>fi_bytes = out', fi_last_ty = t\<rparr> = map (\<lambda>m. Inr (meta_frame S m)) metas"
    using assms(1) by (auto simp: frames_sent_def)
  have "out' = [] \<or> length (buf @ out) < sz" using r(2) by (cases out') simp_all
  then have "try_next (out @ out') = Inr (meta_frame S meta, out')" by (rule assms(2))
  then have "frame_iter_collect \<lparr>fi_bytes = out @ out', fi_last_ty = t\<rparr> = map (\<lambda>m. Inr (meta_frame S m)) (meta # metas)" for t
    using frame_iter_collect_step [of "out @ out'" "meta_frame S meta" out' t] r(4) by auto
  then show ?thesis using r unfolding frames_sent_def
    by (intro exI [of _ "meta # metas"] exI [of _ "out @ out'"] exI [of _ s'] exI [of _ F']) simp
qed

lemma write_stream_frames_sent:
  assumes "tx_inv S s F" "ids_ok s" "length buf \<le> sz" "sz < 2 ^ 62"
  shows "frames_sent S sz buf (write_stream_frames sz fair buf s)"
  using assms(1-3)
proof (induction "sz - length buf + length (pq_iter (st_pending s))" arbitrary: buf s F rule: less_induct)
  case less
  show ?case
  proof (cases "length buf + STREAM_SIZE_BOUND < sz")
    case False
    then show ?thesis using write_stream_frames_full [OF False] frames_sent_Nil less.prems by metis
  next
    case room: True
    note step = write_stream_frames.simps [of sz fair buf s]
    obtain p q where pop: "pq_pop (st_pending s) = (p, q)" by (metis prod.exhaust)
    show ?thesis
    proof (cases p)
      case None
      then have "write_stream_frames sz fair buf s = Some ([], buf, s)" using room pop by (simp add: step)
      then show ?thesis using frames_sent_Nil less.prems by metis
    next
      case (Some st)
      let ?s = "s\<lparr>st_pending := q\<rparr>" and ?i = "ps_id st"
      have q: "pq_next q = None" "length (pq_iter (st_pending s)) = Suc (length (pq_iter q))"
        using pq_pop_Some pop Some by blast+
      have inv: "tx_inv S ?s F" "ids_ok ?s" using less.prems by (simp_all add: tx_inv_def ids_ok_def)
      show ?thesis
      proof (cases "\<exists>x. st_send s ?i = Some (Some x) \<and> \<not> is_reset x")
        case False
        then have "write_stream_frames sz fair buf s = write_stream_frames sz fair buf ?s"
          using room pop Some by (auto simp: step Let_def split: option.splits)
        then show ?thesis using less.hyps [of buf ?s F] inv less.prems q(2) by simp
      next
        case True
        then obtain x where x: "st_send ?s ?i = Some (Some x)" "\<not> is_reset x" by auto
        then have i: "is_varint ?i" using inv(2) by (auto simp: ids_ok_def)
        have sq: "st_pending ?s = q" by simp
        obtain meta out s2 where w: "write_stream_frame sz fair ?i x buf ?s = Some (meta, buf @ out, s2)"
            "length buf + 2 \<le> length (buf @ out)" "length (buf @ out) \<le> sz" "dom (st_send s2) = dom (st_send ?s)"
            "length (pq_iter (st_pending s2)) \<le> Suc (length (pq_iter q))"
            "\<And>r. r = [] \<or> length (buf @ out) < sz \<Longrightarrow> try_next (out @ r) = Inr (meta_frame S meta, r)"
          using write_stream_frame_correct [OF inv(1) x i room assms(4), of fair, unfolded sq, OF q(1)]
          by (elim exE conjE) (rule that, assumption+, drule spec, erule mp)
        have "write_stream_frames sz fair buf s =
            Option.bind (write_stream_frames sz fair (buf @ out) s2) (\<lambda>(metas, r). Some (meta # metas, r))"
          using room pop Some x w(1) by (simp add: step Let_def)
        moreover have "tx_inv S s2 (F(?i := sm_offsets meta # F ?i))"
          by (rule tx_inv_frame [OF inv(1) x room assms(4) w(1)])
        moreover have "ids_ok s2" using inv(2) w(4) by (simp add: ids_ok_def)
        ultimately show ?thesis
          using less.hyps [of "buf @ out" s2] w(2,3,5) q(2) frames_sent_Cons [OF _ w(6)] by simp
      qed
    qed
  qed
qed



section \<open>Control frames\<close>

definition room :: "nat \<Rightarrow> control \<Rightarrow> bool" where
  "room sz c \<longleftrightarrow> length (fst c) \<le> sz"

lemma two_vars:
  assumes "wcat [write_var ty, write_var n] = Some bs" "ty < 64"
  shows "length bs \<le> 9"
proof -
  have "bs = var_bytes ty @ var_bytes n" "is_varint n" using assms(1) by (auto simp: wcat_var_Cons wcat_Nil_iff simp del: wcat.simps)
  then show ?thesis using assms(2) length_var_bytes_le [of n] by simp
qed

lemma three_vars:
  assumes "wcat [write_var ty, write_var m, write_var n] = Some bs" "ty < 64"
  shows "length bs \<le> 17"
proof -
  have "bs = var_bytes ty @ var_bytes m @ var_bytes n" "is_varint m" "is_varint n"
    using assms(1) by (auto simp: wcat_var_Cons wcat_Nil_iff simp del: wcat.simps)
  then show ?thesis using assms(2) length_var_bytes_le [of m] length_var_bytes_le [of n] by simp
qed

lemma write_reset_streams_room:
  "write_reset_streams sz (buf, pending, retr, s) = Some c' \<Longrightarrow> length buf \<le> sz \<Longrightarrow> room sz c'"
proof (induction "length (rt_reset_stream pending)" arbitrary: buf pending retr rule: less_induct)
  case less
  note step = write_reset_streams.simps [of sz buf pending retr s]
  let ?p = "pending\<lparr>rt_reset_stream := butlast (rt_reset_stream pending)\<rparr>"
  show ?case
  proof (cases "length buf + RESET_STREAM_SIZE_BOUND < sz \<and> rt_reset_stream pending \<noteq> []")
    case True
    have "\<exists>bs retr'. write_reset_streams sz (buf @ bs, ?p, retr', s) = Some c' \<and> length bs \<le> RESET_STREAM_SIZE_BOUND"
      using True less.prems(1) frame_sizes(1) unfolding step
      by (force simp: Let_def split: prod.splits option.splits if_splits intro: exI [of _ "[]"])
    then show ?thesis using less.hyps [of ?p] True by auto
  qed (use less.prems in \<open>auto simp: step room_def\<close>)
qed

lemma write_stop_sendings_room:
  "write_stop_sendings sz (buf, pending, retr, s) = Some c' \<Longrightarrow> length buf \<le> sz \<Longrightarrow> room sz c'"
proof (induction "length (rt_stop_sending pending)" arbitrary: buf pending retr rule: less_induct)
  case less
  note step = write_stop_sendings.simps [of sz buf pending retr s]
  let ?p = "pending\<lparr>rt_stop_sending := butlast (rt_stop_sending pending)\<rparr>"
  show ?case
  proof (cases "length buf + STOP_SENDING_SIZE_BOUND < sz \<and> rt_stop_sending pending \<noteq> []")
    case True
    have "\<exists>bs retr'. write_stop_sendings sz (buf @ bs, ?p, retr', s) = Some c' \<and> length bs \<le> STOP_SENDING_SIZE_BOUND"
      using True less.prems(1) frame_sizes(2) unfolding step by (auto simp: Let_def split: option.splits)
    then show ?thesis using less.hyps [of ?p] True by auto
  qed (use less.prems in \<open>auto simp: step room_def\<close>)
qed

lemma write_max_data_room: "write_max_data sz c = Some c' \<Longrightarrow> room sz c \<Longrightarrow> room sz c'"
  using two_vars [of MAX_DATA]
  by (fastforce simp: write_max_data_def room_def Let_def frame_types split: prod.splits if_splits)

lemma write_max_stream_data_room:
  "write_max_stream_data sz (buf, pending, retr, s) = Some c' \<Longrightarrow> length buf \<le> sz \<Longrightarrow> room sz c'"
proof (induction "length (rt_max_stream_data pending)" arbitrary: buf pending retr s rule: less_induct)
  case less
  note step = write_max_stream_data.simps [of sz buf pending retr s]
  let ?p = "pending\<lparr>rt_max_stream_data := tl (rt_max_stream_data pending)\<rparr>"
  show ?case
  proof (cases "length buf + 17 < sz \<and> rt_max_stream_data pending \<noteq> []")
    case True
    have "\<exists>bs retr' s'. write_max_stream_data sz (buf @ bs, ?p, retr', s') = Some c' \<and> length bs \<le> 17"
      using True less.prems(1) three_vars [of MAX_STREAM_DATA] unfolding step
      by (force simp: Let_def frame_types stream_id_encode_def split: prod.splits option.splits if_splits stream_recv.splits intro: exI [of _ "[]"])
    then show ?thesis using less.hyps [of ?p] True by auto
  qed (use less.prems in \<open>auto simp: step room_def\<close>)
qed

lemma write_max_streams_room: "write_max_streams sz d c = Some c' \<Longrightarrow> room sz c \<Longrightarrow> room sz c'"
  using two_vars [of "case d of Uni \<Rightarrow> MAX_STREAMS_UNI | Bi \<Rightarrow> MAX_STREAMS_BIDI"]
  by (fastforce simp: write_max_streams_def room_def Let_def frame_types split: prod.splits if_splits dir.splits)

lemma write_streams_blocked_room: "write_streams_blocked sz d c = Some c' \<Longrightarrow> room sz c \<Longrightarrow> room sz c'"
  using two_vars [of "case d of Uni \<Rightarrow> STREAMS_BLOCKED_UNI | Bi \<Rightarrow> STREAMS_BLOCKED_BIDI"]
  by (fastforce simp: write_streams_blocked_def room_def Let_def frame_types split: prod.splits if_splits dir.splits)

text \<open>
  C30: Control frames fit. Resets, stop requests, credit for the connection and for streams, stream limits and
  blocked notices are written only where there is room: whatever is pending, the buffer never grows past the
  size it was given, so the guards of \<open>write_control_frames\<close> agree with the real sizes of the frames.
\<close>

theorem control_frames_fit:
  assumes "write_control_frames sz (buf, pending, retr, s) = Some (buf', pending', retr', s')" "length buf \<le> sz"
  shows "length buf' \<le> sz"
proof -
  obtain c1 c2 c3 c4 c5 c6 c7 where c: "write_reset_streams sz (buf, pending, retr, s) = Some c1" "write_stop_sendings sz c1 = Some c2"
      "write_max_data sz c2 = Some c3" "write_max_stream_data sz c3 = Some c4" "write_max_streams sz Bi c4 = Some c5"
      "write_max_streams sz Uni c5 = Some c6" "write_streams_blocked sz Bi c6 = Some c7"
      "write_streams_blocked sz Uni c7 = Some (buf', pending', retr', s')"
    using assms(1) by (auto simp: write_control_frames_def bind_eq_Some_conv)
  have "room sz c1" by (rule write_reset_streams_room [OF c(1) assms(2)])
  then have "room sz c2" using c(2) by (cases c1) (auto simp: room_def dest: write_stop_sendings_room)
  then have "room sz c3" using c(3) write_max_data_room by blast
  then have "room sz c4" using c(4) by (cases c3) (auto simp: room_def dest: write_max_stream_data_room)
  then have "room sz (buf', pending', retr', s')"
    using c(5-8) write_max_streams_room write_streams_blocked_room by blast
  then show ?thesis by (simp add: room_def)
qed

theorem control_frames_fit_witness:
  "\<exists>buf' pending' retr' s'. write_control_frames 20 ([1], retransmits_default\<lparr>rt_max_data := True\<rparr>, None, example_client) =
      Some (buf', pending', retr', s') \<and> length buf' \<le> 20"
proof -
  obtain buf' pending' retr' s' where w:
    "write_control_frames 20 ([1], retransmits_default\<lparr>rt_max_data := True\<rparr>, None, example_client) = Some (buf', pending', retr', s')"
    by (auto simp: write_control_frames_def write_reset_streams.simps write_stop_sendings.simps write_max_data_def
        write_max_stream_data.simps write_max_streams_def write_streams_blocked_def retransmits_default_def example_client_def
        streams_new_def get_or_create_def varint_max_def frame_types write_var_bytes is_varint_iff Let_def)
  then show ?thesis using control_frames_fit [OF w] by auto
qed

section \<open>Whose turn it is\<close>

interpretation pending_heap: priority_queue ps_before ps_push
proof
  show mset: "mset (ps_push x q) = add_mset x (mset q)" for x q by (induction q) auto
  show "sorted_wrt ps_before (ps_push x q)" if "sorted_wrt ps_before q" for x q
    using that
  proof (induction q)
    case (Cons y ys)
    have "set (ps_push x ys) = insert x (set ys)" using arg_cong [OF mset, of set_mset x ys] by simp
    with Cons show ?case by (auto simp: ps_before_def)
  qed simp
qed

text \<open>The queue as pushes and pops leave it: in order, and no recency below the counter.\<close>

definition queue_ok :: "pending_queue \<Rightarrow> bool" where
  "queue_ok q \<longleftrightarrow> sorted_wrt ps_before (pq_streams q) \<and> (\<forall>p \<in> set (pq_streams q). pq_recency q \<le> ps_recency p)"

lemma ps_push_last:
  assumes "\<forall>p \<in> set ps. ps_recency x < ps_recency p"
  shows "ps_push x ps = takeWhile (\<lambda>p. ps_priority x \<le> ps_priority p) ps @ x # dropWhile (\<lambda>p. ps_priority x \<le> ps_priority p) ps"
  using assms by (induction ps) (auto simp: ps_before_def)

lemma push_pending_ok:
  assumes "queue_ok q" "0 < pq_recency q"
  shows "queue_ok (push_pending i pr q)"
  using assms pending_heap.push_sorted by (auto simp: queue_ok_def push_pending_def Let_def)

lemma pop_ok: "queue_ok q \<Longrightarrow> pq_pop q = (p, q') \<Longrightarrow> queue_ok q'"
  by (auto simp: queue_ok_def pq_pop_def split: option.splits list.splits)



section \<open>Rejected and retried early data\<close>

lemma forget_streams_fields:
  "forget_streams d ns s = Some s' \<Longrightarrow> st_unacked_data s' = st_unacked_data s \<and> st_side s' = st_side s \<and> st_next s' = st_next s \<and>
    (\<forall>n \<in> set ns. st_send s' (stream_id_new (st_side s) d n) = None) \<and> (\<forall>i. st_send s i = None \<longrightarrow> st_send s' i = None)"
proof (induction ns arbitrary: s)
  case (Cons n ns)
  obtain s1 where s1: "forget_streams d ns s1 = Some s'" "st_send s1 = (st_send s)(stream_id_new (st_side s) d n := None)"
      "st_unacked_data s1 = st_unacked_data s" "st_side s1 = st_side s" "st_next s1 = st_next s"
    using Cons.prems by (auto simp: Let_def split: if_splits)
  then show ?case using Cons.IH [OF s1(1)] by auto
qed simp

lemma reject_dir_fields:
  assumes "reject_dir d s = Some s'"
  shows "st_unacked_data s' = st_unacked_data s \<and> st_side s' = st_side s \<and> (\<forall>d'. d' \<noteq> d \<longrightarrow> st_next s' d' = st_next s d') \<and>
    (\<forall>n < st_next s d. st_send s' (stream_id_new (st_side s) d n) = None) \<and> (\<forall>i. st_send s i = None \<longrightarrow> st_send s' i = None)"
  using assms by (auto simp: reject_dir_def bind_eq_Some_conv Let_def dest!: forget_streams_fields)



text \<open>
  An end marker sent as early data is lost by a Retry. \<open>retransmit_all_for_0rtt\<close> skips a stream whose buffer is
  fully acknowledged and which has no end marker left to send, on the ground that nothing can have been sent on it. But
  a stream that was finished without data is in that state once its empty final frame has been written: it is
  neither pending then nor queued again, and its end never reaches the peer.
\<close>

theorem retry_loses_empty_finish:
  assumes "sn_state x = DataSent False" "sn_pending x = send_buffer_new" "is_varint i" "pq_next (st_pending s) = None"
    "length buf + STREAM_SIZE_BOUND < sz" "sz < 2 ^ 62"
  shows "\<exists>meta buf' s'. write_stream_frame sz fair i x buf s = Some (meta, buf', s') \<and> sm_fin meta \<and>
    st_pending s' = st_pending s \<and> retransmit_stream_for_0rtt s' i = s'"
proof -
  let ?l = "length (var_bytes i)"
  define n where "n = wrapping_sub (wrapping_sub (wrapping_sub sz (length buf)) 1) ?l"
  have l: "?l \<le> 8" by (rule length_var_bytes_le [OF assms(3)])
  then have n: "16 \<le> n" "n < 2 ^ 62" using assms(5,6) by (auto simp: n_def STREAM_SIZE_BOUND_def)
  have poll: "sb_poll_transmit n send_buffer_new = Some (((0, 0), True), send_buffer_new)"
    using n by (simp add: sb_poll_transmit_def send_buffer_new_def fit_range_def Let_def)
  obtain hdr where h: "stream_meta_encode \<lparr>sm_id = i, sm_offsets = (0, 0), sm_fin = True\<rparr> True = Some hdr"
    using stream_header [OF assms(3), of 0 0 True True] by (auto simp: is_varint_iff)
  have "copy_range (0, 0) send_buffer_new = Some []" by (simp add: copy_range.simps)
  then have w: "write_stream_frame sz fair i x buf s = Some (\<lparr>sm_id = i, sm_offsets = (0, 0), sm_fin = True\<rparr>, buf @ hdr,
      (put_send i (x\<lparr>sn_pending := send_buffer_new, sn_fin_pending := False\<rparr>) s)\<lparr>st_pending := st_pending s\<rparr>)"
    using h poll [unfolded n_def] assms(1,2)
    by (simp add: write_stream_frame_def varint_size_bytes [OF assms(3)] Let_def is_pending_def sb_has_unsent_data_def
        send_buffer_new_def del: One_nat_def)
  then show ?thesis
    using assms(2) by (auto simp: retransmit_stream_for_0rtt_def put_send_def sb_is_fully_acked_def send_buffer_new_def)
qed

theorem retry_loses_empty_finish_witness:
  "\<exists>meta buf' s'. write_stream_frame 100 True 2 ((send_new 10)\<lparr>sn_state := DataSent False, sn_fin_pending := True\<rparr>) [] example_client =
      Some (meta, buf', s') \<and> sm_fin meta \<and> st_pending s' = st_pending example_client \<and> retransmit_stream_for_0rtt s' 2 = s'"
  by (rule retry_loses_empty_finish)
    (simp_all add: send_new_def is_varint_iff example_client_def streams_new_def pq_new_def STREAM_SIZE_BOUND_def Let_def)

end
