(* ===== verification/Packet_Number.thy ===== *)
theory Packet_Number
  imports Var_Int
begin

text \<open>
  \<open>PacketNumber\<close> of \<open>quic-proto/src/packet.rs\<close>: a packet number truncated to one to four bytes, its
  encoding, and its expansion at the receiver (RFC 9000, appendix A).
\<close>

datatype packet_number = U8 nat | U16 nat | U24 nat | U32 nat

text \<open>
  \<open>n - largest_acked\<close> and the doubling are \<open>u64\<close> operations and wrap (in a debug build the
  subtraction panics instead); \<open>None\<close> is the panic on a number too large to encode.
\<close>

definition pn_new :: "nat \<Rightarrow> nat \<Rightarrow> packet_number option" where
  "pn_new n largest_acked =
     (let r = (((n + 2 ^ 64 - largest_acked) mod 2 ^ 64) * 2) mod 2 ^ 64 in
      if r < 2 ^ 8 then Some (U8 (n mod 2 ^ 8))
      else if r < 2 ^ 16 then Some (U16 (n mod 2 ^ 16))
      else if r < 2 ^ 24 then Some (U24 (n mod 2 ^ 32))
      else if r < 2 ^ 32 then Some (U32 (n mod 2 ^ 32))
      else None)"

fun pn_len :: "packet_number \<Rightarrow> nat" where
  "pn_len (U8 _) = 1"
| "pn_len (U16 _) = 2"
| "pn_len (U24 _) = 3"
| "pn_len (U32 _) = 4"

fun pn_encode :: "packet_number \<Rightarrow> packet_writer" where
  "pn_encode (U8 x) = u8_encode (of_nat x)"
| "pn_encode (U16 x) = u16_encode x"
| "pn_encode (U24 x) = put_uint 3 x"
| "pn_encode (U32 x) = u32_encode x"

text \<open>
  \<open>decode\<close>: \<open>get_uint(3)\<close> panics on a short buffer where the other lengths return an error, and any
  other length is unreachable; \<open>Inl True\<close> marks the two panics, \<open>Inl False\<close> the error.
\<close>

definition pn_decode :: "nat \<Rightarrow> (bool, packet_number) parser" where
  "pn_decode len =
     (if len = 1 then pbind (ptry False u8_decode) (\<lambda>x. preturn (U8 (unat x)))
      else if len = 2 then pbind (ptry False u16_decode) (\<lambda>x. preturn (U16 x))
      else if len = 3 then pbind (ptry True (get_uint 3)) (\<lambda>x. preturn (U24 (x mod 2 ^ 32)))
      else if len = 4 then pbind (ptry False u32_decode) (\<lambda>x. preturn (U32 x))
      else pfail True)"

definition pn_decode_len :: "u8 \<Rightarrow> nat" where
  "pn_decode_len tag = 1 + unat (tag AND 3)"

fun pn_tag :: "packet_number \<Rightarrow> u8" where
  "pn_tag (U8 _) = 0"
| "pn_tag (U16 _) = 1"
| "pn_tag (U24 _) = 2"
| "pn_tag (U32 _) = 3"

fun pn_truncated :: "packet_number \<Rightarrow> nat" where
  "pn_truncated (U8 x) = x"
| "pn_truncated (U16 x) = x"
| "pn_truncated (U24 x) = x"
| "pn_truncated (U32 x) = x"

definition pn_expand :: "packet_number \<Rightarrow> nat \<Rightarrow> nat" where
  "pn_expand pn expected =
     (let truncated = pn_truncated pn;
          nbits = pn_len pn * 8;
          win = 2 ^ nbits;
          hwin = win div 2;
          msk = win - 1;
          candidate = (expected AND (u64_max - msk)) OR truncated in
      if (case checked_sub expected hwin of None \<Rightarrow> False | Some x \<Rightarrow> candidate \<le> x)
      then wrapping_add candidate win
      else if candidate > wrapping_add expected hwin \<and> candidate > win
      then candidate - win
      else candidate)"

text \<open>The values the variants hold after \<open>new\<close> or \<open>decode\<close>.\<close>

definition pn_valid :: "packet_number \<Rightarrow> bool" where
  "pn_valid pn \<longleftrightarrow> pn_truncated pn < 256 ^ pn_len pn"

section \<open>Encoding\<close>

lemma pn_len_cases: "pn_len pn \<in> {1, 2, 3, 4}"
  by (cases pn) auto

lemma pn_decode_len_tag: "pn_decode_len (b OR pn_tag pn) = pn_len pn" if "b AND 3 = 0"
proof -
  have "(b OR pn_tag pn) AND 3 = (b AND 3) OR (pn_tag pn AND 3)"
    by (simp add: bit.conj_disj_distrib2)
  also have "\<dots> = pn_tag pn" using that by (cases pn) simp_all
  finally show ?thesis by (cases pn) (simp_all add: pn_decode_len_def)
qed

lemma pn_roundtrip:
  assumes "pn_valid pn"
  shows "\<exists>bs. pn_encode pn = Some bs \<and> length bs = pn_len pn \<and>
    (\<forall>rest. pn_decode (pn_len pn) (bs @ rest) = Inr (pn, rest))"
proof (cases pn)
  case (U8 x)
  then have "unat (of_nat x :: u8) = x" using assms by (simp add: pn_valid_def unat_of_nat)
  with U8 show ?thesis by (simp add: u8_encode_def pn_decode_def pbind_def ptry_def u8_decode_def)
next
  case (U16 x)
  have "u16_decode (be_bytes 2 x @ rest) = Some (x, rest)" for rest
    using assms U16 u16_codec.decode_encode [of x "be_bytes 2 x" rest]
    by (simp add: fits_def pn_valid_def u16_encode_def put_uint_def)
  with U16 show ?thesis by (simp add: pn_decode_def u16_encode_def put_uint_def)
next
  case (U24 x)
  then have "x < 256 ^ 3" using assms by (simp add: pn_valid_def)
  then have "get_uint 3 (be_bytes 3 x @ rest) = Some (x, rest)" "x mod 2 ^ 32 = x" for rest
    by simp_all
  with U24 show ?thesis by (simp add: pn_decode_def put_uint_def)
next
  case (U32 x)
  have "u32_decode (be_bytes 4 x @ rest) = Some (x, rest)" for rest
    using assms U32 u32_codec.decode_encode [of x "be_bytes 4 x" rest]
    by (simp add: fits_def pn_valid_def u32_encode_def put_uint_def)
  with U32 show ?thesis by (simp add: pn_decode_def u32_encode_def put_uint_def)
qed

section \<open>Expansion\<close>

text \<open>The candidate is the number in the window block of \<open>expected\<close> with the truncated low bits.\<close>

lemma pn_candidate:
  assumes "e < 2 ^ 64" and "k \<le> 64" and "t < (2 :: nat) ^ k"
  shows "(e AND (u64_max - (2 ^ k - 1))) OR t = e div 2 ^ k * 2 ^ k + t"
proof -
  have "(u64_max - (2 ^ k - 1)) = (2 ^ 64 - 2 ^ k :: nat)" by simp
  then have "e AND (u64_max - (2 ^ k - 1)) = e div 2 ^ k * 2 ^ k"
    using nat_clear_low_bits [OF assms(1,2)] by (simp only:)
  then show ?thesis by (simp only: nat_or_add [OF assms(3)])
qed

lemma window_blocks:
  assumes "0 < (h :: nat)" and "e < n + h" and "n \<le> e + h"
  shows "n div (2 * h) = e div (2 * h) \<or> n div (2 * h) = e div (2 * h) + 1 \<or>
    n div (2 * h) + 1 = e div (2 * h)"
proof -
  have "n div (2 * h) \<le> (e + 2 * h) div (2 * h)" using assms by (intro div_le_mono) simp
  moreover have "e div (2 * h) \<le> (n + 2 * h) div (2 * h)" using assms by (intro div_le_mono) simp
  moreover have "(x + 2 * h) div (2 * h) = x div (2 * h) + 1" for x
    using assms(1) by (intro div_add_self2) simp
  ultimately have "n div (2 * h) \<le> e div (2 * h) + 1" "e div (2 * h) \<le> n div (2 * h) + 1"
    by (simp_all only:)
  then show ?thesis by linarith
qed

lemma block_shift: "(a :: nat) = p * w + r \<Longrightarrow> b = q * w + r \<Longrightarrow> p = q + 1 \<Longrightarrow> a = b + w"
  by simp

text \<open>
  The window argument in general: a number in the half-open window of width \<open>2h\<close> around \<open>e\<close> is
  recovered from its residue.
\<close>

lemma window_recovers:
  assumes h: "0 < (h :: nat)" and lo: "e < n + h" and hi: "n \<le> e + h"
    and c: "c = e div (2 * h) * (2 * h) + n mod (2 * h)"
  shows "(if h \<le> e \<and> c \<le> e - h then c + 2 * h
          else if c > e + h \<and> c > 2 * h then c - 2 * h else c) = n"
proof -
  have n: "n = n div (2 * h) * (2 * h) + n mod (2 * h)" by (simp only: div_mult_mod_eq)
  consider "n div (2 * h) = e div (2 * h)" | "n div (2 * h) = e div (2 * h) + 1"
    | "n div (2 * h) + 1 = e div (2 * h)"
    using window_blocks [OF h lo hi] by blast
  then show ?thesis
  proof cases
    case 1
    then have "c = n" using c n by (simp only:)
    then show ?thesis using lo hi by auto
  next
    case 2
    then have "n = c + 2 * h" by (rule block_shift [OF n c])
    then show ?thesis using lo hi by simp
  next
    case 3
    then have eq: "c = n + 2 * h" by (intro block_shift [OF c n]) simp
    have "e div (2 * h) \<noteq> 0" using 3 by simp
    then have "2 * h \<le> e" using div_less [of e "2 * h"] by linarith
    then show ?thesis using eq lo hi h by auto
  qed
qed

lemma pn_expand_recovers:
  assumes "pn_valid pn" and "pn_truncated pn = n mod 256 ^ pn_len pn"
    and "expected < 2 ^ 62" and "expected < n + 256 ^ pn_len pn div 2"
    and "n \<le> expected + 256 ^ pn_len pn div 2"
  shows "pn_expand pn expected = n"
proof -
  let ?w = "256 ^ pn_len pn :: nat"
  have w: "2 ^ (pn_len pn * 8) = ?w" by (simp add: mult.commute [of _ 8] power_mult)
  have h: "0 < ?w div 2" "2 * (?w div 2) = ?w" "?w \<le> 2 ^ 32" using pn_len_cases [of pn] by auto
  define c where "c = expected div ?w * ?w + n mod ?w"
  have cand: "(expected AND (u64_max - (?w - 1))) OR pn_truncated pn = c"
    using pn_candidate [of expected "pn_len pn * 8" "pn_truncated pn"] assms(1-3) pn_len_cases [of pn]
    unfolding w c_def pn_valid_def by auto
  have "expected div ?w * ?w \<le> expected" by simp
  moreover have "n mod ?w < ?w" by simp
  ultimately have "c < 2 ^ 62 + 2 ^ 32" unfolding c_def using h(3) assms(3) by linarith
  then have wrap: "wrapping_add c ?w = c + ?w" "wrapping_add expected (?w div 2) = expected + ?w div 2"
    using h assms(3) by (simp_all add: wrapping_add_def)
  have "pn_expand pn expected =
    (if ?w div 2 \<le> expected \<and> c \<le> expected - ?w div 2 then c + ?w
     else if c > expected + ?w div 2 \<and> c > ?w then c - ?w else c)"
    unfolding pn_expand_def Let_def w cand wrap by (simp add: checked_sub_def)
  also have "\<dots> = n"
    by (rule window_recovers [OF h(1) assms(4,5), of c, unfolded h(2)]) (rule c_def)
  finally show ?thesis .
qed

text \<open>
  What \<open>new\<close> promises: it panics unless \<open>n\<close> is at most \<open>2^31 - 1\<close> ahead of the largest acknowledged
  packet, and the width it picks leaves \<open>n\<close> within half a window of it.
\<close>

lemma pn_new_range:
  fixes n largest_acked :: nat
  assumes "largest_acked \<le> n" and "n < 2 ^ 62"
  shows "((n + 2 ^ 64 - largest_acked) mod 2 ^ 64) * 2 mod 2 ^ 64 = (n - largest_acked) * 2"
proof -
  have "(n + 2 ^ 64 - largest_acked) mod 2 ^ 64 = (n - largest_acked + 2 ^ 64) mod 2 ^ 64"
    using assms(1) by simp
  also have "\<dots> = n - largest_acked"
    using assms by (simp only: mod_add_self2) simp
  finally show ?thesis using assms by (simp only:) simp
qed

lemma pn_new_Some:
  assumes "largest_acked \<le> n" and "n < 2 ^ 62" and "pn_new n largest_acked = Some pn"
  shows "(n - largest_acked) * 2 < 256 ^ pn_len pn"
    and "pn_truncated pn mod 256 ^ pn_len pn = n mod 256 ^ pn_len pn"
proof -
  have new: "pn_new n largest_acked =
     (let r = (n - largest_acked) * 2 in
      if r < 2 ^ 8 then Some (U8 (n mod 2 ^ 8))
      else if r < 2 ^ 16 then Some (U16 (n mod 2 ^ 16))
      else if r < 2 ^ 24 then Some (U24 (n mod 2 ^ 32))
      else if r < 2 ^ 32 then Some (U32 (n mod 2 ^ 32)) else None)"
    unfolding pn_new_def pn_new_range [OF assms(1,2)] by (rule refl)
  show "(n - largest_acked) * 2 < 256 ^ pn_len pn"
    using assms(3) unfolding new by (auto simp: Let_def split: if_splits)
  have "n mod 2 ^ 32 mod 256 ^ 3 = n mod 256 ^ 3"
    by (rule mod_mod_cancel, rule dvdI [of _ _ 256]) simp
  then show "pn_truncated pn mod 256 ^ pn_len pn = n mod 256 ^ pn_len pn"
    using assms(3) unfolding new by (auto simp: Let_def split: if_splits)
qed

text \<open>\<open>PacketNumber::new\<close> panics exactly when the packet number is below the largest acknowledged one
  or at least \<open>2^31\<close> ahead of it.\<close>

theorem packet_number_new_panics:
  assumes "n < 2 ^ 62" and "largest_acked < 2 ^ 62"
  shows "pn_new n largest_acked = None \<longleftrightarrow> n < largest_acked \<or> 2 ^ 31 \<le> n - largest_acked"
proof (cases "largest_acked \<le> n")
  case True
  then show ?thesis
    unfolding pn_new_def pn_new_range [OF True assms(1)] by (simp add: Let_def)
next
  case False
  then have "(n + 2 ^ 64 - largest_acked) mod 2 ^ 64 = 2 ^ 64 - (largest_acked - n)" by simp
  moreover have "(2 ^ 64 - (largest_acked - n)) * 2 = 2 ^ 64 + (2 ^ 64 - 2 * (largest_acked - n))"
    using assms by simp
  ultimately have "((n + 2 ^ 64 - largest_acked) mod 2 ^ 64) * 2 mod 2 ^ 64 =
      2 ^ 64 - 2 * (largest_acked - n)"
    using False assms by (simp only: mod_add_self1) simp
  then show ?thesis using False assms unfolding pn_new_def by (simp add: Let_def)
qed

theorem packet_number_new_panics_witness:
  "(5 :: nat) < 2 ^ 62 \<and> (9 :: nat) < 2 ^ 62 \<and> pn_new 5 9 = None"
proof -
  have "(5 :: nat) < 2 ^ 62" and "(9 :: nat) < 2 ^ 62" by simp_all
  then show ?thesis using packet_number_new_panics [of 5 9] by simp
qed

text \<open>
  A truncated number on the wire. \<open>U24\<close> keeps 32 bits of the number in memory, of which three bytes are
  written: only the decoded number, not the one \<open>new\<close> returned, is fit for \<open>expand\<close>.
\<close>

lemma pn_wire:
  obtains bs pn' where "pn_encode pn = Some bs" and "length bs = pn_len pn"
    and "\<And>rest. pn_decode (pn_len pn) (bs @ rest) = Inr (pn', rest)"
    and "pn_valid pn'" and "pn_len pn' = pn_len pn"
    and "pn_truncated pn' = pn_truncated pn mod 256 ^ pn_len pn"
proof -
  define pn' where "pn' = (case pn of U8 x \<Rightarrow> U8 (x mod 256) | U16 x \<Rightarrow> U16 (x mod 256 ^ 2)
      | U24 x \<Rightarrow> U24 (x mod 256 ^ 3) | U32 x \<Rightarrow> U32 (x mod 256 ^ 4))"
  have len: "pn_len pn' = pn_len pn" and tr: "pn_truncated pn' = pn_truncated pn mod 256 ^ pn_len pn"
    by (cases pn; simp add: pn'_def)+
  have valid: "pn_valid pn'" by (simp add: pn_valid_def len tr)
  have "be_bytes k (x mod 256 ^ k) = be_bytes k x" for k x
    using be_bytes_be_val [of "be_bytes k x"] by (simp add: be_val_be_bytes)
  note mods = this [of 2] this [of 3] this [of 4]
  have "of_nat (x mod 256) = (of_nat x :: u8)" for x
    by (simp add: word_unat_eq_iff unat_of_nat)
  then have "pn_encode pn' = pn_encode pn"
    using mods by (cases pn) (simp_all add: pn'_def u16_encode_def u32_encode_def put_uint_def)
  moreover obtain bs where "pn_encode pn' = Some bs" "length bs = pn_len pn'"
    "\<And>rest. pn_decode (pn_len pn') (bs @ rest) = Inr (pn', rest)"
    using pn_roundtrip [OF valid] by blast
  ultimately show thesis using that [of bs pn'] valid len tr by simp
qed

text \<open>C23: a packet number truncated against the largest acknowledged packet, written to the wire and read
  back is expanded to the original by any receiver that has seen that acknowledged packet and whose next
  expected number is less than half a window beyond the packet.\<close>

theorem packet_number_recovered:
  assumes "largest_acked \<le> n" and "n < 2 ^ 62" and "pn_new n largest_acked = Some pn"
    and "largest_acked \<le> expected" and "expected < 2 ^ 62"
    and "expected < n + 256 ^ pn_len pn div 2"
  shows "\<exists>bs pn'. pn_encode pn = Some bs \<and> length bs = pn_len pn \<and>
    pn_decode (pn_len pn) (bs @ rest) = Inr (pn', rest) \<and> pn_expand pn' expected = n"
proof -
  obtain bs pn' where *: "pn_encode pn = Some bs" "length bs = pn_len pn"
    "\<And>rest. pn_decode (pn_len pn) (bs @ rest) = Inr (pn', rest)" "pn_valid pn'"
    "pn_len pn' = pn_len pn" "pn_truncated pn' = pn_truncated pn mod 256 ^ pn_len pn"
    using pn_wire [of pn] by blast
  have "n \<le> expected + 256 ^ pn_len pn div 2"
    using pn_new_Some(1) [OF assms(1-3)] assms(1,4) by linarith
  then have "pn_expand pn' expected = n"
    using pn_expand_recovers [OF *(4), of n expected] pn_new_Some(2) [OF assms(1-3)] assms(5,6) *(5,6)
    by simp
  with * show ?thesis by blast
qed

theorem packet_number_recovered_witness:
  "pn_new 70000 69000 = Some (U16 4464) \<and>
   (\<exists>bs pn'. pn_encode (U16 4464) = Some bs \<and> pn_decode (pn_len (U16 4464)) (bs @ []) = Inr (pn', []) \<and>
     pn_expand pn' 69990 = 70000)"
proof -
  have new: "pn_new 70000 69000 = Some (U16 4464)" by (simp add: pn_new_def Let_def)
  show ?thesis
    using new packet_number_recovered [of 69000 70000 "U16 4464" 69990 "[]"] by auto
qed

end
