(* ===== verification/Packet.thy ===== *)
theory Packet
  imports Proto_Types Packet_Number
begin

text \<open>
  \<open>quic-proto/src/packet.rs\<close>: packet headers on the wire. \<open>Header::encode\<close> and \<open>PartialEncode::finish\<close>
  produce a protected packet, \<open>PartialDecode::new\<close> and \<open>PartialDecode::finish\<close> take it apart again.
  Header protection is cryptography outside this crate: it is a parameter (\<open>header_key\<close>) of the
  functions that use it.
\<close>

section \<open>Header types\<close>

datatype long_type = Handshake | ZeroRtt

datatype long_header_type = LInitial | LRetry | LStandard long_type

datatype packet_decode_error =
    UnsupportedVersion connection_id connection_id nat
  | InvalidHeader string

datatype space_id = SInitial | SHandshake | SData

record initial_header =
  ih_dst_cid :: connection_id
  ih_src_cid :: connection_id
  ih_token :: bytes
  ih_number :: packet_number
  ih_version :: nat

datatype header =
    HInitial initial_header
  | HLong long_type connection_id connection_id packet_number nat
  | HRetry connection_id connection_id nat
  | HShort bool bool connection_id packet_number
  | HVersionNegotiate u8 connection_id connection_id

record protected_initial_header =
  pi_dst_cid :: connection_id
  pi_src_cid :: connection_id
  pi_token_pos :: urange
  pi_len :: nat
  pi_version :: nat

datatype protected_header =
    PInitial protected_initial_header
  | PLong long_type connection_id connection_id nat nat
  | PRetry connection_id connection_id nat
  | PShort bool connection_id
  | PVersionNegotiate u8 connection_id connection_id

definition LONG_HEADER_FORM :: u8 where "LONG_HEADER_FORM = 0x80"
definition FIXED_BIT :: u8 where "FIXED_BIT = 0x40"
definition SPIN_BIT :: u8 where "SPIN_BIT = 0x20"
definition SHORT_RESERVED_BITS :: u8 where "SHORT_RESERVED_BITS = 0x18"
definition LONG_RESERVED_BITS :: u8 where "LONG_RESERVED_BITS = 0x0c"
definition KEY_PHASE_BIT :: u8 where "KEY_PHASE_BIT = 0x04"

lemmas header_bits = LONG_HEADER_FORM_def FIXED_BIT_def SPIN_BIT_def SHORT_RESERVED_BITS_def
  LONG_RESERVED_BITS_def KEY_PHASE_BIT_def

definition long_header_type_from_byte :: "u8 \<Rightarrow> long_header_type" where
  "long_header_type_from_byte b =
     (let t = drop_bit 4 (b AND 0x30) in
      if t = 0 then LInitial else if t = 1 then LStandard ZeroRtt
      else if t = 2 then LStandard Handshake else LRetry)"

fun long_header_type_byte :: "long_header_type \<Rightarrow> u8" where
  "long_header_type_byte LInitial = LONG_HEADER_FORM OR FIXED_BIT"
| "long_header_type_byte (LStandard ZeroRtt) = (LONG_HEADER_FORM OR FIXED_BIT) OR push_bit 4 1"
| "long_header_type_byte (LStandard Handshake) = (LONG_HEADER_FORM OR FIXED_BIT) OR push_bit 4 2"
| "long_header_type_byte LRetry = (LONG_HEADER_FORM OR FIXED_BIT) OR push_bit 4 3"

section \<open>Encoding\<close>

record partial_encode =
  pe_start :: nat
  pe_header_len :: nat
  pe_pn :: "(nat \<times> bool) option"

text \<open>
  \<open>Header::encode\<close> appends to a buffer of length \<open>start\<close>; the bytes it appends and the
  \<open>PartialEncode\<close> it returns (\<open>header_len\<close> is the number of appended bytes).
\<close>

definition header_bytes :: "header \<Rightarrow> packet_writer" where
  "header_bytes h = (case h of
     HInitial ih \<Rightarrow>
       wcat [u8_encode (long_header_type_byte LInitial OR pn_tag (ih_number ih)),
             u32_encode (ih_version ih),
             cid_encode_long (ih_dst_cid ih), cid_encode_long (ih_src_cid ih),
             write_var (length (ih_token ih)), Some (ih_token ih),
             u16_encode 0, pn_encode (ih_number ih)]
   | HLong ty dst src number version \<Rightarrow>
       wcat [u8_encode (long_header_type_byte (LStandard ty) OR pn_tag number),
             u32_encode version, cid_encode_long dst, cid_encode_long src,
             u16_encode 0, pn_encode number]
   | HRetry dst src version \<Rightarrow>
       wcat [u8_encode (long_header_type_byte LRetry), u32_encode version,
             cid_encode_long dst, cid_encode_long src]
   | HShort spin key_phase dst number \<Rightarrow>
       wcat [u8_encode (((FIXED_BIT OR (if key_phase then KEY_PHASE_BIT else 0))
                           OR (if spin then SPIN_BIT else 0)) OR pn_tag number),
             Some dst, pn_encode number]
   | HVersionNegotiate random dst src \<Rightarrow>
       wcat [u8_encode (0x80 OR random), u32_encode 0, cid_encode_long dst, cid_encode_long src])"

fun header_pn :: "header \<Rightarrow> (nat \<times> bool) option" where
  "header_pn (HInitial ih) = Some (pn_len (ih_number ih), True)"
| "header_pn (HLong ty dst src number version) = Some (pn_len number, True)"
| "header_pn (HRetry dst src version) = None"
| "header_pn (HShort spin key_phase dst number) = Some (pn_len number, False)"
| "header_pn (HVersionNegotiate random dst src) = None"

definition header_encode :: "header \<Rightarrow> bytes \<Rightarrow> (bytes \<times> partial_encode) option" where
  "header_encode h w = (case header_bytes h of
     None \<Rightarrow> None
   | Some hb \<Rightarrow> Some (w @ hb, \<lparr>pe_start = length w, pe_header_len = length hb, pe_pn = header_pn h\<rparr>))"

record header_key =
  hk_encrypt :: "nat \<Rightarrow> bytes \<Rightarrow> bytes"
  hk_decrypt :: "nat \<Rightarrow> bytes \<Rightarrow> bytes"
  hk_sample_size :: nat

text \<open>
  \<open>PartialEncode::finish\<close> on the packet's bytes: fill in the payload length, encrypt the payload
  (\<open>crypto\<close> is the packet number and the key's \<open>encrypt\<close>), protect the header. \<open>None\<close> is a panic: the
  assertion on the length, or an index out of range.
\<close>

definition partial_encode_finish ::
  "partial_encode \<Rightarrow> bytes \<Rightarrow> header_key \<Rightarrow> (nat \<times> (nat \<Rightarrow> bytes \<Rightarrow> nat \<Rightarrow> bytes)) option \<Rightarrow>
     packet_writer" where
  "partial_encode_finish pe buf hk crypto =
     (case pe_pn pe of
        None \<Rightarrow> Some buf
      | Some (pnl, write_len) \<Rightarrow>
          let pn_pos = pe_header_len pe - pnl;
              len = length buf - pe_header_len pe + pnl in
          if write_len \<and> (2 ^ 14 \<le> len \<or> pn_pos < 2 \<or> length buf < pn_pos) then None
          else
            let buf1 = (if write_len
                        then take (pn_pos - 2) buf
                             @ be_bytes 2 (unat ((of_nat len OR push_bit 14 1) :: 16 word))
                             @ drop pn_pos buf
                        else buf);
                buf2 = (case crypto of None \<Rightarrow> buf1
                        | Some (number, encrypt) \<Rightarrow> encrypt number buf1 (pe_header_len pe)) in
            Some (hk_encrypt hk pn_pos buf2))"

section \<open>Decoding\<close>

type_synonym cid_parser = "(packet_decode_error, connection_id) parser"

definition eop :: packet_decode_error where
  "eop = InvalidHeader ''unexpected end of packet''"

text \<open>\<open>FixedLengthConnectionIdParser::parse\<close>\<close>

definition fixed_length_cid_parser :: "nat \<Rightarrow> cid_parser" where
  "fixed_length_cid_parser n bs =
     (if n \<le> length bs then Inr (take n bs, drop n bs) else Inl (InvalidHeader ''packet too small''))"

definition decode_long_cid :: cid_parser where
  "decode_long_cid = ptry (InvalidHeader ''malformed cid'') cid_decode_long"

text \<open>
  \<open>ProtectedHeader::decode\<close>; \<open>tot\<close> is the length of the whole buffer, so that a position of the
  cursor is \<open>tot\<close> minus what remains.
\<close>

definition protected_initial_decode ::
  "nat \<Rightarrow> connection_id \<Rightarrow> connection_id \<Rightarrow> nat \<Rightarrow> (packet_decode_error, protected_header) parser" where
  "protected_initial_decode tot dst_cid src_cid version =
     pbind (ptry eop get_var) (\<lambda>token_len rest.
       let token_start = tot - length rest in
       if token_len > length rest then Inl (InvalidHeader ''token out of bounds'')
       else pbind (ptry eop get_var)
              (\<lambda>len. preturn (PInitial \<lparr>pi_dst_cid = dst_cid, pi_src_cid = src_cid,
                 pi_token_pos = (token_start, token_start + token_len), pi_len = len,
                 pi_version = version\<rparr>))
              (drop token_len rest))"

definition protected_header_decode ::
  "cid_parser \<Rightarrow> nat list \<Rightarrow> bool \<Rightarrow> nat \<Rightarrow> (packet_decode_error, protected_header) parser" where
  "protected_header_decode cid_parse supported_versions grease_quic_bit tot =
     pbind (ptry eop u8_decode) (\<lambda>first.
       if \<not> grease_quic_bit \<and> first AND FIXED_BIT = 0 then pfail (InvalidHeader ''fixed bit unset'')
       else if first AND LONG_HEADER_FORM = 0 then
         pbind cid_parse (\<lambda>dst_cid. preturn (PShort (first AND SPIN_BIT \<noteq> 0) dst_cid))
       else
         pbind (ptry eop u32_decode) (\<lambda>version.
         pbind decode_long_cid (\<lambda>dst_cid.
         pbind decode_long_cid (\<lambda>src_cid.
           if version = 0 then
             preturn (PVersionNegotiate (first AND NOT LONG_HEADER_FORM) dst_cid src_cid)
           else if version \<notin> set supported_versions then
             pfail (UnsupportedVersion src_cid dst_cid version)
           else case long_header_type_from_byte first of
               LInitial \<Rightarrow> protected_initial_decode tot dst_cid src_cid version
             | LRetry \<Rightarrow> preturn (PRetry dst_cid src_cid version)
             | LStandard ty \<Rightarrow>
                 pbind (ptry eop get_var) (\<lambda>len. preturn (PLong ty dst_cid src_cid len version))))))"

fun payload_len :: "protected_header \<Rightarrow> nat option" where
  "payload_len (PInitial h) = Some (pi_len h)"
| "payload_len (PLong ty dst src len version) = Some len"
| "payload_len (PRetry dst src version) = None"
| "payload_len (PShort spin dst) = None"
| "payload_len (PVersionNegotiate random dst src) = None"

record partial_decode =
  pd_header :: protected_header
  pd_buf :: bytes
  pd_pos :: nat

definition partial_decode_new ::
  "bytes \<Rightarrow> cid_parser \<Rightarrow> nat list \<Rightarrow> bool \<Rightarrow> packet_decode_error + (partial_decode \<times> bytes option)" where
  "partial_decode_new bytes cid_parse supported_versions grease_quic_bit =
     (case protected_header_decode cid_parse supported_versions grease_quic_bit (length bytes) bytes of
        Inl e \<Rightarrow> Inl e
      | Inr (plain_header, rest) \<Rightarrow>
          let pos = length bytes - length rest;
              dgram_len = length bytes;
              packet_len = (case payload_len plain_header of
                              Some len \<Rightarrow> pos + len | None \<Rightarrow> dgram_len) in
          if dgram_len = packet_len then
            Inr (\<lparr>pd_header = plain_header, pd_buf = bytes, pd_pos = pos\<rparr>, None)
          else if dgram_len < packet_len then
            Inl (InvalidHeader ''packet too short to contain payload length'')
          else
            Inr (\<lparr>pd_header = plain_header, pd_buf = take packet_len bytes, pd_pos = pos\<rparr>,
                 Some (drop packet_len bytes)))"

fun protected_space :: "protected_header \<Rightarrow> space_id option" where
  "protected_space (PInitial _) = Some SInitial"
| "protected_space (PLong Handshake _ _ _ _) = Some SHandshake"
| "protected_space (PLong ZeroRtt _ _ _ _) = Some SData"
| "protected_space (PShort _ _) = Some SData"
| "protected_space (PRetry _ _ _) = None"
| "protected_space (PVersionNegotiate _ _ _) = None"

text \<open>
  \<open>decrypt_header\<close>: the unprotected buffer, the packet number and the position after it. Panics
  cannot happen behind the length check.
\<close>

definition decrypt_header ::
  "bytes \<Rightarrow> nat \<Rightarrow> header_key \<Rightarrow> packet_decode_error + (packet_number \<times> bytes \<times> nat)" where
  "decrypt_header buf pos hk =
     (if length buf < pos + 4 + hk_sample_size hk then
        Inl (InvalidHeader ''packet too short to extract header protection sample'')
      else
        let buf' = hk_decrypt hk pos buf; len = pn_decode_len (hd buf') in
        case pn_decode len (drop pos buf') of
          Inl _ \<Rightarrow> Inl eop
        | Inr (pn, _) \<Rightarrow> Inr (pn, buf', pos + len))"

record packet =
  pkt_header :: header
  pkt_header_data :: bytes
  pkt_payload :: bytes

definition packet_of :: "header \<Rightarrow> bytes \<Rightarrow> nat \<Rightarrow> packet" where
  "packet_of h buf header_len =
     \<lparr>pkt_header = h, pkt_header_data = take header_len buf, pkt_payload = drop header_len buf\<rparr>"

definition partial_decode_finish :: "partial_decode \<Rightarrow> header_key \<Rightarrow> packet_decode_error + packet" where
  "partial_decode_finish pd hk =
     (case pd_header pd of
        PInitial h \<Rightarrow>
          (case decrypt_header (pd_buf pd) (pd_pos pd) hk of
             Inl e \<Rightarrow> Inl e
           | Inr (number, buf, header_len) \<Rightarrow>
               let token = take (snd (pi_token_pos h) - fst (pi_token_pos h))
                             (drop (fst (pi_token_pos h)) (take header_len buf)) in
               Inr (packet_of (HInitial \<lparr>ih_dst_cid = pi_dst_cid h, ih_src_cid = pi_src_cid h,
                 ih_token = token, ih_number = number, ih_version = pi_version h\<rparr>) buf header_len))
      | PLong ty dst src _ version \<Rightarrow>
          (case decrypt_header (pd_buf pd) (pd_pos pd) hk of
             Inl e \<Rightarrow> Inl e
           | Inr (number, buf, header_len) \<Rightarrow>
               Inr (packet_of (HLong ty dst src number version) buf header_len))
      | PRetry dst src version \<Rightarrow>
          Inr (packet_of (HRetry dst src version) (pd_buf pd) (pd_pos pd))
      | PShort spin dst \<Rightarrow>
          (case decrypt_header (pd_buf pd) (pd_pos pd) hk of
             Inl e \<Rightarrow> Inl e
           | Inr (number, buf, header_len) \<Rightarrow>
               Inr (packet_of (HShort spin (hd buf AND KEY_PHASE_BIT \<noteq> 0) dst number) buf header_len))
      | PVersionNegotiate random dst src \<Rightarrow>
          Inr (packet_of (HVersionNegotiate random dst src) (pd_buf pd) (pd_pos pd)))"

definition reserved_bits_valid :: "packet \<Rightarrow> bool" where
  "reserved_bits_valid p =
     (hd (pkt_header_data p) AND
        (case pkt_header p of HShort _ _ _ _ \<Rightarrow> SHORT_RESERVED_BITS | _ \<Rightarrow> LONG_RESERVED_BITS) = 0)"

fun header_space :: "header \<Rightarrow> space_id" where
  "header_space (HShort _ _ _ _) = SData"
| "header_space (HLong ZeroRtt _ _ _ _) = SData"
| "header_space (HLong Handshake _ _ _ _) = SHandshake"
| "header_space _ = SInitial"

section \<open>First bytes\<close>

text \<open>
  Header protection changes the low bits of the first byte only: four of a long header, five of a short
  one. Whatever \<open>decode\<close> reads of that byte before the protection is removed is left alone.
\<close>

lemma and_mask_cong:
  fixes b c :: u8
  assumes "b AND m = c AND m" and "k AND m = k"
  shows "b AND k = c AND k"
proof -
  have "b AND k = (b AND m) AND k" by (subst assms(2) [symmetric]) (simp add: ac_simps)
  also have "\<dots> = c AND k" by (subst (2) assms(2) [symmetric]) (simp add: assms(1) ac_simps)
  finally show ?thesis .
qed

lemma long_first_byte:
  assumes "b AND 0xF0 = (long_header_type_byte ty OR pn_tag pn) AND 0xF0"
  shows "b AND FIXED_BIT \<noteq> 0" and "b AND LONG_HEADER_FORM \<noteq> 0"
    and "long_header_type_from_byte b = ty"
proof -
  let ?c = "long_header_type_byte ty OR pn_tag pn"
  have "b AND 0x40 = ?c AND 0x40" and "b AND 0x80 = ?c AND 0x80" and t: "b AND 0x30 = ?c AND 0x30"
    by (rule and_mask_cong [OF assms], simp)+
  moreover have "?c AND 0x40 \<noteq> 0 \<and> ?c AND 0x80 \<noteq> 0"
    by (cases ty rule: long_header_type_byte.cases; cases pn) (simp_all add: header_bits)
  ultimately show "b AND FIXED_BIT \<noteq> 0" and "b AND LONG_HEADER_FORM \<noteq> 0"
    by (simp_all add: header_bits)
  show "long_header_type_from_byte b = ty"
    unfolding long_header_type_from_byte_def t
    by (cases ty rule: long_header_type_byte.cases; cases pn) (simp_all add: header_bits)
qed

lemma long_first_byte_low: "long_header_type_byte ty AND 3 = 0"
  by (cases ty rule: long_header_type_byte.cases) (simp_all add: header_bits)

text \<open>The payload length is a two-byte variable-length integer whatever its value.\<close>

lemma length_field:
  assumes "len < 2 ^ 14"
  shows "get_var (be_bytes 2 (unat ((of_nat len OR push_bit 14 1) :: 16 word)) @ rest) = Some (len, rest)"
proof -
  have v: "unat ((of_nat len OR push_bit 14 1) :: 16 word) = 1 * (64 * 256 ^ 1) + len"
    using unat_tagged [of len 14 1, where 'a = 16] assms by (simp add: or.commute)
  obtain y tls where *: "y < 64" "be_bytes 2 (1 * (64 * 256 ^ 1) + len) = of_nat (1 * 64 + y) # tls"
    "length tls = 1" "y * 256 ^ 1 + be_val tls = len"
    by (rule tagged_bytes [of len 1 1 2]) (use assms in auto)
  show ?thesis
    unfolding v *(2) get_var_def
    using varint_decode_tagged [of 1 1 y tls rest] *(1,3,4) by simp
qed

section \<open>Round trip of protected packets\<close>

text \<open>
  What RFC 9001, section 5.4 says of header protection, for one packet: it keeps the length, everything
  before the packet number but the low bits of the first byte, and \<open>decrypt\<close> undoes it.
\<close>

definition header_protection_ok :: "header_key \<Rightarrow> nat \<Rightarrow> bytes \<Rightarrow> bool" where
  "header_protection_ok hk pos buf \<longleftrightarrow>
     (let out = hk_encrypt hk pos buf in
      length out = length buf \<and>
      take (pos - 1) (tl out) = take (pos - 1) (tl buf) \<and>
      hd out AND (if hd buf AND LONG_HEADER_FORM \<noteq> 0 then 0xF0 else 0xE0) =
        hd buf AND (if hd buf AND LONG_HEADER_FORM \<noteq> 0 then 0xF0 else 0xE0) \<and>
      hk_decrypt hk pos out = buf)"

text \<open>Packet protection encrypts the payload in place and leaves the header alone.\<close>

definition packet_protection_ok :: "(nat \<Rightarrow> bytes \<Rightarrow> nat \<Rightarrow> bytes) \<Rightarrow> nat \<Rightarrow> bytes \<Rightarrow> nat \<Rightarrow> bool" where
  "packet_protection_ok encrypt number buf header_len \<longleftrightarrow>
     length (encrypt number buf header_len) = length buf \<and>
     take header_len (encrypt number buf header_len) = take header_len buf"

lemma ptry_codec:
  "codec enc dec valid \<Longrightarrow> valid x \<Longrightarrow> enc x = Some bs \<Longrightarrow> ptry e dec (bs @ rest) = Inr (x, rest)"
  by (simp add: ptry_def codec.decode_encode)

lemma decode_long_prefix:
  assumes "b AND FIXED_BIT \<noteq> 0" and "b AND LONG_HEADER_FORM \<noteq> 0"
    and "version \<noteq> 0" and "fits 4 version" and "version \<in> set vs"
    and "length dst \<le> MAX_CID_SIZE" and "cid_encode_long dst = Some dl"
    and "length src \<le> MAX_CID_SIZE" and "cid_encode_long src = Some sl"
  shows "protected_header_decode cp vs g tot (b # be_bytes 4 version @ dl @ sl @ rest) =
    (case long_header_type_from_byte b of
       LInitial \<Rightarrow> protected_initial_decode tot dst src version
     | LRetry \<Rightarrow> preturn (PRetry dst src version)
     | LStandard ty \<Rightarrow> pbind (ptry eop get_var) (\<lambda>len. preturn (PLong ty dst src len version))) rest"
proof -
  have ver: "ptry eop u32_decode (be_bytes 4 version @ r) = Inr (version, r)" for r
    using ptry_codec [OF u32_codec.codec_axioms assms(4), of "be_bytes 4 version" eop r]
    by (simp add: u32_encode_def put_uint_def)
  have cids: "decode_long_cid (dl @ r) = Inr (dst, r)" "decode_long_cid (sl @ r) = Inr (src, r)" for r
    unfolding decode_long_cid_def
    by (rule ptry_codec [OF cid_codec.codec_axioms], use assms(6-9) in auto)+
  have first: "ptry eop u8_decode (b # r) = Inr (b, r)" for r by (simp add: ptry_def u8_decode_def)
  show ?thesis
    unfolding protected_header_decode_def
    using assms(1-3,5) by (simp add: first ver cids split: long_header_type.split)
qed

text \<open>A packet assembled as the packet builder does: header, payload, then \<open>finish\<close>.\<close>

definition seal :: "header \<Rightarrow> bytes \<Rightarrow> header_key \<Rightarrow> nat \<times> (nat \<Rightarrow> bytes \<Rightarrow> nat \<Rightarrow> bytes) \<Rightarrow> packet_writer" where
  "seal h payload hk crypto =
     (case header_encode h [] of None \<Rightarrow> None
      | Some (w, pe) \<Rightarrow> partial_encode_finish pe (w @ payload) hk (Some crypto))"

text \<open>Both kinds of crypto behave on the packet that \<open>seal\<close> hands them.\<close>

definition crypto_ok :: "header_key \<Rightarrow> nat \<times> (nat \<Rightarrow> bytes \<Rightarrow> nat \<Rightarrow> bytes) \<Rightarrow> nat \<Rightarrow> nat \<Rightarrow> bytes \<Rightarrow> bool" where
  "crypto_ok hk crypto pn_pos header_len buf \<longleftrightarrow>
     packet_protection_ok (snd crypto) (fst crypto) buf header_len \<and>
     header_protection_ok hk pn_pos (snd crypto (fst crypto) buf header_len)"

text \<open>What the two leave of a buffer \<open>b # m @ pnb @ payload\<close> whose packet number is \<open>pnb\<close>.\<close>

lemma crypto_shape:
  assumes "crypto_ok hk crypto (Suc (length m)) (Suc (length m) + length pnb) (b # m @ pnb @ payload)"
  obtains b' r pay where
    "hk_encrypt hk (Suc (length m))
       (snd crypto (fst crypto) (b # m @ pnb @ payload) (Suc (length m) + length pnb)) = b' # m @ r"
    and "length r = length pnb + length payload" and "length pay = length payload"
    and "snd crypto (fst crypto) (b # m @ pnb @ payload) (Suc (length m) + length pnb) = b # m @ pnb @ pay"
    and "hk_decrypt hk (Suc (length m)) (b' # m @ r) = b # m @ pnb @ pay"
    and "b' AND (if b AND LONG_HEADER_FORM \<noteq> 0 then 0xF0 else 0xE0) =
         b AND (if b AND LONG_HEADER_FORM \<noteq> 0 then 0xF0 else 0xE0)"
proof -
  define buf2 where "buf2 = snd crypto (fst crypto) (b # m @ pnb @ payload) (Suc (length m) + length pnb)"
  define out where "out = hk_encrypt hk (Suc (length m)) buf2"
  have len2: "length buf2 = Suc (length m) + length pnb + length payload"
    and head2: "take (Suc (length m) + length pnb) buf2 = b # m @ pnb"
    using assms by (simp_all add: crypto_ok_def packet_protection_ok_def buf2_def)
  define pay where "pay = drop (Suc (length m) + length pnb) buf2"
  have buf2: "buf2 = b # m @ pnb @ pay"
    using head2 append_take_drop_id [of "Suc (length m) + length pnb" buf2] by (simp add: pay_def)
  have lpay: "length pay = length payload" using len2 by (simp add: pay_def)
  have hp: "header_protection_ok hk (Suc (length m)) buf2"
    using assms by (simp add: crypto_ok_def buf2_def)
  then have "length out = length buf2" and mid: "take (length m) (tl out) = m"
    and dec: "hk_decrypt hk (Suc (length m)) out = buf2"
    and fst: "hd out AND (if b AND LONG_HEADER_FORM \<noteq> 0 then 0xF0 else 0xE0) =
         b AND (if b AND LONG_HEADER_FORM \<noteq> 0 then 0xF0 else 0xE0)"
    unfolding header_protection_ok_def out_def Let_def by (simp_all add: buf2)
  then obtain b' t where out: "out = b' # t" using len2 by (cases out) auto
  have "t = m @ drop (length m) t" using mid out by (metis append_take_drop_id list.sel(3))
  moreover have "length (drop (length m) t) = length pnb + length payload"
    using \<open>length out = length buf2\<close> len2 out by simp
  ultimately show thesis
    using that [of b' "drop (length m) t" pay] out dec fst lpay buf2 out_def buf2_def by auto
qed

text \<open>Removing the protection: the packet number and the header length come back.\<close>

lemma decrypt_header_shape:
  assumes "hk_decrypt hk (length pre) out = pre @ pnb @ pay" and "pre \<noteq> []"
    and "pn_decode_len (hd pre) = pn_len pn" and "pn_valid pn" and "pn_encode pn = Some pnb"
    and "length pre + 4 + hk_sample_size hk \<le> length out"
  shows "decrypt_header out (length pre) hk = Inr (pn, pre @ pnb @ pay, length pre + length pnb)"
proof -
  have "length pnb = pn_len pn" and dec: "pn_decode (pn_len pn) (pnb @ pay) = Inr (pn, pay)"
    using pn_roundtrip [OF assms(4)] assms(5) by auto
  moreover have "hd (pre @ pnb @ pay) = hd pre" using assms(2) by simp
  ultimately show ?thesis
    using assms(1,3,6) by (simp add: decrypt_header_def Let_def)
qed

lemma partial_decode_new_exact:
  assumes "protected_header_decode cp vs g (length (pre @ r @ rest)) (pre @ r @ rest) = Inr (ph, r @ rest)"
    and "payload_len ph = Some (length r)"
  shows "partial_decode_new (pre @ r @ rest) cp vs g =
    Inr (\<lparr>pd_header = ph, pd_buf = pre @ r, pd_pos = length pre\<rparr>, if rest = [] then None else Some rest)"
  using assms by (auto simp: partial_decode_new_def Let_def)

definition length_bytes :: "nat \<Rightarrow> bytes" where
  "length_bytes len = be_bytes 2 (unat ((of_nat len OR push_bit 14 1) :: 16 word))"

lemma length_length_bytes [simp]: "length (length_bytes len) = 2"
  by (simp add: length_bytes_def)

lemma get_var_length_bytes: "len < 2 ^ 14 \<Longrightarrow> ptry e get_var (length_bytes len @ rest) = Inr (len, rest)"
  unfolding length_bytes_def by (intro ptry_Some length_field)

lemma seal_long:
  assumes "header_bytes h = Some (b # m @ be_bytes 2 0 @ pnb)" and "header_pn h = Some (length pnb, True)"
    and "length payload + length pnb < 2 ^ 14" and "len = length payload + length pnb"
    and "m' = m @ length_bytes len"
  shows "seal h payload hk crypto =
    Some (hk_encrypt hk (Suc (length m'))
      (snd crypto (fst crypto) (b # m' @ pnb @ payload) (Suc (length m') + length pnb)))"
proof -
  let ?w = "b # m @ be_bytes 2 0 @ pnb"
  have pos: "length ?w - length pnb = Suc (length m) + 2" by simp
  have "take (Suc (length m) + 2 - 2) (?w @ payload) = b # m"
    and "drop (Suc (length m) + 2) (?w @ payload) = pnb @ payload"
    by (simp_all del: length_be_bytes add: length_be_bytes [of 2 0])
  then show ?thesis
    using assms(1-3) unfolding assms(4,5)
    by (cases crypto)
      (simp add: seal_def header_encode_def partial_encode_finish_def Let_def length_bytes_def
        pos add.commute numeral_3_eq_3 del: be_bytes.simps)
qed

text \<open>
  The sizes a packet may have: the payload length fits the two reserved bytes, and the packet is long
  enough for the sample header protection takes.
\<close>

definition sealable :: "header_key \<Rightarrow> nat \<Rightarrow> bytes \<Rightarrow> bool" where
  "sealable hk pnl payload \<longleftrightarrow>
     length payload + pnl < 2 ^ 14 \<and> 4 + hk_sample_size hk \<le> pnl + length payload"

text \<open>
  Sealing a long-header packet and removing its header protection again; what lies between the first
  byte and the packet number reaches the receiver unchanged.
\<close>

lemma seal_open_long:
  assumes hb: "header_bytes h = Some (b # m @ be_bytes 2 0 @ pnb)"
    and hpn: "header_pn h = Some (pn_len pn, True)"
    and b: "b = long_header_type_byte ty OR pn_tag pn" and pn: "pn_valid pn" "pn_encode pn = Some pnb"
    and size: "sealable hk (pn_len pn) payload"
    and crypto: "\<And>buf. length buf = length m + 3 + pn_len pn + length payload \<Longrightarrow>
      crypto_ok hk crypto (length m + 3) (length m + 3 + pn_len pn) buf"
  obtains b' r m' pay where "seal h payload hk crypto = Some (b' # m' @ r)"
    and "m' = m @ length_bytes (length r)" and "length r < 2 ^ 14"
    and "b' AND 0xF0 = (long_header_type_byte ty OR pn_tag pn) AND 0xF0"
    and "decrypt_header (b' # m' @ r) (Suc (length m')) hk =
      Inr (pn, b # m' @ pnb @ pay, Suc (length m') + length pnb)"
    and "snd crypto (fst crypto) (b # m' @ pnb @ payload) (Suc (length m') + length pnb) =
      b # m' @ pnb @ pay"
proof -
  have lpn: "length pnb = pn_len pn" using pn_roundtrip [OF pn(1)] pn(2) by auto
  define len where "len = length payload + length pnb"
  define m' where "m' = m @ length_bytes len"
  have lens: "length m' = length m + 2" by (simp add: m'_def)
  have small: "len < 2 ^ 14" using size lpn by (simp add: sealable_def len_def)
  have "crypto_ok hk crypto (Suc (length m')) (Suc (length m') + length pnb) (b # m' @ pnb @ payload)"
    using crypto [of "b # m' @ pnb @ payload"] by (simp add: lens lpn numeral_3_eq_3)
  then obtain b' r pay where out: "hk_encrypt hk (Suc (length m'))
       (snd crypto (fst crypto) (b # m' @ pnb @ payload) (Suc (length m') + length pnb)) = b' # m' @ r"
    and r: "length r = length pnb + length payload"
    and enc: "snd crypto (fst crypto) (b # m' @ pnb @ payload) (Suc (length m') + length pnb) =
      b # m' @ pnb @ pay"
    and dec: "hk_decrypt hk (Suc (length m')) (b' # m' @ r) = b # m' @ pnb @ pay"
    and mask: "b' AND (if b AND LONG_HEADER_FORM \<noteq> 0 then 0xF0 else 0xE0) =
         b AND (if b AND LONG_HEADER_FORM \<noteq> 0 then 0xF0 else 0xE0)"
    by (rule crypto_shape)
  have "b AND LONG_HEADER_FORM \<noteq> 0" by (rule long_first_byte) (simp add: b)
  then have first: "b' AND 0xF0 = (long_header_type_byte ty OR pn_tag pn) AND 0xF0"
    using mask by (simp add: b)
  have "decrypt_header (b' # m' @ r) (Suc (length m')) hk =
      Inr (pn, b # m' @ pnb @ pay, Suc (length m') + length pnb)"
    using decrypt_header_shape [of hk "b # m'" "b' # m' @ r" pnb pay pn] dec pn lpn size r
      pn_decode_len_tag [OF long_first_byte_low, of ty pn]
    by (simp add: b sealable_def)
  moreover have "seal h payload hk crypto = Some (b' # m' @ r)"
    using seal_long [OF hb _ small [unfolded len_def] len_def m'_def, of hk crypto] hpn lpn out by simp
  ultimately show thesis
    using that [of b' m' r pay] first enc small r by (simp add: m'_def len_def add.commute)
qed

lemma long_reserved_bits: "(long_header_type_byte ty OR pn_tag pn) AND LONG_RESERVED_BITS = 0"
  by (cases ty rule: long_header_type_byte.cases; cases pn) (simp_all add: header_bits)

text \<open>
  A receiver's view of a sealed packet: decoding the datagram it begins gives the packet and the rest of
  the datagram, and removing header protection gives the header that was sealed, the header bytes as
  they were authenticated and the payload as it was encrypted.
\<close>

definition opens_to ::
  "header \<Rightarrow> bytes \<Rightarrow> header_key \<Rightarrow> nat \<times> (nat \<Rightarrow> bytes \<Rightarrow> nat \<Rightarrow> bytes) \<Rightarrow>
     (bytes \<Rightarrow> packet_decode_error + (partial_decode \<times> bytes option)) \<Rightarrow> bytes \<Rightarrow> bool" where
  "opens_to h payload hk crypto new rest \<longleftrightarrow>
     (\<exists>out pd p. seal h payload hk crypto = Some out \<and>
        new (out @ rest) = Inr (pd, if rest = [] then None else Some rest) \<and>
        partial_decode_finish pd hk = Inr p \<and> pkt_header p = h \<and> reserved_bits_valid p \<and>
        pkt_header_data p @ pkt_payload p =
          snd crypto (fst crypto) (pkt_header_data p @ payload) (length (pkt_header_data p)))"

text \<open>
  A concrete pair of ciphers for the examples: the payload is masked with the packet number, the low bits
  of the first byte with a constant.
\<close>

definition mask_header_key :: header_key where
  "mask_header_key = \<lparr>hk_encrypt = \<lambda>_ buf. (hd buf XOR 15) # tl buf,
     hk_decrypt = \<lambda>_ buf. (hd buf XOR 15) # tl buf, hk_sample_size = 4\<rparr>"

definition mask_payload :: "nat \<Rightarrow> bytes \<Rightarrow> nat \<Rightarrow> bytes" where
  "mask_payload number buf header_len =
     take header_len buf @ map (\<lambda>b. b XOR of_nat number) (drop header_len buf)"

lemma mask_sample_size [simp]: "hk_sample_size mask_header_key = 4"
  by (simp add: mask_header_key_def)

lemma mask_crypto_ok:
  assumes "0 < header_len" and "header_len \<le> length buf"
  shows "crypto_ok mask_header_key (number, mask_payload) pos header_len buf"
proof -
  have "((x :: u8) XOR 15) AND 240 = x AND 240" "(x XOR 15) AND 224 = x AND 224" for x
    by (simp_all add: bit.conj_xor_distrib2)
  moreover have "mask_payload number buf header_len \<noteq> []" using assms by (simp add: mask_payload_def)
  moreover have "((x :: u8) XOR 15) XOR 15 = x" for x by (simp add: xor.assoc)
  ultimately show ?thesis
    using assms
    by (auto simp: crypto_ok_def packet_protection_ok_def header_protection_ok_def Let_def
        mask_header_key_def mask_payload_def)
qed

text \<open>C9: a Handshake or 0-RTT packet that is encoded, padded with a payload, and encrypted is split off
  the front of its datagram again, and removing header protection gives back the header it was made of
  and the encrypted payload; what follows it in the datagram is returned for the next packet.\<close>

theorem long_packet_opens:
  assumes hb: "header_bytes (HLong ty dst src pn version) = Some hb"
    and cids: "length dst \<le> MAX_CID_SIZE" "length src \<le> MAX_CID_SIZE"
    and version: "version \<noteq> 0" "fits 4 version" "version \<in> set vs" and pn: "pn_valid pn"
    and size: "sealable hk (pn_len pn) payload"
    and crypto: "\<And>buf. length buf = length hb + length payload \<Longrightarrow>
      crypto_ok hk crypto (length hb - pn_len pn) (length hb) buf"
  shows "opens_to (HLong ty dst src pn version) payload hk crypto
    (\<lambda>dgram. partial_decode_new dgram cp vs g) rest"
proof -
  obtain dl sl pnb where dl: "cid_encode_long dst = Some dl" and sl: "cid_encode_long src = Some sl"
    and pnb: "pn_encode pn = Some pnb" "length pnb = pn_len pn"
    using cid_codec.encode_total [OF cids(1)] cid_codec.encode_total [OF cids(2)] pn_roundtrip [OF pn]
    by blast
  define b where "b = long_header_type_byte (LStandard ty) OR pn_tag pn"
  define m where "m = be_bytes 4 version @ dl @ sl"
  have hbe: "header_bytes (HLong ty dst src pn version) = Some (b # m @ be_bytes 2 0 @ pnb)"
    using dl sl pnb(1)
    by (simp add: header_bytes_def u8_encode_def u32_encode_def u16_encode_def put_uint_def b_def m_def)
  then have "length hb = length m + 3 + pn_len pn" using hb pnb(2) by auto
  then have c: "crypto_ok hk crypto (length m + 3) (length m + 3 + pn_len pn) buf"
    if "length buf = length m + 3 + pn_len pn + length payload" for buf
    using crypto [of buf] that by simp
  obtain b' r m' pay where
    out: "seal (HLong ty dst src pn version) payload hk crypto = Some (b' # m' @ r)"
    and m': "m' = m @ length_bytes (length r)" and small: "length r < 2 ^ 14"
    and mask: "b' AND 0xF0 = (long_header_type_byte (LStandard ty) OR pn_tag pn) AND 0xF0"
    and dh: "decrypt_header (b' # m' @ r) (Suc (length m')) hk =
      Inr (pn, b # m' @ pnb @ pay, Suc (length m') + length pnb)"
    and enc: "snd crypto (fst crypto) (b # m' @ pnb @ payload) (Suc (length m') + length pnb) =
      b # m' @ pnb @ pay"
    by (rule seal_open_long [OF hbe header_pn.simps(2) b_def pn pnb(1) size c])
  note first = long_first_byte [OF mask]
  let ?ph = "PLong ty dst src (length r) version"
  have "protected_header_decode cp vs g tot ((b' # m') @ r @ rest) = Inr (?ph, r @ rest)" for tot
    using decode_long_prefix [OF first(1,2) version cids(1) dl cids(2) sl, of cp g tot
        "length_bytes (length r) @ r @ rest"] first(3) get_var_length_bytes [OF small, of eop "r @ rest"]
    by (simp add: m' m_def)
  then have new: "partial_decode_new ((b' # m') @ r @ rest) cp vs g =
      Inr (\<lparr>pd_header = ?ph, pd_buf = (b' # m') @ r, pd_pos = length (b' # m')\<rparr>,
           if rest = [] then None else Some rest)"
    by (rule partial_decode_new_exact) simp
  have "b AND LONG_RESERVED_BITS = 0" unfolding b_def by (rule long_reserved_bits)
  with out new dh enc show ?thesis
    by (simp add: opens_to_def partial_decode_finish_def packet_of_def reserved_bits_valid_def)
qed

theorem long_packet_opens_witness:
  "opens_to (HLong Handshake [1, 2] [3] (U8 5) 1) [6, 0, 0, 0, 0, 0, 0, 0] mask_header_key (5, mask_payload)
    (\<lambda>dgram. partial_decode_new dgram (fixed_length_cid_parser 8) [1] False) [9, 9]"
proof -
  have hb: "header_bytes (HLong Handshake [1, 2] [3] (U8 5) 1) =
    Some [224, 0, 0, 0, 1, 2, 1, 2, 1, 3, 0, 0, 5]" by code_simp
  show ?thesis
    by (rule long_packet_opens [OF hb])
      (auto simp: MAX_CID_SIZE_def fits_def pn_valid_def sealable_def
        intro!: mask_crypto_ok)
qed

text \<open>The same for an Initial packet, whose header carries a token.\<close>

theorem initial_packet_opens:
  assumes h: "h = HInitial \<lparr>ih_dst_cid = dst, ih_src_cid = src, ih_token = token, ih_number = pn,
      ih_version = version\<rparr>"
    and hb: "header_bytes h = Some hb"
    and cids: "length dst \<le> MAX_CID_SIZE" "length src \<le> MAX_CID_SIZE" and token: "is_varint (length token)"
    and version: "version \<noteq> 0" "fits 4 version" "version \<in> set vs" and pn: "pn_valid pn"
    and size: "sealable hk (pn_len pn) payload"
    and crypto: "\<And>buf. length buf = length hb + length payload \<Longrightarrow>
      crypto_ok hk crypto (length hb - pn_len pn) (length hb) buf"
  shows "opens_to h payload hk crypto (\<lambda>dgram. partial_decode_new dgram cp vs g) rest"
proof -
  obtain dl sl tl pnb where dl: "cid_encode_long dst = Some dl" and sl: "cid_encode_long src = Some sl"
    and tl: "write_var (length token) = Some tl"
    and pnb: "pn_encode pn = Some pnb" "length pnb = pn_len pn"
    using cid_codec.encode_total [OF cids(1)] cid_codec.encode_total [OF cids(2)] pn_roundtrip [OF pn]
      var_codec.encode_total [OF token] by blast
  define b where "b = long_header_type_byte LInitial OR pn_tag pn"
  define m where "m = be_bytes 4 version @ dl @ sl @ tl @ token"
  have hbe: "header_bytes h = Some (b # m @ be_bytes 2 0 @ pnb)" and hpn: "header_pn h = Some (pn_len pn, True)"
    using dl sl tl pnb(1) unfolding h
    by (simp_all add: header_bytes_def u8_encode_def u32_encode_def u16_encode_def put_uint_def b_def m_def)
  then have "length hb = length m + 3 + pn_len pn" using hb pnb(2) by auto
  then have c: "crypto_ok hk crypto (length m + 3) (length m + 3 + pn_len pn) buf"
    if "length buf = length m + 3 + pn_len pn + length payload" for buf
    using crypto [of buf] that by simp
  obtain b' r m' pay where out: "seal h payload hk crypto = Some (b' # m' @ r)"
    and m': "m' = m @ length_bytes (length r)" and small: "length r < 2 ^ 14"
    and mask: "b' AND 0xF0 = (long_header_type_byte LInitial OR pn_tag pn) AND 0xF0"
    and dh: "decrypt_header (b' # m' @ r) (Suc (length m')) hk =
      Inr (pn, b # m' @ pnb @ pay, Suc (length m') + length pnb)"
    and enc: "snd crypto (fst crypto) (b # m' @ pnb @ payload) (Suc (length m') + length pnb) =
      b # m' @ pnb @ pay"
    by (rule seal_open_long [OF hbe hpn b_def pn pnb(1) size c])
  note first = long_first_byte [OF mask]
  define ts where "ts = Suc (4 + length dl + length sl + length tl)"
  let ?ph = "PInitial \<lparr>pi_dst_cid = dst, pi_src_cid = src, pi_token_pos = (ts, ts + length token),
     pi_len = length r, pi_version = version\<rparr>"
  let ?dgram = "(b' # m') @ r @ rest"
  have token_len: "ptry eop get_var (tl @ z) = Inr (length token, z)" for z
    by (rule ptry_codec [OF var_codec.codec_axioms token tl])
  have "protected_header_decode cp vs g (length ?dgram) ?dgram = Inr (?ph, r @ rest)"
    using decode_long_prefix [OF first(1,2) version cids(1) dl cids(2) sl, of cp g "length ?dgram"
        "tl @ token @ length_bytes (length r) @ r @ rest"] first(3)
      get_var_length_bytes [OF small, of eop "r @ rest"]
    by (simp add: m' m_def protected_initial_decode_def token_len ts_def Let_def)
  then have new: "partial_decode_new ?dgram cp vs g =
      Inr (\<lparr>pd_header = ?ph, pd_buf = (b' # m') @ r, pd_pos = length (b' # m')\<rparr>,
           if rest = [] then None else Some rest)"
    by (rule partial_decode_new_exact) simp
  have "b # m' @ pnb = (b # be_bytes 4 version @ dl @ sl @ tl) @ token @ length_bytes (length r) @ pnb"
    and "ts = length (b # be_bytes 4 version @ dl @ sl @ tl)" by (simp_all add: m' m_def ts_def)
  then have "drop ts (b # m' @ pnb) = token @ length_bytes (length r) @ pnb"
    by (metis append_eq_conv_conj)
  then have "take (length token) (drop ts (b # m' @ pnb)) = token" by simp
  moreover have "b AND LONG_RESERVED_BITS = 0" unfolding b_def by (rule long_reserved_bits)
  ultimately show ?thesis using out new dh enc
    by (simp add: h opens_to_def partial_decode_finish_def packet_of_def reserved_bits_valid_def Let_def)
qed

text \<open>
  A short header carries no length: it takes the whole datagram, so that nothing may follow it. Its
  connection identifier is found by the receiver's parser.
\<close>

lemma short_first_byte:
  fixes b :: u8
  assumes "b = ((FIXED_BIT OR (if key_phase then KEY_PHASE_BIT else 0))
      OR (if spin then SPIN_BIT else 0)) OR pn_tag pn"
  shows "b AND LONG_HEADER_FORM = 0" and "b AND FIXED_BIT \<noteq> 0" and "b AND SPIN_BIT \<noteq> 0 \<longleftrightarrow> spin"
    and "b AND KEY_PHASE_BIT \<noteq> 0 \<longleftrightarrow> key_phase" and "b AND SHORT_RESERVED_BITS = 0"
    and "pn_decode_len b = pn_len pn"
  unfolding assms
  by (cases key_phase; cases spin; cases pn; simp add: header_bits pn_decode_len_def)+

theorem initial_packet_opens_witness:
  "opens_to (HInitial \<lparr>ih_dst_cid = [1, 2], ih_src_cid = [], ih_token = [8, 8, 8], ih_number = U8 5,
      ih_version = 1\<rparr>) [6, 0, 0, 0, 0, 0, 0, 0] mask_header_key (5, mask_payload)
    (\<lambda>dgram. partial_decode_new dgram (fixed_length_cid_parser 8) [1] False) [9, 9]"
proof -
  have "header_bytes (HInitial \<lparr>ih_dst_cid = [1, 2], ih_src_cid = [], ih_token = [8, 8, 8],
      ih_number = U8 5, ih_version = 1\<rparr>) =
    wcat [u8_encode (192 OR pn_tag (U8 5)), u32_encode 1, cid_encode_long [1, 2], cid_encode_long [],
      Some [3], Some [8, 8, 8], u16_encode 0, pn_encode (U8 5)]"
    by (simp add: header_bytes_def write_var_small header_bits)
  also have "\<dots> = Some [192, 0, 0, 0, 1, 2, 1, 2, 0, 3, 8, 8, 8, 0, 0, 5]" by code_simp
  finally have hb: "header_bytes (HInitial \<lparr>ih_dst_cid = [1, 2], ih_src_cid = [], ih_token = [8, 8, 8],
      ih_number = U8 5, ih_version = 1\<rparr>) = Some [192, 0, 0, 0, 1, 2, 1, 2, 0, 3, 8, 8, 8, 0, 0, 5]" .
  show ?thesis
    by (rule initial_packet_opens [OF refl hb])
      (auto simp: MAX_CID_SIZE_def fits_def is_varint_iff pn_valid_def sealable_def
        intro!: mask_crypto_ok)
qed

text \<open>The same for a short-header packet, which takes the rest of its datagram, at a receiver that
  issues connection ids of the length the sender used.\<close>

theorem short_packet_opens:
  assumes h: "h = HShort spin key_phase dst pn" and pn: "pn_valid pn"
    and size: "4 + hk_sample_size hk \<le> pn_len pn + length payload"
    and crypto: "\<And>buf. length buf = Suc (length dst) + pn_len pn + length payload \<Longrightarrow>
      crypto_ok hk crypto (Suc (length dst)) (Suc (length dst) + pn_len pn) buf"
  shows "opens_to h payload hk crypto
    (\<lambda>dgram. partial_decode_new dgram (fixed_length_cid_parser (length dst)) vs g) []"
proof -
  obtain pnb where pnb: "pn_encode pn = Some pnb" "length pnb = pn_len pn"
    using pn_roundtrip [OF pn] by blast
  define b where "b = ((FIXED_BIT OR (if key_phase then KEY_PHASE_BIT else 0))
      OR (if spin then SPIN_BIT else 0)) OR pn_tag pn"
  note bits = short_first_byte [OF b_def]
  have "crypto_ok hk crypto (Suc (length dst)) (Suc (length dst) + length pnb) (b # dst @ pnb @ payload)"
    using crypto [of "b # dst @ pnb @ payload"] pnb(2) by simp
  then obtain b' r pay where out: "hk_encrypt hk (Suc (length dst))
       (snd crypto (fst crypto) (b # dst @ pnb @ payload) (Suc (length dst) + length pnb)) = b' # dst @ r"
    and r: "length r = length pnb + length payload"
    and enc: "snd crypto (fst crypto) (b # dst @ pnb @ payload) (Suc (length dst) + length pnb) =
      b # dst @ pnb @ pay"
    and dec: "hk_decrypt hk (Suc (length dst)) (b' # dst @ r) = b # dst @ pnb @ pay"
    and mask: "b' AND (if b AND LONG_HEADER_FORM \<noteq> 0 then 0xF0 else 0xE0) =
         b AND (if b AND LONG_HEADER_FORM \<noteq> 0 then 0xF0 else 0xE0)"
    by (rule crypto_shape)
  have mask': "b' AND 0xE0 = b AND 0xE0" using mask bits(1) by simp
  have same: "b' AND LONG_HEADER_FORM = b AND LONG_HEADER_FORM" "b' AND FIXED_BIT = b AND FIXED_BIT"
    "b' AND SPIN_BIT = b AND SPIN_BIT"
    by (rule and_mask_cong [OF mask'], simp add: header_bits)+
  have "seal h payload hk crypto = Some (b' # dst @ r)"
    using out pnb unfolding h
    by (cases crypto) (simp add: seal_def header_encode_def header_bytes_def u8_encode_def
        partial_encode_finish_def Let_def b_def)
  moreover have "partial_decode_new (b' # dst @ r) (fixed_length_cid_parser (length dst)) vs g =
      Inr (\<lparr>pd_header = PShort spin dst, pd_buf = b' # dst @ r, pd_pos = Suc (length dst)\<rparr>, None)"
    using same bits(1-3)
    by (simp add: partial_decode_new_def protected_header_decode_def pbind_def ptry_def u8_decode_def
        fixed_length_cid_parser_def Let_def)
  moreover have "decrypt_header (b' # dst @ r) (Suc (length dst)) hk =
      Inr (pn, b # dst @ pnb @ pay, Suc (length dst) + length pnb)"
    using decrypt_header_shape [of hk "b # dst" "b' # dst @ r" pnb pay pn] dec pn pnb size r bits(6)
    by simp
  ultimately show ?thesis using enc bits(4,5)
    by (simp add: h opens_to_def partial_decode_finish_def packet_of_def reserved_bits_valid_def)
qed

theorem short_packet_opens_witness:
  "opens_to (HShort True False [1, 2, 3] (U16 500)) [6, 0, 0, 0, 0, 0] mask_header_key (500, mask_payload)
    (\<lambda>dgram. partial_decode_new dgram (fixed_length_cid_parser (length [1 :: u8, 2, 3])) [1] False) []"
  by (rule short_packet_opens [OF refl])
    (auto simp: fits_def pn_valid_def
      intro!: mask_crypto_ok)

end
