(* ===== verification/Dedup.thy ===== *)
theory Dedup
  imports Quic_Prelude
begin

text \<open>
  \<open>Dedup\<close> of \<open>quic-proto/src/connection/spaces.rs\<close>: the sliding window that recognises packet numbers seen
  before. The bit field is a \<open>u128\<close>; the highest number is kept outside of it.
\<close>

section \<open>The window\<close>

type_synonym window = "128 word"

record dedup =
  dd_window :: window
  dd_next :: nat

definition WINDOW_SIZE :: nat where "WINDOW_SIZE = 1 + 16 * 8"

definition BITFIELD_SIZE :: nat where "BITFIELD_SIZE = 16 * 8"

definition dedup_new :: dedup where
  "dedup_new = \<lparr>dd_window = 0, dd_next = 0\<rparr>"

definition dedup_highest :: "dedup \<Rightarrow> nat" where
  "dedup_highest d = wrapping_sub (dd_next d) 1"

lemma BITFIELD_SIZE_128: "BITFIELD_SIZE = 128"
  by (simp add: BITFIELD_SIZE_def)

text \<open>\<open>u128::checked_shl\<close> with \<open>unwrap_or(0)\<close>, and \<open>u128::leading_zeros\<close>.\<close>

definition window_shl :: "window \<Rightarrow> nat \<Rightarrow> window" where
  "window_shl w n = (if n < 128 then push_bit n w else 0)"

definition leading_zeros :: "window \<Rightarrow> nat" where
  "leading_zeros w = length (takeWhile (\<lambda>k. \<not> bit w k) (rev [0..<128]))"

definition dedup_insert :: "nat \<Rightarrow> dedup \<Rightarrow> bool \<times> dedup" where
  "dedup_insert packet d =
     (case checked_sub packet (dd_next d) of
        Some diff \<Rightarrow>
          (False, d\<lparr>dd_window := window_shl (push_bit 1 (dd_window d) OR 1) (min diff (2 ^ 32 - 1)),
             dd_next := packet + 1\<rparr>)
      | None \<Rightarrow>
          if dedup_highest d - packet < WINDOW_SIZE then
            (case checked_sub (dedup_highest d - packet) 1 of
               Some b \<Rightarrow>
                 let mask = push_bit b 1 in
                 (dd_window d AND mask \<noteq> 0, d\<lparr>dd_window := dd_window d OR mask\<rparr>)
             | None \<Rightarrow> (True, d))
          else (True, d))"

definition smallest_missing_in_interval :: "nat \<Rightarrow> nat \<Rightarrow> dedup \<Rightarrow> nat option" where
  "smallest_missing_in_interval lower upper d =
     (let lower_bound = lower + 1;
          upper_bound = saturating_sub upper 1;
          start_offset = max (dedup_highest d - upper_bound) 1 - 1 in
      if BITFIELD_SIZE \<le> start_offset then None
      else
        let end_offset_exclusive = saturating_sub (dedup_highest d) lower_bound;
            range_len = min (saturating_sub end_offset_exclusive start_offset) BITFIELD_SIZE in
        if range_len = 0 then None
        else
          let mask = (if range_len = BITFIELD_SIZE then - 1 else push_bit start_offset (push_bit range_len 1 - 1));
              gaps = NOT (dd_window d) AND mask;
              smallest_missing_offset = 128 - leading_zeros gaps;
              smallest_missing_packet = dedup_highest d - smallest_missing_offset in
          if smallest_missing_packet \<le> upper_bound then Some smallest_missing_packet else None)"

definition missing_in_interval :: "nat \<Rightarrow> nat \<Rightarrow> dedup \<Rightarrow> bool" where
  "missing_in_interval lower upper d = (smallest_missing_in_interval lower upper d \<noteq> None)"

fun dedup_insert_all :: "nat list \<Rightarrow> dedup \<Rightarrow> dedup" where
  "dedup_insert_all [] d = d"
| "dedup_insert_all (p # ps) d = dedup_insert_all ps (snd (dedup_insert p d))"

section \<open>What the window remembers\<close>

text \<open>\<open>d\<close> remembers the set \<open>R\<close> of packet numbers as far as its window reaches.\<close>

definition remembers :: "dedup \<Rightarrow> nat set \<Rightarrow> bool" where
  "remembers d R \<longleftrightarrow>
     (\<forall>p \<in> R. p < dd_next d) \<and> (0 < dd_next d \<longrightarrow> dd_next d - 1 \<in> R) \<and>
     (\<forall>k < 128. k + 2 \<le> dd_next d \<longrightarrow> bit (dd_window d) k = (dd_next d - 2 - k \<in> R))"

lemma remembers_new [simp]: "remembers dedup_new {}"
  by (simp add: remembers_def dedup_new_def)

lemma bit_window_shl:
  "k < 128 \<Longrightarrow> bit (window_shl w n) k \<longleftrightarrow> n \<le> k \<and> bit w (k - n)"
  by (auto simp: window_shl_def bit_push_bit_iff bit_simps)

lemma window_shl_min: "window_shl w (min n (2 ^ 32 - 1)) = window_shl w n"
  by (auto simp: window_shl_def min_def)

lemma bit_shift_in: "k < 128 \<Longrightarrow> bit (push_bit 1 w OR 1 :: window) k \<longleftrightarrow> k = 0 \<or> bit w (k - 1)"
  by (auto simp only: bit_or_iff bit_push_bit_iff bit_1_iff possible_bit_word) simp_all

lemma insert_right:
  assumes "remembers d R" "dd_next d \<le> p"
  shows "fst (dedup_insert p d) = False \<and> p \<notin> R \<and> remembers (snd (dedup_insert p d)) (insert p R) \<and>
    dd_next (snd (dedup_insert p d)) = p + 1"
proof -
  let ?n = "dd_next d" and ?w = "window_shl (push_bit 1 (dd_window d) OR 1) (min (p - dd_next d) (2 ^ 32 - 1))"
  have "p \<notin> R" using assms by (auto simp: remembers_def)
  have eq: "dedup_insert p d = (False, d\<lparr>dd_window := ?w, dd_next := p + 1\<rparr>)"
    using assms(2) by (simp add: dedup_insert_def checked_sub_def)
  have "bit ?w k = (p + 1 - 2 - k \<in> insert p R)" if k: "k < 128" "k + 2 \<le> p + 1" for k
  proof -
    have bit: "bit ?w k \<longleftrightarrow> p - ?n \<le> k \<and> (k - (p - ?n) = 0 \<or> bit (dd_window d) (k - (p - ?n) - 1))"
      using k(1) unfolding window_shl_min bit_window_shl [OF k(1)] by (auto simp only: bit_shift_in)
    consider "k < p - ?n" | "k = p - ?n" | "p - ?n < k" by linarith
    then show ?thesis
    proof cases
      case 1
      then have "?n \<le> p - 1 - k" by simp
      then show ?thesis using bit 1 k assms(1) by (auto simp: remembers_def)
    next
      case 2
      then have "p - 1 - k = ?n - 1" "0 < ?n" using k(2) assms(2) by simp_all
      then show ?thesis using bit 2 assms(1) by (simp add: remembers_def)
    next
      case 3
      then have "p - 1 - k = ?n - 2 - (k - (p - ?n) - 1)" "k - (p - ?n) - 1 < 128"
        "k - (p - ?n) - 1 + 2 \<le> ?n" "p - 1 - k \<noteq> p" using k assms(2) by simp_all
      then show ?thesis using bit 3 assms(1) by (simp add: remembers_def)
    qed
  qed
  then have "remembers (d\<lparr>dd_window := ?w, dd_next := p + 1\<rparr>) (insert p R)"
    using assms by (fastforce simp: remembers_def)
  then show ?thesis using eq \<open>p \<notin> R\<close> by simp
qed

lemma insert_left:
  assumes "remembers d R" "p < dd_next d"
  shows "fst (dedup_insert p d) = (p \<in> R \<or> p + WINDOW_SIZE < dd_next d) \<and>
    remembers (snd (dedup_insert p d)) (if p + WINDOW_SIZE < dd_next d then R else insert p R) \<and>
    dd_next (snd (dedup_insert p d)) = dd_next d"
proof -
  let ?n = "dd_next d"
  have high: "dedup_highest d = ?n - 1" and in_R: "?n - 1 \<in> R"
    using assms by (simp_all add: dedup_highest_def remembers_def)
  consider "p + 129 < ?n" | "p + 1 = ?n" | "p + 2 \<le> ?n" "?n \<le> p + 129" using assms(2) by linarith
  then show ?thesis
  proof cases
    case 1
    then have "dedup_insert p d = (True, d)"
      by (simp add: dedup_insert_def checked_sub_def high WINDOW_SIZE_def)
    then show ?thesis using 1 assms(1) by (simp add: WINDOW_SIZE_def)
  next
    case 2
    then have "p = ?n - 1" by simp
    then have "p \<in> R" using in_R by (simp only:)
    moreover have "dedup_insert p d = (True, d)"
      using 2 assms(2) by (simp add: dedup_insert_def checked_sub_def high WINDOW_SIZE_def)
    ultimately show ?thesis using 2 assms(1) by (simp add: WINDOW_SIZE_def insert_absorb)
  next
    case 3
    let ?b = "?n - 2 - p" and ?mask = "push_bit (dd_next d - 2 - p) 1 :: window"
    have "\<not> ?n \<le> p" "?n - 1 - p < 129" "1 \<le> ?n - 1 - p" "?n - 1 - p - 1 = ?b" using 3 by simp_all
    then have eq: "dedup_insert p d = (dd_window d AND ?mask \<noteq> 0, d\<lparr>dd_window := dd_window d OR ?mask\<rparr>)"
      unfolding dedup_insert_def checked_sub_def high WINDOW_SIZE_def by (simp only: if_True if_False option.case Let_def simp_thms numeral_eq_iff; simp)
    have b: "?b < 128" "?b + 2 \<le> ?n" "?n - 2 - ?b = p" using 3 by simp_all
    then have "bit (dd_window d) ?b = (p \<in> R)" using assms(1) by (simp add: remembers_def)
    moreover have "dd_window d AND ?mask \<noteq> 0 \<longleftrightarrow> bit (dd_window d) ?b"
      by (simp add: and_exp_eq_0_iff_not_bit)
    moreover have "bit (dd_window d OR ?mask) k = (?n - 2 - k \<in> insert p R)" if "k < 128" "k + 2 \<le> ?n" for k
      using that 3 assms(1) by (auto simp: remembers_def bit_simps)
    ultimately show ?thesis
      using eq 3 assms by (auto simp: remembers_def WINDOW_SIZE_def)
  qed
qed

lemma insert_remembers:
  assumes "remembers d R"
  shows "fst (dedup_insert p d) = (p \<in> R \<or> p + WINDOW_SIZE < dd_next d) \<and>
    remembers (snd (dedup_insert p d)) (if p + WINDOW_SIZE < dd_next d then R else insert p R)"
  using insert_left [OF assms, of p] insert_right [OF assms, of p] by (cases "p < dd_next d") auto

section \<open>Searching for gaps\<close>

lemma takeWhile_top:
  "k < n \<Longrightarrow> P k \<Longrightarrow> (\<And>j. k < j \<Longrightarrow> j < n \<Longrightarrow> \<not> P j) \<Longrightarrow>
    length (takeWhile (\<lambda>k. \<not> P k) (rev [0..<n])) = n - Suc k"
proof (induction n)
  case (Suc n)
  then show ?case by (cases "k = n") (auto simp: Suc_diff_Suc)
qed simp

lemma leading_zeros_top:
  assumes "k < 128" "bit w k" "\<And>j. k < j \<Longrightarrow> j < 128 \<Longrightarrow> \<not> bit w j"
  shows "leading_zeros w = 128 - Suc k"
  unfolding leading_zeros_def using takeWhile_top [of k 128 "bit w"] assms by blast

lemma leading_zeros_0 [simp]: "leading_zeros 0 = 128"
  by (simp add: leading_zeros_def takeWhile_eq_all_conv [THEN iffD2])

lemma window_top:
  assumes "w \<noteq> (0 :: window)"
  obtains k where "k < 128" "bit w k" "\<And>j. k < j \<Longrightarrow> j < 128 \<Longrightarrow> \<not> bit w j"
proof -
  let ?K = "{k. k < 128 \<and> bit w k}"
  have "\<exists>k. bit w k" using assms by (metis bit_0_eq bit_eq_iff bot_apply bot_bool_def)
  then have "?K \<noteq> {}" using bit_imp_le_length [of w] by auto
  moreover have "finite ?K" by simp
  moreover define k where "k = Max ?K"
  ultimately have k: "k \<in> ?K" "\<And>j. j \<in> ?K \<Longrightarrow> j \<le> k" using Max_in Max_ge by blast+
  have "\<not> bit w j" if "k < j" "j < 128" for j using k(2) [of j] that by auto
  then show ?thesis using that [of k] k(1) by simp
qed

definition missing :: "nat set \<Rightarrow> nat \<Rightarrow> nat \<Rightarrow> nat \<Rightarrow> nat set" where
  "missing R highest lower upper = {q. lower < q \<and> q < upper \<and> q \<notin> R \<and> highest < q + WINDOW_SIZE}"

lemma missing_gap:
  fixes w :: window
  assumes "lower \<le> upper" "upper \<le> h" "0 < upper" "h - upper < 128" "0 < len" "len = min (upper - lower - 1) 128"
    and R: "\<And>k. k < 128 \<Longrightarrow> k < h \<Longrightarrow> bit w k = (h - 1 - k \<in> R)"
    and gaps: "gaps = NOT w AND (if len = 128 then - 1 else push_bit (h - upper) (push_bit len 1 - 1))"
  shows "(if h - (128 - leading_zeros gaps) \<le> upper - 1 then Some (h - (128 - leading_zeros gaps)) else None) =
    (if missing R h lower upper = {} then None else Some (Min (missing R h lower upper)))"
proof -
  let ?M = "missing R h lower upper"
  have "push_bit len 1 - 1 = (mask len :: window)" by (simp add: mask_eq_exp_minus_1)
  then have bits: "bit gaps k \<longleftrightarrow> \<not> bit w k \<and> (len = 128 \<or> h - upper \<le> k \<and> k - (h - upper) < len)" if "k < 128" for k
    using that by (auto simp: gaps bit_simps)
  have low: "k < h" if "bit gaps k" "k < 128" for k using bits [OF that(2)] that assms by (auto split: if_splits)
  have M: "q \<in> ?M \<longleftrightarrow> lower < q \<and> q < upper \<and> bit gaps (h - 1 - q) \<and> h - 1 - q < 128" for q
    using R [of "h - 1 - q"] bits [of "h - 1 - q"] assms(1-6) by (auto simp: missing_def WINDOW_SIZE_def)
  have fin: "finite ?M" by (rule finite_subset [of _ "{..<upper}"]) (auto simp: missing_def)
  show ?thesis
  proof (cases "gaps = 0")
    case True
    then have "?M = {}" using M by auto
    then show ?thesis using True assms by simp
  next
    case False
    then obtain K where K: "K < 128" "bit gaps K" "\<And>j. K < j \<Longrightarrow> j < 128 \<Longrightarrow> \<not> bit gaps j"
      using window_top by blast
    then have P: "h - (128 - leading_zeros gaps) = h - Suc K" using leading_zeros_top [of K gaps] by simp
    have Kh: "K < h" using low [OF K(2,1)] .
    have least: "h - Suc K \<le> q" if "q \<in> ?M" for q
      using that K(3) [of "h - 1 - q"] unfolding M by (cases "K < h - 1 - q") auto
    show ?thesis
    proof (cases "h - upper \<le> K")
      case True
      have "K < h - lower - 1" using bits [OF K(1)] K(1,2) True assms by (auto split: if_splits)
      then have "lower < h - Suc K" "h - Suc K < upper" "h - 1 - (h - Suc K) = K" using True Kh assms(2,3) by linarith+
      then have "h - Suc K \<in> ?M" using M [of "h - Suc K"] K(1,2) by simp
      then have "Min ?M = h - Suc K" "?M \<noteq> {}" using least fin by (auto intro: Min_eqI)
      then show ?thesis using P True Kh assms(3) by auto
    next
      case False
      then have "?M = {}" using least assms Kh by (fastforce simp: missing_def)
      then show ?thesis using P False Kh assms(3) by auto
    qed
  qed
qed

lemma smallest_missing_exact:
  assumes "remembers d R" "lower \<le> upper" "upper \<le> dedup_highest d" "0 < dd_next d"
  shows "smallest_missing_in_interval lower upper d =
    (let M = missing R (dedup_highest d) lower upper in if M = {} then None else Some (Min M))"
proof -
  let ?h = "dedup_highest d" and ?M = "missing R (dedup_highest d) lower upper"
  have h: "?h = dd_next d - 1" using assms(4) by (simp add: dedup_highest_def)
  consider "upper = 0" | "0 < upper" "128 \<le> ?h - upper" | "0 < upper" "?h - upper < 128" "upper \<le> lower + 1"
    | "0 < upper" "?h - upper < 128" "lower + 1 < upper" by linarith
  then show ?thesis
  proof cases
    case 4
    let ?len = "min (upper - lower - 1) 128"
    have so: "max (?h - (upper - 1)) 1 - 1 = ?h - upper" and len: "min (?h - (lower + 1) - (?h - upper)) 128 = ?len"
      using 4 assms(3) by simp_all
    have "bit (dd_window d) k = (?h - 1 - k \<in> R)" if "k < 128" "k < ?h" for k
      using assms(1) that h by (simp add: remembers_def numeral_2_eq_2)
    note gap = missing_gap [OF assms(2,3) 4(1,2) _ refl this refl]
    have c: "\<not> 128 \<le> ?h - upper" "?len \<noteq> 0" "0 < ?len" using 4 by simp_all
    show ?thesis
      unfolding smallest_missing_in_interval_def Let_def saturating_sub_minus BITFIELD_SIZE_128 so len
        if_not_P [OF c(1)] if_not_P [OF c(2)] by (rule gap [OF c(3)])
  next
    case 2
    then have "?M = {}" by (auto simp: missing_def WINDOW_SIZE_def)
    then show ?thesis using 2 assms(3) by (simp add: smallest_missing_in_interval_def BITFIELD_SIZE_def Let_def)
  next
    case 1
    then show ?thesis using assms(2) by (simp add: smallest_missing_in_interval_def missing_def Let_def BITFIELD_SIZE_def)
  next
    case 3
    then have "?M = {}" by (auto simp: missing_def)
    moreover have "min (?h - (lower + 1) - (max (?h - (upper - 1)) 1 - 1)) 128 = 0" using 3 assms(3) by simp
    ultimately show ?thesis
      unfolding smallest_missing_in_interval_def Let_def saturating_sub_minus BITFIELD_SIZE_128
      by (simp only: simp_thms if_True if_cancel)
  qed
qed

section \<open>Duplicate detection\<close>

lemma insert_all_remembers:
  "remembers d R \<Longrightarrow> \<exists>R'. remembers (dedup_insert_all ps d) R' \<and> R' \<subseteq> R \<union> set ps \<and> R \<subseteq> R' \<and>
    (\<forall>p \<in> set ps. p \<in> R' \<or> p + WINDOW_SIZE < dd_next (dedup_insert_all ps d)) \<and> dd_next d \<le> dd_next (dedup_insert_all ps d)"
proof (induction ps arbitrary: d R)
  case (Cons p ps)
  let ?d = "snd (dedup_insert p d)" and ?R = "if p + WINDOW_SIZE < dd_next d then R else insert p R"
  have d: "remembers ?d ?R" using insert_remembers [OF Cons.prems] by simp
  have "dd_next d \<le> dd_next ?d"
    using insert_left [OF Cons.prems, of p] insert_right [OF Cons.prems, of p] by (cases "p < dd_next d") auto
  with Cons.IH [OF d] show ?case by (fastforce split: if_splits)
qed auto

text \<open>
  C21: Whatever packet numbers were recorded before and in whatever order, \<open>insert\<close> reports a duplicate
  exactly when the number was recorded before or lies more than a window below the highest one: no packet is
  ever processed twice, and a packet inside the window is never refused without having been seen.
\<close>

theorem dedup_exact:
  "fst (dedup_insert p (dedup_insert_all ps dedup_new)) \<longleftrightarrow>
     p \<in> set ps \<or> p + WINDOW_SIZE < dd_next (dedup_insert_all ps dedup_new)"
proof -
  obtain R where R: "remembers (dedup_insert_all ps dedup_new) R" "R \<subseteq> set ps"
    "\<forall>p \<in> set ps. p \<in> R \<or> p + WINDOW_SIZE < dd_next (dedup_insert_all ps dedup_new)"
    using insert_all_remembers [OF remembers_new, of ps] by auto
  show ?thesis using insert_remembers [OF R(1), of p] R(2,3) by auto
qed

text \<open>
  \<open>smallest_missing_in_interval\<close>, which decides by bit masks whether an acknowledgement has to be sent at
  once, returns the smallest packet number strictly between the two bounds that was not recorded, among those
  the window still covers, and nothing if there is none.
\<close>

theorem smallest_missing_correct:
  assumes "lower \<le> upper" "upper \<in> set ps" "d = dedup_insert_all ps dedup_new"
  shows "smallest_missing_in_interval lower upper d =
    (let M = {q. lower < q \<and> q < upper \<and> q \<notin> set ps \<and> dedup_highest d < q + WINDOW_SIZE} in
     if M = {} then None else Some (Min M))"
proof -
  obtain R where R: "remembers d R" "R \<subseteq> set ps" "\<forall>p \<in> set ps. p \<in> R \<or> p + WINDOW_SIZE < dd_next d"
    using insert_all_remembers [OF remembers_new, of ps] assms(3) by auto
  then have "upper < dd_next d" using assms(2) by (auto simp: remembers_def)
  then have h: "dedup_highest d = dd_next d - 1" "upper \<le> dedup_highest d" "0 < dd_next d"
    by (auto simp: dedup_highest_def)
  have "missing R (dedup_highest d) lower upper =
      {q. lower < q \<and> q < upper \<and> q \<notin> set ps \<and> dedup_highest d < q + WINDOW_SIZE}"
    using R(2,3) h by (fastforce simp: missing_def)
  then show ?thesis using smallest_missing_exact [OF R(1) assms(1) h(2,3)] by simp
qed

theorem smallest_missing_correct_witness:
  "smallest_missing_in_interval 0 7 (dedup_insert_all [0, 1, 5, 7] dedup_new) =
     (let M = {q. 0 < q \<and> q < 7 \<and> q \<notin> {0, 1, 5, 7} \<and>
        dedup_highest (dedup_insert_all [0, 1, 5, 7] dedup_new) < q + WINDOW_SIZE} in
      if M = {} then None else Some (Min M))"
  using smallest_missing_correct [of 0 7 "[0, 1, 5, 7]", OF _ _ refl] by simp

end
