(* ===== verification/Packet_Spaces.thy ===== *)
theory Packet_Spaces
  imports Packet Dedup Streams
begin

text \<open>
  \<open>quic-proto/src/connection/spaces.rs\<close>: the packet number spaces of a connection with the packets in
  flight, the acknowledgements owed to the peer and the filter that skips packet numbers. A \<open>BTreeMap\<close> is
  the list of its entries in ascending order of keys. Times are natural numbers, a panic is \<open>None\<close>, and the
  keys of a space are a type parameter.
\<close>

section \<open>Ordered maps\<close>

fun bm_insert :: "nat \<Rightarrow> 'a \<Rightarrow> (nat \<times> 'a) list \<Rightarrow> (nat \<times> 'a) list" where
  "bm_insert k v [] = [(k, v)]"
| "bm_insert k v ((k', v') # m) =
     (if k < k' then (k, v) # (k', v') # m else if k = k' then (k, v) # m else (k', v') # bm_insert k v m)"

definition bm_remove :: "nat \<Rightarrow> (nat \<times> 'a) list \<Rightarrow> (nat \<times> 'a) list" where
  "bm_remove k m = filter (\<lambda>e. fst e \<noteq> k) m"

text \<open>The first entry above a key, \<open>range((Excluded(k), Unbounded)).next()\<close>.\<close>

definition bm_after :: "nat \<Rightarrow> (nat \<times> 'a) list \<Rightarrow> (nat \<times> 'a) option" where
  "bm_after k m = find (\<lambda>e. k < fst e) m"

definition bm_ok :: "(nat \<times> 'a) list \<Rightarrow> bool" where
  "bm_ok m \<longleftrightarrow> sorted_wrt (<) (map fst m)"

lemma bm_ok_Nil [simp]: "bm_ok []"
  by (simp add: bm_ok_def)

lemma bm_ok_Cons [simp]: "bm_ok (e # m) \<longleftrightarrow> (\<forall>x \<in> set m. fst e < fst x) \<and> bm_ok m"
  by (simp add: bm_ok_def)

lemma bm_insert_keys: "fst ` set (bm_insert k v m) = insert k (fst ` set m)"
  by (induction k v m rule: bm_insert.induct) auto

lemma bm_insert_ok [intro]: "bm_ok m \<Longrightarrow> bm_ok (bm_insert k v m)"
proof (induction k v m rule: bm_insert.induct)
  case (2 k v k' v' m)
  have "\<forall>x \<in> fst ` set (bm_insert k v m). k' < x" if "k' < k"
    unfolding bm_insert_keys using 2(2) that by auto
  with 2 show ?case by auto
qed simp

lemma bm_remove_ok [intro]: "bm_ok m \<Longrightarrow> bm_ok (bm_remove k m)"
  by (induction m) (auto simp: bm_remove_def)

lemma bm_insert_lookup [simp]: "bm_ok m \<Longrightarrow> map_of (bm_insert k v m) = (map_of m)(k \<mapsto> v)"
  by (induction k v m rule: bm_insert.induct) (auto simp: fun_eq_iff)

lemma bm_remove_lookup [simp]: "map_of (bm_remove k m) = (map_of m)(k := None)"
  by (induction m) (auto simp: bm_remove_def fun_eq_iff)

lemma bm_insert_last: "\<forall>x \<in> set m. fst x < k \<Longrightarrow> bm_insert k v m = m @ [(k, v)]"
  by (induction k v m rule: bm_insert.induct) auto

lemma bm_ok_unique: "bm_ok m \<Longrightarrow> (k, v) \<in> set m \<Longrightarrow> (k, v') \<in> set m \<Longrightarrow> v = v'"
  by (induction m) fastforce+

lemma bm_lookup_iff: "bm_ok m \<Longrightarrow> map_of m k = Some v \<longleftrightarrow> (k, v) \<in> set m"
  by (induction m) auto

lemma bm_remove_split:
  assumes "bm_ok m" "map_of m k = Some v"
  shows "\<exists>a b. m = a @ (k, v) # b \<and> bm_remove k m = a @ b"
proof -
  obtain a b where m: "m = a @ (k, v) # b" using assms by (auto simp: bm_lookup_iff dest: split_list)
  have "\<forall>x \<in> set a \<union> set b. fst x \<noteq> k" using assms(1) unfolding m bm_ok_def by (force simp: sorted_wrt_append)
  then have "bm_remove k m = a @ b" by (simp add: m bm_remove_def filter_id_conv)
  with m show ?thesis by blast
qed

lemma bm_after_SomeD: "bm_after k m = Some (k', v) \<Longrightarrow> (k', v) \<in> set m \<and> k < k'"
  by (induction m) (auto simp: bm_after_def split: if_splits)

section \<open>Retransmittable data\<close>

definition retransmits_is_empty :: "retransmits \<Rightarrow> streams \<Rightarrow> bool" where
  "retransmits_is_empty r s \<longleftrightarrow>
     \<not> rt_max_data r \<and> \<not> (rt_max_stream_id r Bi \<or> rt_max_stream_id r Uni) \<and>
     \<not> (rt_streams_blocked r Bi \<or> rt_streams_blocked r Uni) \<and>
     rt_reset_stream r = [] \<and> rt_stop_sending r = [] \<and>
     (\<forall>i \<in> set (rt_max_stream_data r). \<not> can_send_flow_control i s) \<and>
     rt_crypto r = [] \<and> rt_new_cids r = [] \<and> rt_retire_cids r = [] \<and>
     \<not> rt_ack_frequency r \<and> \<not> rt_handshake_done r \<and> rt_new_tokens r = []"

definition retransmits_or :: "retransmits \<Rightarrow> retransmits \<Rightarrow> retransmits" where
  "retransmits_or r rhs =
     \<lparr>rt_max_data = (rt_max_data r \<or> rt_max_data rhs),
      rt_max_stream_id = (\<lambda>d. rt_max_stream_id r d \<or> rt_max_stream_id rhs d),
      rt_streams_blocked = (\<lambda>d. rt_streams_blocked r d \<or> rt_streams_blocked rhs d),
      rt_reset_stream = rt_reset_stream r @ rt_reset_stream rhs,
      rt_stop_sending = rt_stop_sending r @ rt_stop_sending rhs,
      rt_max_stream_data = foldl (\<lambda>ids i. id_insert i ids) (rt_max_stream_data r) (rt_max_stream_data rhs),
      rt_crypto = rt_crypto rhs @ rt_crypto r,
      rt_new_cids = rt_new_cids r @ rt_new_cids rhs,
      rt_retire_cids = rt_retire_cids r @ rt_retire_cids rhs,
      rt_ack_frequency = (rt_ack_frequency r \<or> rt_ack_frequency rhs),
      rt_handshake_done = (rt_handshake_done r \<or> rt_handshake_done rhs),
      rt_new_tokens = rt_new_tokens r @ rt_new_tokens rhs\<rparr>"

definition retransmits_or_thin :: "retransmits \<Rightarrow> thin_retransmits \<Rightarrow> retransmits" where
  "retransmits_or_thin r rhs = (case rhs of Some t \<Rightarrow> retransmits_or r t | None \<Rightarrow> r)"

definition retransmits_from_iter :: "retransmits list \<Rightarrow> retransmits" where
  "retransmits_from_iter rs = foldl retransmits_or retransmits_default rs"

definition thin_is_empty :: "thin_retransmits \<Rightarrow> streams \<Rightarrow> bool" where
  "thin_is_empty t s = (case t of Some r \<Rightarrow> retransmits_is_empty r s | None \<Rightarrow> True)"

section \<open>Acknowledgements owed\<close>

record pending_acks =
  pa_immediate_ack_required :: bool
  pa_ack_eliciting_since_last_ack_sent :: nat
  pa_non_ack_eliciting_since_last_ack_sent :: nat
  pa_ack_eliciting_threshold :: nat
  pa_reordering_threshold :: nat
  pa_earliest_ack_eliciting_since_last_ack_sent :: "nat option"
  pa_ranges :: "urange list"
  pa_largest_packet :: "(nat \<times> nat) option"
  pa_largest_ack_eliciting_packet :: "nat option"
  pa_largest_acked :: "nat option"

definition MAX_ACK_BLOCKS :: nat where "MAX_ACK_BLOCKS = 64"

definition LAZY_ACK_THRESHOLD :: nat where "LAZY_ACK_THRESHOLD = 10"

definition pending_acks_new :: pending_acks where
  "pending_acks_new = \<lparr>pa_immediate_ack_required = False, pa_ack_eliciting_since_last_ack_sent = 0,
     pa_non_ack_eliciting_since_last_ack_sent = 0, pa_ack_eliciting_threshold = 1, pa_reordering_threshold = 1,
     pa_earliest_ack_eliciting_since_last_ack_sent = None, pa_ranges = [], pa_largest_packet = None,
     pa_largest_ack_eliciting_packet = None, pa_largest_acked = None\<rparr>"

definition set_ack_frequency_params :: "ack_frequency_frame \<Rightarrow> pending_acks \<Rightarrow> pending_acks" where
  "set_ack_frequency_params frame p =
     p\<lparr>pa_ack_eliciting_threshold := af_ack_eliciting_threshold frame, pa_reordering_threshold := af_reordering_threshold frame\<rparr>"

definition set_immediate_ack_required :: "pending_acks \<Rightarrow> pending_acks" where
  "set_immediate_ack_required p = p\<lparr>pa_immediate_ack_required := True\<rparr>"

definition on_max_ack_delay_timeout :: "pending_acks \<Rightarrow> pending_acks" where
  "on_max_ack_delay_timeout p = p\<lparr>pa_immediate_ack_required := 0 < pa_ack_eliciting_since_last_ack_sent p\<rparr>"

definition max_ack_delay_timeout :: "nat \<Rightarrow> pending_acks \<Rightarrow> nat option" where
  "max_ack_delay_timeout max_ack_delay p =
     map_option (\<lambda>earliest. earliest + max_ack_delay) (pa_earliest_ack_eliciting_since_last_ack_sent p)"

definition acks_can_send :: "pending_acks \<Rightarrow> bool" where
  "acks_can_send p \<longleftrightarrow> pa_immediate_ack_required p \<and> pa_ranges p \<noteq> []"

definition pa_ack_delay :: "nat \<Rightarrow> pending_acks \<Rightarrow> nat" where
  "pa_ack_delay now p = (case pa_largest_packet p of None \<Rightarrow> 0 | Some (_, recvd) \<Rightarrow> now - recvd)"

definition is_out_of_order :: "nat \<Rightarrow> nat \<Rightarrow> dedup \<Rightarrow> pending_acks \<Rightarrow> bool" where
  "is_out_of_order packet_number prev_largest_ack_eliciting d p =
     (if pa_reordering_threshold p = 0 then False
      else if pa_reordering_threshold p = 1 then
        packet_number < prev_largest_ack_eliciting \<or> missing_in_interval prev_largest_ack_eliciting packet_number d
      else
        (case (pa_largest_acked p, pa_largest_ack_eliciting_packet p) of
           (Some largest_acked, Some largest_unacked) \<Rightarrow>
             if largest_acked < pa_reordering_threshold p then False
             else
               (case smallest_missing_in_interval (largest_acked - pa_reordering_threshold p + 1) largest_unacked d of
                  None \<Rightarrow> False
                | Some smallest_missing_unreported \<Rightarrow>
                    pa_reordering_threshold p \<le> wrapping_sub largest_unacked smallest_missing_unreported)
         | _ \<Rightarrow> False))"

definition pa_packet_received :: "nat \<Rightarrow> nat \<Rightarrow> bool \<Rightarrow> dedup \<Rightarrow> pending_acks \<Rightarrow> bool \<times> pending_acks" where
  "pa_packet_received now packet_number ack_eliciting d p =
     (if \<not> ack_eliciting then
        (False, p\<lparr>pa_non_ack_eliciting_since_last_ack_sent := pa_non_ack_eliciting_since_last_ack_sent p + 1\<rparr>)
      else
        let prev_largest = (case pa_largest_ack_eliciting_packet p of None \<Rightarrow> 0 | Some n \<Rightarrow> n);
            p1 = p\<lparr>pa_largest_ack_eliciting_packet :=
                    (case pa_largest_ack_eliciting_packet p of None \<Rightarrow> Some packet_number | Some pn \<Rightarrow> Some (max pn packet_number)),
                  pa_ack_eliciting_since_last_ack_sent := pa_ack_eliciting_since_last_ack_sent p + 1\<rparr>;
            p2 = p1\<lparr>pa_immediate_ack_required := pa_immediate_ack_required p1 \<or>
                    pa_ack_eliciting_threshold p1 < pa_ack_eliciting_since_last_ack_sent p1\<rparr>;
            p3 = p2\<lparr>pa_immediate_ack_required := pa_immediate_ack_required p2 \<or> is_out_of_order packet_number prev_largest d p2\<rparr> in
        if pa_earliest_ack_eliciting_since_last_ack_sent p3 = None \<and> \<not> acks_can_send p3 then
          (True, p3\<lparr>pa_earliest_ack_eliciting_since_last_ack_sent := Some now\<rparr>)
        else (False, p3))"

definition acks_sent :: "pending_acks \<Rightarrow> pending_acks" where
  "acks_sent p = p\<lparr>pa_immediate_ack_required := False, pa_ack_eliciting_since_last_ack_sent := 0,
     pa_non_ack_eliciting_since_last_ack_sent := 0, pa_earliest_ack_eliciting_since_last_ack_sent := None,
     pa_largest_acked := pa_largest_ack_eliciting_packet p\<rparr>"

definition pa_insert_one :: "nat \<Rightarrow> nat \<Rightarrow> pending_acks \<Rightarrow> pending_acks" where
  "pa_insert_one packet now p =
     (let p1 = p\<lparr>pa_ranges := fst (ars_insert_one packet (pa_ranges p))\<rparr>;
          p2 = (case pa_largest_packet p1 of
                  None \<Rightarrow> p1\<lparr>pa_largest_packet := Some (packet, now)\<rparr>
                | Some (pn, _) \<Rightarrow> if pn < packet then p1\<lparr>pa_largest_packet := Some (packet, now)\<rparr> else p1) in
      if MAX_ACK_BLOCKS < length (pa_ranges p2) then p2\<lparr>pa_ranges := snd (ars_pop_min (pa_ranges p2))\<rparr> else p2)"

definition subtract_below :: "nat \<Rightarrow> pending_acks \<Rightarrow> pending_acks" where
  "subtract_below mx p = p\<lparr>pa_ranges := fst (ars_remove (0, mx + 1) (pa_ranges p))\<rparr>"

definition maybe_ack_non_eliciting :: "pending_acks \<Rightarrow> pending_acks" where
  "maybe_ack_non_eliciting p =
     (if LAZY_ACK_THRESHOLD < pa_non_ack_eliciting_since_last_ack_sent p then p\<lparr>pa_immediate_ack_required := True\<rparr> else p)"

section \<open>Packet number spaces\<close>

record sent_packet =
  sk_path_generation :: nat
  sk_time_sent :: nat
  sk_size :: nat
  sk_ack_eliciting :: bool
  sk_largest_acked :: "nat option"
  sk_retransmits :: thin_retransmits
  sk_stream_frames :: "stream_meta list"

text \<open>Of a lost packet only the time it was sent is kept.\<close>

record lost_packet =
  lp_time_sent :: nat

record 'k packet_space =
  sp_crypto :: "'k option"
  sp_dedup :: dedup
  sp_rx_packet :: nat
  sp_pending :: retransmits
  sp_pending_acks :: pending_acks
  sp_next_packet_number :: nat
  sp_largest_acked_packet :: "nat option"
  sp_largest_acked_packet_sent :: nat
  sp_largest_ack_eliciting_sent :: nat
  sp_unacked_non_ack_eliciting_tail :: nat
  sp_sent_packets :: "(nat \<times> sent_packet) list"
  sp_lost_packets :: "(nat \<times> lost_packet) list"
  sp_ecn_counters :: ecn_counts
  sp_ecn_feedback :: ecn_counts
  sp_crypto_stream :: assembler
  sp_crypto_offset :: nat
  sp_time_of_last_ack_eliciting_packet :: "nat option"
  sp_loss_time :: "nat option"
  sp_loss_probes :: nat
  sp_ping_pending :: bool
  sp_immediate_ack_pending :: bool
  sp_sent_with_keys :: nat

definition space_new :: "nat \<Rightarrow> 'k packet_space" where
  "space_new now = \<lparr>sp_crypto = None, sp_dedup = dedup_new, sp_rx_packet = 0, sp_pending = retransmits_default,
     sp_pending_acks = pending_acks_new, sp_next_packet_number = 0, sp_largest_acked_packet = None,
     sp_largest_acked_packet_sent = now, sp_largest_ack_eliciting_sent = 0, sp_unacked_non_ack_eliciting_tail = 0,
     sp_sent_packets = [], sp_lost_packets = [], sp_ecn_counters = ecn_counts_ZERO, sp_ecn_feedback = ecn_counts_ZERO,
     sp_crypto_stream = assembler_new, sp_crypto_offset = 0, sp_time_of_last_ack_eliciting_packet = None,
     sp_loss_time = None, sp_loss_probes = 0, sp_ping_pending = False, sp_immediate_ack_pending = False,
     sp_sent_with_keys = 0\<rparr>"

text \<open>The loop over the packets in flight: the data of the first one that has any, taken out of it.\<close>

fun take_oldest_retransmits ::
    "streams \<Rightarrow> (nat \<times> sent_packet) list \<Rightarrow> (thin_retransmits \<times> (nat \<times> sent_packet) list) option" where
  "take_oldest_retransmits s [] = None"
| "take_oldest_retransmits s ((n, p) # ps) =
     (if \<not> thin_is_empty (sk_retransmits p) s then Some (sk_retransmits p, (n, p\<lparr>sk_retransmits := None\<rparr>) # ps)
      else map_option (\<lambda>(t, ps'). (t, (n, p) # ps')) (take_oldest_retransmits s ps))"

definition maybe_queue_probe :: "bool \<Rightarrow> streams \<Rightarrow> 'k packet_space \<Rightarrow> 'k packet_space" where
  "maybe_queue_probe request_immediate_ack s sp =
     (if sp_loss_probes sp = 0 then sp
      else
        let sp1 = (if request_immediate_ack then sp\<lparr>sp_immediate_ack_pending := True\<rparr> else sp) in
        if \<not> retransmits_is_empty (sp_pending sp1) s then sp1
        else
          (case take_oldest_retransmits s (sp_sent_packets sp1) of
             Some (t, ps) \<Rightarrow> sp1\<lparr>sp_pending := retransmits_or_thin (sp_pending sp1) t, sp_sent_packets := ps\<rparr>
           | None \<Rightarrow> if \<not> sp_immediate_ack_pending sp1 then sp1\<lparr>sp_ping_pending := True\<rparr> else sp1))"

definition get_tx_number :: "'k packet_space \<Rightarrow> (nat \<times> 'k packet_space) option" where
  "get_tx_number sp =
     (if 2 ^ 62 \<le> sp_next_packet_number sp then None
      else Some (sp_next_packet_number sp,
        sp\<lparr>sp_next_packet_number := sp_next_packet_number sp + 1, sp_sent_with_keys := sp_sent_with_keys sp + 1\<rparr>))"

record sendable_frames =
  sf_acks :: bool
  sf_other :: bool

definition sendable_empty :: sendable_frames where
  "sendable_empty = \<lparr>sf_acks = False, sf_other = False\<rparr>"

definition sendable_is_empty :: "sendable_frames \<Rightarrow> bool" where
  "sendable_is_empty f \<longleftrightarrow> \<not> sf_acks f \<and> \<not> sf_other f"

definition sp_can_send :: "streams \<Rightarrow> 'k packet_space \<Rightarrow> sendable_frames" where
  "sp_can_send s sp =
     \<lparr>sf_acks = acks_can_send (sp_pending_acks sp),
      sf_other = (\<not> retransmits_is_empty (sp_pending sp) s \<or> sp_ping_pending sp \<or> sp_immediate_ack_pending sp)\<rparr>"

text \<open>The counters of an ACK frame are variable-length integers, so that their sums stay below \<open>2^64\<close>.\<close>

definition detect_ecn :: "nat \<Rightarrow> ecn_counts \<Rightarrow> 'k packet_space \<Rightarrow> (string + bool) \<times> 'k packet_space" where
  "detect_ecn newly_acked ecn sp =
     (case checked_sub (ect0 ecn) (ect0 (sp_ecn_feedback sp)) of
        None \<Rightarrow> (Inl ''peer ECT(0) count regression'', sp)
      | Some ect0_increase \<Rightarrow>
     (case checked_sub (ect1 ecn) (ect1 (sp_ecn_feedback sp)) of
        None \<Rightarrow> (Inl ''peer ECT(1) count regression'', sp)
      | Some ect1_increase \<Rightarrow>
     (case checked_sub (ce ecn) (ce (sp_ecn_feedback sp)) of
        None \<Rightarrow> (Inl ''peer CE count regression'', sp)
      | Some ce_increase \<Rightarrow>
          if ect0_increase + ect1_increase + ce_increase < newly_acked then (Inl ''ECN bleaching'', sp)
          else if ect0_increase + ce_increase < newly_acked \<or> ect1_increase \<noteq> 0 then (Inl ''ECN corruption'', sp)
          else (Inr (ce_increase \<noteq> 0), sp\<lparr>sp_ecn_feedback := ecn\<rparr>))))"

definition space_take :: "nat \<Rightarrow> 'k packet_space \<Rightarrow> (sent_packet option \<times> 'k packet_space) option" where
  "space_take number sp =
     (case map_of (sp_sent_packets sp) number of
        None \<Rightarrow> Some (None, sp)
      | Some packet \<Rightarrow>
          let sp1 = sp\<lparr>sp_sent_packets := bm_remove number (sp_sent_packets sp)\<rparr> in
          if \<not> sk_ack_eliciting packet \<and> sp_largest_ack_eliciting_sent sp < number then
            map_option (\<lambda>t. (Some packet, sp1\<lparr>sp_unacked_non_ack_eliciting_tail := t\<rparr>))
              (checked_sub (sp_unacked_non_ack_eliciting_tail sp) 1)
          else Some (Some packet, sp1))"

definition MAX_UNACKED_NON_ACK_ELICTING_TAIL :: nat where
  "MAX_UNACKED_NON_ACK_ELICTING_TAIL = 1000"

definition space_sent :: "nat \<Rightarrow> sent_packet \<Rightarrow> 'k packet_space \<Rightarrow> (sent_packet option \<times> 'k packet_space) option" where
  "space_sent number packet sp =
     map_option (\<lambda>(forgotten, sp1). (forgotten, sp1\<lparr>sp_sent_packets := bm_insert number packet (sp_sent_packets sp1)\<rparr>))
       (if sk_ack_eliciting packet then
          Some (None, sp\<lparr>sp_unacked_non_ack_eliciting_tail := 0, sp_largest_ack_eliciting_sent := number\<rparr>)
        else if MAX_UNACKED_NON_ACK_ELICTING_TAIL < sp_unacked_non_ack_eliciting_tail sp then
          (case bm_after (sp_largest_ack_eliciting_sent sp) (sp_sent_packets sp) of
             None \<Rightarrow> None
           | Some (oldest, p) \<Rightarrow> Some (Some p, sp\<lparr>sp_sent_packets := bm_remove oldest (sp_sent_packets sp)\<rparr>))
        else Some (None, sp\<lparr>sp_unacked_non_ack_eliciting_tail := sp_unacked_non_ack_eliciting_tail sp + 1\<rparr>))"

definition has_in_flight :: "'k packet_space \<Rightarrow> bool" where
  "has_in_flight sp \<longleftrightarrow> (\<exists>e \<in> set (sp_sent_packets sp). sk_size (snd e) \<noteq> 0)"

section \<open>Skipped packet numbers\<close>

text \<open>
  \<open>draw lo hi\<close> is \<open>rng.random_range(lo..hi)\<close>, which panics on an empty range and otherwise yields a number of it.
\<close>

record pn_filter =
  pf_next_skipped_packet_number :: nat
  pf_prev_skipped_packet_number :: "nat option"
  pf_exponent :: nat

definition saturating_pow2 :: "nat \<Rightarrow> nat" where
  "saturating_pow2 e = (if e < 64 then 2 ^ e else u64_max)"

definition random_range :: "(nat \<Rightarrow> nat \<Rightarrow> nat) \<Rightarrow> nat \<Rightarrow> nat \<Rightarrow> nat option" where
  "random_range draw lo hi = (if lo < hi then Some (draw lo hi) else None)"

definition pf_new :: "(nat \<Rightarrow> nat \<Rightarrow> nat) \<Rightarrow> pn_filter option" where
  "pf_new draw = map_option (\<lambda>n. \<lparr>pf_next_skipped_packet_number = n, pf_prev_skipped_packet_number = None, pf_exponent = 6\<rparr>)
     (random_range draw 0 (saturating_pow2 6))"

definition pf_peek :: "'k packet_space \<Rightarrow> pn_filter \<Rightarrow> nat" where
  "pf_peek sp f = (let n = sp_next_packet_number sp in if n \<noteq> pf_next_skipped_packet_number f then n else n + 1)"

definition pf_allocate ::
    "(nat \<Rightarrow> nat \<Rightarrow> nat) \<Rightarrow> 'k packet_space \<Rightarrow> pn_filter \<Rightarrow> (nat \<times> 'k packet_space \<times> pn_filter) option" where
  "pf_allocate draw sp f =
     (case get_tx_number sp of
        None \<Rightarrow> None
      | Some (n, sp1) \<Rightarrow>
          if n \<noteq> pf_next_skipped_packet_number f then Some (n, sp1, f)
          else
            let next_exponent = min (pf_exponent f + 1) u32_max in
            (case random_range draw (saturating_pow2 (pf_exponent f)) (saturating_pow2 next_exponent) of
               None \<Rightarrow> None
             | Some r \<Rightarrow>
                 map_option (\<lambda>(m, sp2). (m, sp2, \<lparr>pf_next_skipped_packet_number = r, pf_prev_skipped_packet_number = Some n,
                     pf_exponent = next_exponent\<rparr>))
                   (get_tx_number sp1)))"

definition pf_check_ack :: "space_id \<Rightarrow> nat \<Rightarrow> nat \<Rightarrow> pn_filter \<Rightarrow> transport_error + unit" where
  "pf_check_ack space lo hi f =
     (if space = SData \<and> (case pf_prev_skipped_packet_number f of None \<Rightarrow> False | Some x \<Rightarrow> lo \<le> x \<and> x \<le> hi)
      then Inl (te_new PROTOCOL_VIOLATION ''unsent packet acked'') else Inr ())"

section \<open>Packets in flight\<close>

text \<open>
  The life of a space: numbers are drawn in order, a packet is recorded under the number drawn for it, and
  packets are taken out when they are acknowledged, lost or abandoned.
\<close>

inductive tracked :: "'k packet_space \<Rightarrow> bool" where
  new: "tracked (space_new now)"
| skip: "tracked sp \<Longrightarrow> get_tx_number sp = Some (n, sp1) \<Longrightarrow> tracked sp1"
| sent: "tracked sp \<Longrightarrow> get_tx_number sp = Some (n, sp1) \<Longrightarrow> space_sent n p sp1 = Some (f, sp2) \<Longrightarrow> tracked sp2"
| taken: "tracked sp \<Longrightarrow> space_take n sp = Some (r, sp1) \<Longrightarrow> tracked sp1"

text \<open>
  The entries above the last packet that elicits an acknowledgement, and what ties them to their counter: it may
  be one too large, for a first packet with number 0 is counted but does not lie above the initial value 0.
\<close>

definition tail_of :: "nat \<Rightarrow> (nat \<times> sent_packet) list \<Rightarrow> (nat \<times> sent_packet) list" where
  "tail_of l m = filter (\<lambda>e. l < fst e) m"

definition tail_packets :: "'k packet_space \<Rightarrow> (nat \<times> sent_packet) list" where
  "tail_packets sp = tail_of (sp_largest_ack_eliciting_sent sp) (sp_sent_packets sp)"

definition flight_inv :: "(nat \<times> sent_packet) list \<Rightarrow> nat \<Rightarrow> nat \<Rightarrow> nat \<Rightarrow> bool" where
  "flight_inv m l t N \<longleftrightarrow> bm_ok m \<and> (\<forall>e \<in> set m. fst e < N) \<and> (l = 0 \<or> l < N) \<and> (N = 0 \<longrightarrow> t = 0) \<and>
     (\<forall>e \<in> set (tail_of l m). \<not> sk_ack_eliciting (snd e)) \<and>
     length (tail_of l m) \<le> t \<and> t \<le> length (tail_of l m) + 1 \<and> t \<le> 1001"

definition sp_inv :: "'k packet_space \<Rightarrow> bool" where
  "sp_inv sp \<longleftrightarrow> flight_inv (sp_sent_packets sp) (sp_largest_ack_eliciting_sent sp)
     (sp_unacked_non_ack_eliciting_tail sp) (sp_next_packet_number sp)"

lemma flight_inv_skip: "flight_inv m l t N \<Longrightarrow> flight_inv m l t (N + 1)"
  by (fastforce simp: flight_inv_def)

lemma tail_of_append [simp]: "tail_of l (a @ b) = tail_of l a @ tail_of l b"
  by (simp add: tail_of_def)

lemma tail_of_Cons [simp]: "tail_of l (e # b) = (if l < fst e then e # tail_of l b else tail_of l b)"
  by (simp add: tail_of_def)

lemma tail_of_Nil [simp]: "tail_of l [] = []"
  by (simp add: tail_of_def)

lemma flight_inv_remove:
  assumes "flight_inv m l t N" "map_of m n = Some p"
  shows "flight_inv (bm_remove n m) l (if l < n then t - 1 else t) N" "l < n \<Longrightarrow> \<not> sk_ack_eliciting p \<and> 0 < t"
proof -
  have ok: "bm_ok m" using assms(1) by (simp add: flight_inv_def)
  obtain a b where ab: "m = a @ (n, p) # b" "bm_remove n m = a @ b" using bm_remove_split [OF ok assms(2)] by blast
  have "bm_ok (a @ b)" using bm_remove_ok [OF ok, of n] ab(2) by simp
  then show "flight_inv (bm_remove n m) l (if l < n then t - 1 else t) N"
    using assms(1) unfolding ab(2) unfolding ab(1) flight_inv_def by (auto split: if_splits)
  show "l < n \<Longrightarrow> \<not> sk_ack_eliciting p \<and> 0 < t" using assms(1) unfolding ab(1) flight_inv_def by simp
qed

lemma flight_inv_push:
  assumes "flight_inv m l t n"
  shows "bm_insert n p m = m @ [(n, p)]" "map_of (m @ [(n, p)]) n = Some p"
    "sk_ack_eliciting p \<Longrightarrow> flight_inv (m @ [(n, p)]) n 0 (n + 1)"
    "\<not> sk_ack_eliciting p \<Longrightarrow> t \<le> 1000 \<Longrightarrow> flight_inv (m @ [(n, p)]) l (t + 1) (n + 1)"
proof -
  have ok: "bm_ok m" and new: "\<forall>e \<in> set m. fst e < n" using assms by (simp_all add: flight_inv_def)
  show ins: "bm_insert n p m = m @ [(n, p)]" by (rule bm_insert_last [OF new])
  show "map_of (m @ [(n, p)]) n = Some p" using bm_insert_lookup [OF ok, of n p] ins by simp
  have okn: "bm_ok (m @ [(n, p)])" using bm_insert_ok [OF ok, of n p] ins by simp
  have "tail_of n m = []" using new by (fastforce simp: tail_of_def filter_empty_conv)
  then show "flight_inv (m @ [(n, p)]) n 0 (n + 1)" if "sk_ack_eliciting p"
    using okn new that by (auto simp: flight_inv_def less_Suc_eq)
  show "flight_inv (m @ [(n, p)]) l (t + 1) (n + 1)" if "\<not> sk_ack_eliciting p" "t \<le> 1000"
    using okn new that assms by (auto simp: flight_inv_def less_Suc_eq)
qed

text \<open>With the counter at its limit there is a packet to forget, and it does not elicit an acknowledgement.\<close>

lemma flight_inv_forget:
  assumes "flight_inv m l t N" "1000 < t"
  obtains k x where "bm_after l m = Some (k, x)" "map_of m k = Some x" "l < k" "flight_inv (bm_remove k m) l 1000 N"
    "\<not> sk_ack_eliciting x" "t = 1001"
proof -
  have "tail_of l m \<noteq> []" using assms by (auto simp: flight_inv_def)
  then obtain k x where kx: "bm_after l m = Some (k, x)"
    by (cases "bm_after l m") (auto simp: bm_after_def find_None_iff tail_of_def filter_empty_conv)
  then have x: "(k, x) \<in> set m" "l < k" using bm_after_SomeD [OF kx] by simp_all
  then have look: "map_of m k = Some x" using assms(1) by (simp add: flight_inv_def bm_lookup_iff)
  have t: "t = 1001" using assms by (auto simp: flight_inv_def)
  show ?thesis using that [OF kx look x(2)] flight_inv_remove [OF assms(1) look] x(2) t by simp
qed

lemma space_new_inv: "sp_inv (space_new now)"
  by (simp add: sp_inv_def flight_inv_def space_new_def)

lemma get_tx_number_inv: "sp_inv sp \<Longrightarrow> get_tx_number sp = Some (n, sp1) \<Longrightarrow> sp_inv sp1"
  using flight_inv_skip by (auto simp: sp_inv_def get_tx_number_def split: if_splits)

lemma space_take_inv:
  assumes "sp_inv sp"
  shows "case space_take n sp of None \<Rightarrow> False | Some (r, sp1) \<Rightarrow> r = map_of (sp_sent_packets sp) n \<and> sp_inv sp1 \<and>
    sp_sent_packets sp1 = bm_remove n (sp_sent_packets sp)"
proof (cases "map_of (sp_sent_packets sp) n")
  case None
  then have "bm_remove n (sp_sent_packets sp) = sp_sent_packets sp"
    by (auto simp: bm_remove_def map_of_eq_None_iff filter_id_conv)
  with None assms show ?thesis by (simp add: space_take_def)
next
  case (Some p)
  show ?thesis using flight_inv_remove [OF assms [unfolded sp_inv_def] Some] Some
    by (cases "sp_largest_ack_eliciting_sent sp < n") (simp_all add: space_take_def sp_inv_def checked_sub_def Let_def)
qed

lemma space_sent_inv:
  assumes "sp_inv sp" "get_tx_number sp = Some (n, sp1)"
  shows "case space_sent n p sp1 of None \<Rightarrow> False | Some (f, sp2) \<Rightarrow> sp_inv sp2 \<and>
    map_of (sp_sent_packets sp2) n = Some p \<and> (\<forall>x. f = Some x \<longrightarrow> \<not> sk_ack_eliciting x)"
proof -
  let ?l = "sp_largest_ack_eliciting_sent sp1" and ?m = "sp_sent_packets sp1" and ?t = "sp_unacked_non_ack_eliciting_tail sp1"
  have inv: "flight_inv ?m ?l ?t n" and N: "sp_next_packet_number sp1 = n + 1"
    using assms by (auto simp: sp_inv_def get_tx_number_def split: if_splits)
  note push = flight_inv_push [OF inv, of p]
  show ?thesis
  proof (cases "\<not> sk_ack_eliciting p \<and> 1000 < ?t")
    case True
    then obtain k x where kx: "bm_after ?l ?m = Some (k, x)" "flight_inv (bm_remove k ?m) ?l 1000 n"
        "\<not> sk_ack_eliciting x" "?t = 1001"
      using flight_inv_forget [OF inv] by blast
    then show ?thesis using True flight_inv_push [OF kx(2), of p] N
      by (simp add: space_sent_def sp_inv_def MAX_UNACKED_NON_ACK_ELICTING_TAIL_def)
  next
    case False
    then show ?thesis using push N
      by (cases "sk_ack_eliciting p") (simp_all add: space_sent_def sp_inv_def MAX_UNACKED_NON_ACK_ELICTING_TAIL_def)
  qed
qed

lemma tracked_inv: "tracked sp \<Longrightarrow> sp_inv sp"
proof (induction rule: tracked.induct)
  case (sent sp n sp1 p f sp2)
  then show ?case using space_sent_inv [of sp n sp1 p] by simp
next
  case (taken sp n r sp1)
  then show ?case using space_take_inv [of sp n] by simp
qed (auto intro: space_new_inv get_tx_number_inv)


definition example_packet :: "bool \<Rightarrow> sent_packet" where
  "example_packet elicits = \<lparr>sk_path_generation = 0, sk_time_sent = 7, sk_size = 1200, sk_ack_eliciting = elicits,
     sk_largest_acked = None, sk_retransmits = None, sk_stream_frames = []\<rparr>"


section \<open>Packet numbers that are skipped\<close>

fun pf_run :: "(nat \<Rightarrow> nat \<Rightarrow> nat) \<Rightarrow> nat \<Rightarrow> 'k packet_space \<Rightarrow> pn_filter \<Rightarrow> (nat list \<times> 'k packet_space \<times> pn_filter) option" where
  "pf_run draw 0 sp f = Some ([], sp, f)"
| "pf_run draw (Suc k) sp f =
     (case pf_allocate draw sp f of
        None \<Rightarrow> None
      | Some (n, sp1, f1) \<Rightarrow> map_option (\<lambda>(ns, r). (n # ns, r)) (pf_run draw k sp1 f1))"

definition unsent_skip :: "nat set \<Rightarrow> nat \<Rightarrow> pn_filter \<Rightarrow> bool" where
  "unsent_skip A N f \<longleftrightarrow> (\<forall>a \<in> A. a < N) \<and> (\<forall>x. pf_prev_skipped_packet_number f = Some x \<longrightarrow> x < N \<and> x \<notin> A)"

lemma pf_allocate_unsent:
  assumes "pf_allocate draw sp f = Some (n, sp1, f1)" "unsent_skip A (sp_next_packet_number sp) f"
  shows "unsent_skip (insert n A) (sp_next_packet_number sp1) f1" "sp_next_packet_number sp \<le> n" "n < sp_next_packet_number sp1"
    "n = pf_peek sp f"
  using assms
  by (auto simp: pf_allocate_def get_tx_number_def unsent_skip_def pf_peek_def Let_def less_Suc_eq split: if_splits option.splits)

lemma pf_run_unsent:
  "pf_run draw k sp f = Some (ns, sp', f') \<Longrightarrow> unsent_skip A (sp_next_packet_number sp) f \<Longrightarrow>
    unsent_skip (A \<union> set ns) (sp_next_packet_number sp') f' \<and> sorted_wrt (<) ns \<and> (\<forall>n \<in> set ns. sp_next_packet_number sp \<le> n)"
proof (induction k arbitrary: sp f ns A)
  case (Suc k)
  then obtain n sp1 f1 ns' where step: "pf_allocate draw sp f = Some (n, sp1, f1)" "pf_run draw k sp1 f1 = Some (ns', sp', f')" "ns = n # ns'"
    by (auto split: option.splits)
  have a: "unsent_skip (insert n A) (sp_next_packet_number sp1) f1" "sp_next_packet_number sp \<le> n" "n < sp_next_packet_number sp1"
    using pf_allocate_unsent [OF step(1) Suc.prems(2)] by auto
  have "unsent_skip (insert n A \<union> set ns') (sp_next_packet_number sp') f' \<and> sorted_wrt (<) ns' \<and> (\<forall>n \<in> set ns'. sp_next_packet_number sp1 \<le> n)"
    using Suc.IH [OF step(2) a(1)] .
  then show ?case using a(2,3) step(3) by fastforce
qed simp

text \<open>
  C17: Optimistic acknowledgements are recognised and honest ones are not mistaken for them. The packet numbers
  handed out increase, \<open>peek\<close> foretells the next one, an ACK range whose numbers were all handed out passes
  \<open>check_ack\<close>, and one that covers the number skipped last, which was never handed out, is a protocol violation.
\<close>

theorem skipped_numbers_detected:
  assumes "pf_new draw = Some f" "pf_run draw k (space_new now) f = Some (ns, sp', f')"
  shows "sorted_wrt (<) ns \<and> ({lo..hi} \<subseteq> set ns \<longrightarrow> pf_check_ack SData lo hi f' = Inr ()) \<and>
    (\<forall>x. pf_prev_skipped_packet_number f' = Some x \<longrightarrow> x \<notin> set ns \<and> (lo \<le> x \<longrightarrow> x \<le> hi \<longrightarrow>
       pf_check_ack SData lo hi f' = Inl (te_new PROTOCOL_VIOLATION ''unsent packet acked''))) \<and>
    (\<forall>n sp2 f2. pf_allocate draw sp' f' = Some (n, sp2, f2) \<longrightarrow> n = pf_peek sp' f' \<and> (\<forall>m \<in> set ns. m < n))"
proof -
  have "unsent_skip {} (sp_next_packet_number (space_new now)) f"
    using assms(1) by (auto simp: unsent_skip_def pf_new_def random_range_def split: if_splits)
  from pf_run_unsent [OF assms(2) this]
  have u: "unsent_skip (set ns) (sp_next_packet_number sp') f'" and s: "sorted_wrt (<) ns" by auto
  have "n = pf_peek sp' f' \<and> (\<forall>m \<in> set ns. m < n)" if "pf_allocate draw sp' f' = Some (n, sp2, f2)" for n sp2 f2
    using pf_allocate_unsent [OF that u] u by (fastforce simp: unsent_skip_def)
  then show ?thesis using s u by (auto simp: pf_check_ack_def unsent_skip_def split: option.splits)
qed

definition example_draw :: "nat \<Rightarrow> nat \<Rightarrow> nat" where
  "example_draw lo hi = (if lo = 0 then 1 else lo)"

lemma example_run:
  "\<exists>sp' f'. pf_run example_draw 3 (space_new 0 :: unit packet_space) \<lparr>pf_next_skipped_packet_number = 1,
     pf_prev_skipped_packet_number = None, pf_exponent = 6\<rparr> = Some ([0, 2, 3], sp', f') \<and> pf_prev_skipped_packet_number f' = Some 1"
  by (simp add: numeral_3_eq_3 pf_allocate_def get_tx_number_def space_new_def random_range_def saturating_pow2_def
      example_draw_def Let_def)

theorem skipped_numbers_detected_witness:
  "\<exists>sp' f'. pf_run example_draw 3 (space_new 0 :: unit packet_space) \<lparr>pf_next_skipped_packet_number = 1,
     pf_prev_skipped_packet_number = None, pf_exponent = 6\<rparr> = Some ([0, 2, 3], sp', f') \<and>
     pf_check_ack SData 2 3 f' = Inr () \<and> pf_check_ack SData 0 3 f' = Inl (te_new PROTOCOL_VIOLATION ''unsent packet acked'')"
proof -
  have new: "pf_new example_draw = Some \<lparr>pf_next_skipped_packet_number = 1, pf_prev_skipped_packet_number = None, pf_exponent = 6\<rparr>"
    by (simp add: pf_new_def random_range_def saturating_pow2_def example_draw_def)
  obtain sp' f' where run: "pf_run example_draw 3 (space_new 0 :: unit packet_space) \<lparr>pf_next_skipped_packet_number = 1,
     pf_prev_skipped_packet_number = None, pf_exponent = 6\<rparr> = Some ([0, 2, 3], sp', f')" and x: "pf_prev_skipped_packet_number f' = Some 1"
    using example_run by blast
  have "{2..3} \<subseteq> set [0, 2, 3::nat]" by auto
  then show ?thesis using skipped_numbers_detected [OF new run, of 2 3] skipped_numbers_detected [OF new run, of 0 3] run x by auto
qed

text \<open>
  Once the number to skip lies behind, nothing is skipped any more. It falls behind when the number drawn is the
  one \<open>allocate\<close> hands out in place of the number it skips: the second draw of the number is not compared with it.
\<close>

lemma pf_run_behind:
  "pf_next_skipped_packet_number f < sp_next_packet_number sp \<Longrightarrow> pf_run draw k sp f = Some (ns, sp', f') \<Longrightarrow> f' = f"
proof (induction k arbitrary: sp ns)
  case (Suc k)
  let ?sp = "sp\<lparr>sp_next_packet_number := sp_next_packet_number sp + 1, sp_sent_with_keys := sp_sent_with_keys sp + 1\<rparr>"
  obtain ms where "pf_run draw k ?sp f = Some (ms, sp', f')"
    using Suc.prems by (auto simp: pf_allocate_def get_tx_number_def split: option.splits if_splits)
  then show ?case using Suc.IH [of ?sp] Suc.prems(1) by simp
qed simp

lemma pf_run_before:
  "sp_next_packet_number sp + k \<le> pf_next_skipped_packet_number f \<Longrightarrow> pf_next_skipped_packet_number f < 2 ^ 62 \<Longrightarrow>
    \<exists>ns. pf_run draw k sp f = Some (ns, sp\<lparr>sp_next_packet_number := sp_next_packet_number sp + k,
      sp_sent_with_keys := sp_sent_with_keys sp + k\<rparr>, f)"
proof (induction k arbitrary: sp)
  case (Suc k)
  let ?sp = "sp\<lparr>sp_next_packet_number := sp_next_packet_number sp + 1, sp_sent_with_keys := sp_sent_with_keys sp + 1\<rparr>"
  have "pf_allocate draw sp f = Some (sp_next_packet_number sp, ?sp, f)"
    using Suc.prems by (simp add: pf_allocate_def get_tx_number_def)
  moreover obtain ns where "pf_run draw k ?sp f = Some (ns, ?sp\<lparr>sp_next_packet_number := sp_next_packet_number ?sp + k,
      sp_sent_with_keys := sp_sent_with_keys ?sp + k\<rparr>, f)"
    using Suc.IH [of ?sp] Suc.prems by auto
  ultimately show ?case by simp
qed simp

lemma pf_run_add:
  "pf_run draw (j + k) sp f = Option.bind (pf_run draw j sp f)
     (\<lambda>(ns, sp1, f1). map_option (\<lambda>(ms, r). (ns @ ms, r)) (pf_run draw k sp1 f1))"
  by (induction j arbitrary: sp f) (auto split: option.splits bind_splits simp: option.map_comp comp_def split_def option.map_ident)

lemma first_skip:
  assumes "draw 0 64 = 63" "draw 64 128 = 64" "pf_new draw = Some f"
  shows "\<exists>ms. pf_run draw 64 (space_new now :: 'k packet_space) f = Some (ms @ [64], (space_new now)\<lparr>sp_next_packet_number := 65, sp_sent_with_keys := 65\<rparr>,
    \<lparr>pf_next_skipped_packet_number = 64, pf_prev_skipped_packet_number = Some 63, pf_exponent = 7\<rparr>)"
proof -
  let ?sp = "space_new now :: 'k packet_space"
  let ?g = "\<lparr>pf_next_skipped_packet_number = 64, pf_prev_skipped_packet_number = Some 63, pf_exponent = 7\<rparr>"
  have f: "f = \<lparr>pf_next_skipped_packet_number = 63, pf_prev_skipped_packet_number = None, pf_exponent = 6\<rparr>"
    using assms(1,3) by (auto simp: pf_new_def random_range_def saturating_pow2_def)
  obtain ms where ms: "pf_run draw 63 ?sp f = Some (ms, ?sp\<lparr>sp_next_packet_number := 63, sp_sent_with_keys := 63\<rparr>, f)"
    using pf_run_before [of ?sp 63 f draw] by (auto simp: f space_new_def)
  have "pf_run draw 1 (?sp\<lparr>sp_next_packet_number := 63, sp_sent_with_keys := 63\<rparr>) f =
      Some ([64], ?sp\<lparr>sp_next_packet_number := 65, sp_sent_with_keys := 65\<rparr>, ?g)"
    using assms(2) by (simp add: pf_allocate_def get_tx_number_def f random_range_def saturating_pow2_def Let_def)
  then have "pf_run draw (63 + 1) ?sp f = Some (ms @ [64], ?sp\<lparr>sp_next_packet_number := 65, sp_sent_with_keys := 65\<rparr>, ?g)"
    by (simp only: pf_run_add ms Option.bind_eq_Some_conv) simp
  then show ?thesis by auto
qed

text \<open>
  Skipping can stop for good. The first number skipped is drawn below 64 and the second from 64 up. When 63 is
  drawn and then 64, \<open>allocate\<close> skips 63 and hands out 64 at once, without comparing it with the number just
  drawn: from then on no packet number is ever skipped, however many are handed out, and optimistic
  acknowledgements go undetected.
\<close>

theorem skipping_stops:
  assumes "draw 0 64 = 63" "draw 64 128 = 64" "pf_new draw = Some f"
    "pf_run draw (64 + k) (space_new now :: 'k packet_space) f = Some (ns, sp', f')"
  shows "64 \<in> set ns \<and> f' = \<lparr>pf_next_skipped_packet_number = 64, pf_prev_skipped_packet_number = Some 63, pf_exponent = 7\<rparr>"
proof -
  let ?g = "\<lparr>pf_next_skipped_packet_number = 64, pf_prev_skipped_packet_number = Some 63, pf_exponent = 7\<rparr>"
  let ?sp = "(space_new now :: 'k packet_space)\<lparr>sp_next_packet_number := 65, sp_sent_with_keys := 65\<rparr>"
  obtain ms where "pf_run draw 64 (space_new now :: 'k packet_space) f = Some (ms @ [64], ?sp, ?g)" using first_skip [OF assms(1-3)] by blast
  then obtain ms' where "ns = ms @ [64] @ ms'" "pf_run draw k ?sp ?g = Some (ms', sp', f')"
    using assms(4) pf_run_add [of draw 64 k "space_new now :: 'k packet_space" f] by auto
  then show ?thesis using pf_run_behind [of ?g ?sp draw k] by auto
qed

definition unlucky_draw :: "nat \<Rightarrow> nat \<Rightarrow> nat" where
  "unlucky_draw lo hi = (if lo = 0 then hi - 1 else lo)"

theorem skipping_stops_witness:
  "\<exists>f ns sp' f'. pf_new unlucky_draw = Some f \<and>
     pf_run unlucky_draw (64 + 0) (space_new 0 :: unit packet_space) f = Some (ns, sp', f') \<and> 64 \<in> set ns \<and> pf_next_skipped_packet_number f' = 64"
proof -
  have draw: "unlucky_draw 0 64 = 63" "unlucky_draw 64 128 = 64" by (simp_all add: unlucky_draw_def)
  obtain f where f: "pf_new unlucky_draw = Some f" by (simp add: pf_new_def random_range_def saturating_pow2_def)
  obtain ns sp' f' where run: "pf_run unlucky_draw (64 + 0) (space_new 0 :: unit packet_space) f = Some (ns, sp', f')"
    using first_skip [OF draw f, where now = 0 and 'k = unit] by auto
  show ?thesis using f run skipping_stops [OF draw f run] by auto
qed

section \<open>Acknowledgements owed to the peer\<close>

datatype ack_event =
    AckInsert nat nat
  | AckReceived nat nat bool dedup
  | AckSubtract nat
  | AckSent
  | AckTimeout
  | AckFrequencyParams ack_frequency_frame
  | AckImmediate
  | AckLazy

fun ack_step :: "pending_acks \<Rightarrow> ack_event \<Rightarrow> pending_acks" where
  "ack_step p (AckInsert packet now) = pa_insert_one packet now p"
| "ack_step p (AckReceived now packet eliciting d) = snd (pa_packet_received now packet eliciting d p)"
| "ack_step p (AckSubtract mx) = subtract_below mx p"
| "ack_step p AckSent = acks_sent p"
| "ack_step p AckTimeout = on_max_ack_delay_timeout p"
| "ack_step p (AckFrequencyParams frame) = set_ack_frequency_params frame p"
| "ack_step p AckImmediate = set_immediate_ack_required p"
| "ack_step p AckLazy = maybe_ack_non_eliciting p"

fun inserted :: "ack_event list \<Rightarrow> nat set" where
  "inserted [] = {}"
| "inserted (AckInsert packet now # es) = insert packet (inserted es)"
| "inserted (_ # es) = inserted es"

definition pa_inv :: "nat set \<Rightarrow> pending_acks \<Rightarrow> bool" where
  "pa_inv R p \<longleftrightarrow> rs_inv (pa_ranges p) \<and> rs_set (pa_ranges p) \<subseteq> R \<and> length (pa_ranges p) \<le> MAX_ACK_BLOCKS \<and>
     (0 < pa_ack_eliciting_since_last_ack_sent p \<longrightarrow>
        pa_immediate_ack_required p \<or> pa_earliest_ack_eliciting_since_last_ack_sent p \<noteq> None)"

lemma ars_merge_length: "length (ars_merge x rs) \<le> Suc (length rs)"
  by (induction x rs rule: ars_merge.induct) auto

lemma ars_insert_length: "length (fst (ars_insert x rs)) \<le> Suc (length rs)"
proof -
  have "length (fst (ars_insert_loop x b rs)) \<le> Suc (length rs)" for b
    by (induction rs arbitrary: b; cases x) (auto simp: ars_insert_loop.simps Let_def split_def intro: le_SucI [OF ars_merge_length])
  then show ?thesis by (simp add: ars_insert_def)
qed

lemma pa_inv_mono: "pa_inv R p \<Longrightarrow> R \<subseteq> S \<Longrightarrow> pa_inv S p"
  by (auto simp: pa_inv_def)

lemma pop_min_inv:
  assumes "rs_inv rs" "rs \<noteq> []"
  shows "rs_inv (snd (ars_pop_min rs))" "rs_set (snd (ars_pop_min rs)) \<subseteq> rs_set rs" "length (snd (ars_pop_min rs)) = length rs - 1"
  using assms by (cases rs; force simp: ars_pop_min_def)+

lemma pa_insert_one_inv:
  assumes "pa_inv R p" "packet < 2 ^ 62"
  shows "pa_inv (insert packet R) (pa_insert_one packet now p)"
proof -
  let ?rs = "fst (ars_insert_one packet (pa_ranges p))"
  have "wrapping_add packet 1 = packet + 1" using assms(2) by simp
  then have rs: "rs_inv ?rs" "rs_set ?rs = insert packet (rs_set (pa_ranges p))" "length ?rs \<le> 65"
    using assms(1) ars_insert_length [of "(packet, packet + 1)" "pa_ranges p"]
    by (auto simp: ars_insert_one_def pa_inv_def ars.insert_inv ars.insert_set MAX_ACK_BLOCKS_def)
  have rs': "rs_inv (snd (ars_pop_min ?rs))" "rs_set (snd (ars_pop_min ?rs)) \<subseteq> insert packet (rs_set (pa_ranges p))"
      "length (snd (ars_pop_min ?rs)) \<le> 64" if "64 < length ?rs"
    using pop_min_inv [OF rs(1)] rs that by fastforce+
  show ?thesis using assms(1) rs rs'
    by (auto simp: pa_insert_one_def pa_inv_def MAX_ACK_BLOCKS_def Let_def split: option.splits)
qed

lemma pa_packet_received_inv: "pa_inv R p \<Longrightarrow> pa_inv R (snd (pa_packet_received now packet eliciting d p))"
  by (auto simp: pa_packet_received_def pa_inv_def acks_can_send_def Let_def)

lemma ars_remove_below_length: "length (fst (ars_remove (0, e) rs)) \<le> length rs"
proof -
  have "length (fst (ars_remove_loop (0, e) b rs)) \<le> length rs" for b
  proof (induction rs arbitrary: b)
    case (Cons r rs)
    show ?case by (cases r) (auto simp: ars_remove_loop.simps Let_def split_def intro: Cons.IH le_SucI [OF Cons.IH])
  qed (simp add: ars_remove_loop.simps)
  then show ?thesis by (simp add: ars_remove_def)
qed

lemma ack_step_inv:
  assumes "pa_inv R p" "inserted [e] \<subseteq> {..<2 ^ 62}"
  shows "pa_inv (R \<union> inserted [e]) (ack_step p e)"
proof (cases e)
  case (AckInsert packet now)
  then show ?thesis using assms pa_insert_one_inv by auto
next
  case (AckReceived now packet eliciting d)
  then show ?thesis using assms pa_packet_received_inv by simp
next
  case (AckSubtract mx)
  moreover have "rs_inv (fst (ars_remove (0, mx + 1) (pa_ranges p)))" "rs_set (fst (ars_remove (0, mx + 1) (pa_ranges p))) \<subseteq> R"
      "length (fst (ars_remove (0, mx + 1) (pa_ranges p))) \<le> MAX_ACK_BLOCKS"
    using assms(1) ars_remove_below_length [of "mx + 1" "pa_ranges p"] by (auto simp: pa_inv_def ars.remove_inv ars.remove_set)
  ultimately show ?thesis using assms(1) by (simp add: subtract_below_def pa_inv_def)
qed (use assms in \<open>auto simp: pa_inv_def acks_sent_def on_max_ack_delay_timeout_def set_ack_frequency_params_def
    set_immediate_ack_required_def maybe_ack_non_eliciting_def\<close>)

lemma inserted_Cons: "inserted (e # es) = inserted [e] \<union> inserted es"
  by (cases e) auto

lemma ack_steps_inv:
  "pa_inv R p \<Longrightarrow> inserted es \<subseteq> {..<2 ^ 62} \<Longrightarrow> pa_inv (R \<union> inserted es) (foldl ack_step p es)"
proof (induction es arbitrary: R p)
  case (Cons e es)
  have "pa_inv (R \<union> inserted [e]) (ack_step p e)" "inserted es \<subseteq> {..<2 ^ 62}"
    using ack_step_inv [OF Cons.prems(1)] Cons.prems(2) inserted_Cons [of e es] by auto
  then show ?case using Cons.IH inserted_Cons [of e es] by (metis Un_assoc foldl_Cons)
qed simp



section \<open>Probes\<close>

lemma id_insert_set: "set (foldl (\<lambda>ids i. id_insert i ids) ids is) = set ids \<union> set is"
  by (induction "is" arbitrary: ids) (auto simp: id_insert_def)

lemma retransmits_or_empty:
  "retransmits_is_empty (retransmits_or r t) s \<longleftrightarrow> retransmits_is_empty r s \<and> retransmits_is_empty t s"
  by (auto simp: retransmits_is_empty_def retransmits_or_def id_insert_set)

lemma take_oldest_nonempty: "take_oldest_retransmits s ps = Some (t, ps') \<Longrightarrow> \<not> thin_is_empty t s"
  by (induction s ps arbitrary: t ps' rule: take_oldest_retransmits.induct) (auto split: if_splits)



end
