(* ===== verification/Congestion.thy ===== *)
theory Congestion
  imports Quic_Prelude
begin

text \<open>
  The round-trip estimate of \<open>connection/paths.rs\<close>, the controller interface of \<open>congestion.rs\<close>, the NewReno
  controller of \<open>congestion/new_reno.rs\<close> and the bandwidth estimate of \<open>congestion/bbr\<close>. Times and durations are
  natural numbers of nanoseconds, byte counts are natural numbers, and the one product of floating point
  numbers is a parameter.
\<close>

section \<open>Round-trip time\<close>

definition TIMER_GRANULARITY :: nat where "TIMER_GRANULARITY = 1000000"

record rtt_estimator =
  re_latest :: nat
  re_smoothed :: "nat option"
  re_var :: nat
  re_min :: nat

definition rtt_new :: "nat \<Rightarrow> rtt_estimator" where
  "rtt_new initial_rtt = \<lparr>re_latest = initial_rtt, re_smoothed = None, re_var = initial_rtt div 2, re_min = initial_rtt\<rparr>"

definition rtt_get :: "rtt_estimator \<Rightarrow> nat" where
  "rtt_get r = (case re_smoothed r of None \<Rightarrow> re_latest r | Some s \<Rightarrow> s)"

definition rtt_conservative :: "rtt_estimator \<Rightarrow> nat" where
  "rtt_conservative r = max (rtt_get r) (re_latest r)"

definition pto_base :: "rtt_estimator \<Rightarrow> nat" where
  "pto_base r = rtt_get r + max (4 * re_var r) TIMER_GRANULARITY"

definition abs_diff :: "nat \<Rightarrow> nat \<Rightarrow> nat" where
  "abs_diff a b = (if a < b then b - a else a - b)"

definition rtt_update :: "nat \<Rightarrow> nat \<Rightarrow> rtt_estimator \<Rightarrow> rtt_estimator" where
  "rtt_update ack_delay rtt r =
     (let mn = min (re_min r) rtt in
      case re_smoothed r of
        Some smoothed \<Rightarrow>
          let adjusted_rtt = (if mn + ack_delay \<le> rtt then rtt - ack_delay else rtt);
              var_sample = abs_diff smoothed adjusted_rtt in
          \<lparr>re_latest = rtt, re_smoothed = Some ((7 * smoothed + adjusted_rtt) div 8),
           re_var = (3 * re_var r + var_sample) div 4, re_min = mn\<rparr>
      | None \<Rightarrow> \<lparr>re_latest = rtt, re_smoothed = Some rtt, re_var = rtt div 2, re_min = rtt\<rparr>)"

section \<open>The controller interface\<close>

text \<open>
  The trait \<open>Controller\<close> and the factory that builds a controller, as the record of their methods on a state of
  type \<open>'c\<close>. The methods that copy or inspect a controller are left out.
\<close>

record 'c controller =
  ctl_build :: "nat \<Rightarrow> nat \<Rightarrow> 'c"
  ctl_on_sent :: "nat \<Rightarrow> nat \<Rightarrow> nat \<Rightarrow> 'c \<Rightarrow> 'c"
  ctl_on_ack :: "nat \<Rightarrow> nat \<Rightarrow> nat \<Rightarrow> bool \<Rightarrow> rtt_estimator \<Rightarrow> 'c \<Rightarrow> 'c"
  ctl_on_end_acks :: "nat \<Rightarrow> nat \<Rightarrow> bool \<Rightarrow> nat option \<Rightarrow> 'c \<Rightarrow> 'c"
  ctl_on_congestion_event :: "nat \<Rightarrow> nat \<Rightarrow> bool \<Rightarrow> bool \<Rightarrow> nat \<Rightarrow> 'c \<Rightarrow> 'c"
  ctl_on_spurious_congestion_event :: "'c \<Rightarrow> 'c"
  ctl_on_mtu_update :: "nat \<Rightarrow> 'c \<Rightarrow> 'c"
  ctl_window :: "'c \<Rightarrow> nat"
  ctl_initial_window :: "'c \<Rightarrow> nat"

definition BASE_DATAGRAM_SIZE :: nat where "BASE_DATAGRAM_SIZE = 1200"

section \<open>NewReno\<close>

text \<open>\<open>reduce w\<close> is \<open>(w as f32 * loss_reduction_factor) as u64\<close>.\<close>

record new_reno_config =
  nr_initial_window :: nat
  nr_reduce :: "nat \<Rightarrow> nat"

definition new_reno_config_default :: "(nat \<Rightarrow> nat) \<Rightarrow> new_reno_config" where
  "new_reno_config_default halve =
     \<lparr>nr_initial_window = max (2 * BASE_DATAGRAM_SIZE) (min 14720 (10 * BASE_DATAGRAM_SIZE)), nr_reduce = halve\<rparr>"

record new_reno =
  nr_config :: new_reno_config
  nr_current_mtu :: nat
  nr_window :: nat
  nr_ssthresh :: nat
  nr_recovery_start_time :: nat
  nr_bytes_acked :: nat

definition new_reno_new :: "new_reno_config \<Rightarrow> nat \<Rightarrow> nat \<Rightarrow> new_reno" where
  "new_reno_new config now current_mtu = \<lparr>nr_config = config, nr_current_mtu = current_mtu,
     nr_window = nr_initial_window config, nr_ssthresh = u64_max, nr_recovery_start_time = now, nr_bytes_acked = 0\<rparr>"

definition nr_minimum_window :: "new_reno \<Rightarrow> nat" where
  "nr_minimum_window c = 2 * nr_current_mtu c"

definition nr_on_ack :: "nat \<Rightarrow> nat \<Rightarrow> nat \<Rightarrow> bool \<Rightarrow> rtt_estimator \<Rightarrow> new_reno \<Rightarrow> new_reno" where
  "nr_on_ack now sent bytes app_limited rtt c =
     (if app_limited \<or> sent \<le> nr_recovery_start_time c then c
      else if nr_window c < nr_ssthresh c then
        let w = nr_window c + bytes in
        if nr_ssthresh c \<le> w then c\<lparr>nr_window := w, nr_bytes_acked := w - nr_ssthresh c\<rparr> else c\<lparr>nr_window := w\<rparr>
      else
        let acked = nr_bytes_acked c + bytes in
        if nr_window c \<le> acked
        then c\<lparr>nr_bytes_acked := acked - nr_window c, nr_window := nr_window c + nr_current_mtu c\<rparr>
        else c\<lparr>nr_bytes_acked := acked\<rparr>)"

definition nr_on_congestion_event :: "nat \<Rightarrow> nat \<Rightarrow> bool \<Rightarrow> bool \<Rightarrow> nat \<Rightarrow> new_reno \<Rightarrow> new_reno" where
  "nr_on_congestion_event now sent is_persistent_congestion is_ecn lost_bytes c =
     (if sent \<le> nr_recovery_start_time c then c
      else
        let w = max (nr_reduce (nr_config c) (nr_window c)) (nr_minimum_window c) in
        c\<lparr>nr_recovery_start_time := now, nr_ssthresh := w,
          nr_window := (if is_persistent_congestion then nr_minimum_window c else w)\<rparr>)"

definition nr_on_mtu_update :: "nat \<Rightarrow> new_reno \<Rightarrow> new_reno" where
  "nr_on_mtu_update new_mtu c =
     (let c1 = c\<lparr>nr_current_mtu := new_mtu\<rparr> in c1\<lparr>nr_window := max (nr_window c1) (nr_minimum_window c1)\<rparr>)"

definition new_reno_controller :: "new_reno_config \<Rightarrow> new_reno controller" where
  "new_reno_controller config = \<lparr>ctl_build = new_reno_new config, ctl_on_sent = (\<lambda>_ _ _ c. c), ctl_on_ack = nr_on_ack,
     ctl_on_end_acks = (\<lambda>_ _ _ _ c. c), ctl_on_congestion_event = nr_on_congestion_event,
     ctl_on_spurious_congestion_event = (\<lambda>c. c), ctl_on_mtu_update = nr_on_mtu_update, ctl_window = nr_window,
     ctl_initial_window = (\<lambda>c. nr_initial_window (nr_config c))\<rparr>"

section \<open>Bandwidth estimation\<close>

record min_max_sample =
  ms_time :: nat
  ms_value :: nat

record min_max =
  mm_window :: nat
  mm_0 :: min_max_sample
  mm_1 :: min_max_sample
  mm_2 :: min_max_sample

definition sample_default :: min_max_sample where
  "sample_default = \<lparr>ms_time = 0, ms_value = 0\<rparr>"

definition mm_default :: min_max where
  "mm_default = \<lparr>mm_window = 10, mm_0 = sample_default, mm_1 = sample_default, mm_2 = sample_default\<rparr>"

definition mm_get :: "min_max \<Rightarrow> nat" where
  "mm_get m = ms_value (mm_0 m)"

definition mm_fill :: "min_max_sample \<Rightarrow> min_max \<Rightarrow> min_max" where
  "mm_fill s m = m\<lparr>mm_0 := s, mm_1 := s, mm_2 := s\<rparr>"

definition mm_reset :: "min_max \<Rightarrow> min_max" where
  "mm_reset m = mm_fill sample_default m"

definition mm_shift :: "min_max_sample \<Rightarrow> min_max \<Rightarrow> min_max" where
  "mm_shift s m = m\<lparr>mm_0 := mm_1 m, mm_1 := mm_2 m, mm_2 := s\<rparr>"

definition subwin_update :: "min_max_sample \<Rightarrow> min_max \<Rightarrow> min_max" where
  "subwin_update s m =
     (let dt = wrapping_sub (ms_time s) (ms_time (mm_0 m)) in
      if mm_window m < dt then
        let m1 = mm_shift s m in
        if mm_window m1 < wrapping_sub (ms_time s) (ms_time (mm_0 m1)) then mm_shift s m1 else m1
      else if ms_time (mm_1 m) = ms_time (mm_0 m) \<and> mm_window m div 4 < dt then m\<lparr>mm_2 := s, mm_1 := s\<rparr>
      else if ms_time (mm_2 m) = ms_time (mm_1 m) \<and> mm_window m div 2 < dt then m\<lparr>mm_2 := s\<rparr>
      else m)"

definition update_max :: "nat \<Rightarrow> nat \<Rightarrow> min_max \<Rightarrow> min_max" where
  "update_max current_round measurement m =
     (let s = \<lparr>ms_time = current_round, ms_value = measurement\<rparr> in
      if ms_value (mm_0 m) = 0 \<or> ms_value (mm_0 m) \<le> ms_value s \<or> mm_window m < wrapping_sub (ms_time s) (ms_time (mm_2 m))
      then mm_fill s m
      else
        subwin_update s
          (if ms_value (mm_1 m) \<le> ms_value s then m\<lparr>mm_2 := s, mm_1 := s\<rparr>
           else if ms_value (mm_2 m) \<le> ms_value s then m\<lparr>mm_2 := s\<rparr>
           else m))"

record bandwidth_estimation =
  be_total_acked :: nat
  be_prev_total_acked :: nat
  be_acked_time :: "nat option"
  be_prev_acked_time :: "nat option"
  be_total_sent :: nat
  be_prev_total_sent :: nat
  be_sent_time :: "nat option"
  be_prev_sent_time :: "nat option"
  be_max_filter :: min_max
  be_acked_at_last_window :: nat

definition be_default :: bandwidth_estimation where
  "be_default = \<lparr>be_total_acked = 0, be_prev_total_acked = 0, be_acked_time = None, be_prev_acked_time = None,
     be_total_sent = 0, be_prev_total_sent = 0, be_sent_time = None, be_prev_sent_time = None,
     be_max_filter = mm_default, be_acked_at_last_window = 0\<rparr>"

text \<open>The multiplication wraps, and the divisor is the duration truncated to 64 bits, which must not be zero.\<close>

definition bw_from_delta :: "nat \<Rightarrow> nat \<Rightarrow> nat option" where
  "bw_from_delta bytes delta =
     (if delta = 0 then None else Some ((bytes * 1000000000) mod 2 ^ 64 div (delta mod 2 ^ 64)))"

definition be_on_sent :: "nat \<Rightarrow> nat \<Rightarrow> bandwidth_estimation \<Rightarrow> bandwidth_estimation" where
  "be_on_sent now bytes e =
     e\<lparr>be_prev_total_sent := be_total_sent e, be_total_sent := be_total_sent e + bytes,
       be_prev_sent_time := be_sent_time e, be_sent_time := Some now\<rparr>"

definition be_on_ack :: "nat \<Rightarrow> nat \<Rightarrow> nat \<Rightarrow> nat \<Rightarrow> bool \<Rightarrow> bandwidth_estimation \<Rightarrow> bandwidth_estimation" where
  "be_on_ack now sent bytes round app_limited e0 =
     (let e = e0\<lparr>be_prev_total_acked := be_total_acked e0, be_total_acked := be_total_acked e0 + bytes,
                 be_prev_acked_time := be_acked_time e0, be_acked_time := Some now\<rparr> in
      case be_prev_sent_time e of
        None \<Rightarrow> e
      | Some prev_sent_time \<Rightarrow>
          let send_rate = (case be_sent_time e of
                 Some sent_time \<Rightarrow>
                   if prev_sent_time < sent_time
                   then (case bw_from_delta (be_total_sent e - be_prev_total_sent e) (sent_time - prev_sent_time) of
                           None \<Rightarrow> 0 | Some x \<Rightarrow> x)
                   else u64_max
               | None \<Rightarrow> u64_max);
              ack_rate = (case be_prev_acked_time e of
                 Some prev_acked_time \<Rightarrow>
                   (case bw_from_delta (be_total_acked e - be_prev_total_acked e) (now - prev_acked_time) of
                      None \<Rightarrow> 0 | Some x \<Rightarrow> x)
               | None \<Rightarrow> 0);
              bandwidth = min send_rate ack_rate in
          if \<not> app_limited \<and> mm_get (be_max_filter e) < bandwidth
          then e\<lparr>be_max_filter := update_max round bandwidth (be_max_filter e)\<rparr>
          else e)"

definition bytes_acked_this_window :: "bandwidth_estimation \<Rightarrow> nat" where
  "bytes_acked_this_window e = be_total_acked e - be_acked_at_last_window e"

definition be_end_acks :: "bandwidth_estimation \<Rightarrow> bandwidth_estimation" where
  "be_end_acks e = e\<lparr>be_acked_at_last_window := be_total_acked e\<rparr>"

definition get_estimate :: "bandwidth_estimation \<Rightarrow> nat" where
  "get_estimate e = mm_get (be_max_filter e)"

section \<open>The round-trip estimate stays within the samples\<close>

definition rtt_ok :: "nat list \<Rightarrow> rtt_estimator \<Rightarrow> bool" where
  "rtt_ok samples r \<longleftrightarrow> (case re_smoothed r of None \<Rightarrow> samples = [] | Some s \<Rightarrow>
     samples \<noteq> [] \<and> re_min r = Min (set samples) \<and> re_latest r = last samples \<and>
     re_min r \<le> s \<and> s \<le> Max (set samples) \<and> re_var r \<le> Max (set samples))"

lemma smoothing_bounds:
  fixes k s a v M :: nat
  shows "k \<le> s \<Longrightarrow> k \<le> a \<Longrightarrow> k \<le> (7 * s + a) div 8" "s \<le> M \<Longrightarrow> a \<le> M \<Longrightarrow> (7 * s + a) div 8 \<le> M"
    "v \<le> M \<Longrightarrow> s \<le> M \<Longrightarrow> a \<le> M \<Longrightarrow> (3 * v + abs_diff s a) div 4 \<le> M"
  by (auto simp: abs_diff_def)

lemma rtt_update_ok:
  assumes "rtt_ok samples r"
  shows "rtt_ok (samples @ [rtt]) (rtt_update ack_delay rtt r)"
proof (cases "re_smoothed r")
  case None
  then show ?thesis using assms by (simp add: rtt_ok_def rtt_update_def)
next
  case (Some s)
  define M where "M = Max (set (samples @ [rtt]))"
  define mn where "mn = Min (set (samples @ [rtt]))"
  define a where "a = (if mn + ack_delay \<le> rtt then rtt - ack_delay else rtt)"
  have r: "samples \<noteq> []" "re_min r = Min (set samples)" "re_min r \<le> s" "s \<le> Max (set samples)" "re_var r \<le> Max (set samples)"
    using assms Some by (auto simp: rtt_ok_def)
  have mn: "min (re_min r) rtt = mn" and M: "Max (set samples) \<le> M" "rtt \<le> M"
    using r(1,2) by (simp_all add: mn_def M_def min.commute)
  have a: "mn \<le> a" "a \<le> M" using mn M(2) by (auto simp: a_def)
  have s: "mn \<le> s" "s \<le> M" "re_var r \<le> M" using mn M r by linarith+
  note smoothing_bounds(1) [OF s(1) a(1)] smoothing_bounds(2) [OF s(2) a(2)] smoothing_bounds(3) [OF s(3,2) a(2)]
  moreover have "rtt_update ack_delay rtt r = \<lparr>re_latest = rtt, re_smoothed = Some ((7 * s + a) div 8),
      re_var = (3 * re_var r + abs_diff s a) div 4, re_min = mn\<rparr>"
    using Some by (simp add: rtt_update_def Let_def mn a_def)
  ultimately show ?thesis by (simp add: rtt_ok_def mn_def M_def)
qed

fun rtt_updates :: "rtt_estimator \<Rightarrow> (nat \<times> nat) list \<Rightarrow> rtt_estimator" where
  "rtt_updates r [] = r"
| "rtt_updates r ((ack_delay, rtt) # us) = rtt_updates (rtt_update ack_delay rtt r) us"

lemma rtt_updates_ok: "rtt_ok samples r \<Longrightarrow> rtt_ok (samples @ map snd us) (rtt_updates r us)"
proof (induction r us arbitrary: samples rule: rtt_updates.induct)
  case (2 r ack_delay rtt us)
  then show ?case using rtt_update_ok [OF "2.prems", of rtt ack_delay] by fastforce
qed simp

text \<open>
  C34: The round-trip estimate never leaves the range of what was measured, whatever delays the peer claims. After
  any sequence of samples the minimum is the least of them, the smoothed estimate lies between the least and
  the greatest, and the base of the probe timeout is at least the estimate plus the timer granularity and at most
  five times the greatest sample plus that granularity.
\<close>

theorem rtt_estimate_bounds:
  assumes "us \<noteq> []" "r = rtt_updates (rtt_new initial_rtt) us"
  shows "re_min r = Min (set (map snd us)) \<and> re_latest r = last (map snd us) \<and>
    Min (set (map snd us)) \<le> rtt_get r \<and> rtt_get r \<le> Max (set (map snd us)) \<and>
    rtt_get r + TIMER_GRANULARITY \<le> pto_base r \<and> pto_base r \<le> 5 * Max (set (map snd us)) + TIMER_GRANULARITY"
proof -
  have "rtt_ok [] (rtt_new initial_rtt)" by (simp add: rtt_ok_def rtt_new_def)
  then have ok: "rtt_ok (map snd us) r" using rtt_updates_ok [of "[]"] assms(2) by simp
  then obtain s where s: "re_smoothed r = Some s" using assms(1) by (cases "re_smoothed r") (auto simp: rtt_ok_def)
  moreover have "s \<le> Max (set (map snd us))" "re_var r \<le> Max (set (map snd us))" using ok s by (simp_all add: rtt_ok_def)
  then have "pto_base r \<le> 5 * Max (set (map snd us)) + TIMER_GRANULARITY"
    using s unfolding pto_base_def rtt_get_def max_def by (simp del: set_map)
  ultimately show ?thesis using ok by (simp add: rtt_ok_def rtt_get_def pto_base_def)
qed

theorem rtt_estimate_bounds_witness:
  "rtt_get (rtt_updates (rtt_new 333000000) [(0, 100), (30, 80), (5, 120)]) \<le> 120"
  using rtt_estimate_bounds [of "[(0, 100), (30, 80), (5, 120)]" _ 333000000, OF _ refl] by simp

section \<open>The congestion window\<close>

text \<open>
  What the connection relies on: once the window has been at least the minimum for the MTU in use, no event makes it
  fall below, so that sending never stalls for want of window.
\<close>

locale congestion_controller =
  fixes on_ack :: "nat \<Rightarrow> nat \<Rightarrow> nat \<Rightarrow> bool \<Rightarrow> rtt_estimator \<Rightarrow> 'c \<Rightarrow> 'c"
    and on_congestion_event :: "nat \<Rightarrow> nat \<Rightarrow> bool \<Rightarrow> bool \<Rightarrow> nat \<Rightarrow> 'c \<Rightarrow> 'c"
    and on_mtu_update :: "nat \<Rightarrow> 'c \<Rightarrow> 'c"
    and window :: "'c \<Rightarrow> nat"
    and mtu :: "'c \<Rightarrow> nat"
  assumes ack_grows: "window c \<le> window (on_ack now sent bytes app_limited rtt c)"
    and ack_mtu: "mtu (on_ack now sent bytes app_limited rtt c) = mtu c"
    and event_minimum: "2 * mtu c \<le> window c \<Longrightarrow> 2 * mtu c \<le> window (on_congestion_event now sent persistent ecn lost c)"
    and event_mtu: "mtu (on_congestion_event now sent persistent ecn lost c) = mtu c"
    and update_minimum: "2 * new_mtu \<le> window (on_mtu_update new_mtu c)"
    and update_mtu: "mtu (on_mtu_update new_mtu c) = new_mtu"
begin

inductive evolves :: "'c \<Rightarrow> 'c \<Rightarrow> bool" where
  start: "evolves c c"
| ack: "evolves c d \<Longrightarrow> evolves c (on_ack now sent bytes app_limited rtt d)"
| event: "evolves c d \<Longrightarrow> evolves c (on_congestion_event now sent persistent ecn lost d)"
| mtu_update: "evolves c d \<Longrightarrow> evolves c (on_mtu_update new_mtu d)"

lemma window_minimum: "evolves c d \<Longrightarrow> 2 * mtu c \<le> window c \<Longrightarrow> 2 * mtu d \<le> window d"
proof (induction rule: evolves.induct)
  case (ack c d now sent bytes app_limited rtt)
  then show ?case using ack_grows [of d now sent bytes app_limited rtt] by (simp add: ack_mtu)
next
  case (event c d now sent persistent ecn lost)
  then show ?case by (simp add: event_mtu event_minimum)
next
  case (mtu_update c d new_mtu)
  then show ?case by (simp add: update_mtu update_minimum)
qed simp

end

interpretation reno: congestion_controller nr_on_ack nr_on_congestion_event nr_on_mtu_update nr_window nr_current_mtu
  by unfold_locales
    (auto simp: nr_on_ack_def nr_on_congestion_event_def nr_on_mtu_update_def nr_minimum_window_def Let_def)

datatype reno_event =
    RenoAck nat nat nat bool rtt_estimator
  | RenoCongestion nat nat bool bool nat
  | RenoMtu nat

fun reno_step :: "new_reno \<Rightarrow> reno_event \<Rightarrow> new_reno" where
  "reno_step c (RenoAck now sent bytes app_limited rtt) = nr_on_ack now sent bytes app_limited rtt c"
| "reno_step c (RenoCongestion now sent persistent ecn lost) = nr_on_congestion_event now sent persistent ecn lost c"
| "reno_step c (RenoMtu new_mtu) = nr_on_mtu_update new_mtu c"

lemma reno_steps_evolve: "reno.evolves c d \<Longrightarrow> reno.evolves c (foldl reno_step d es)"
proof (induction es arbitrary: d)
  case (Cons e es)
  have "reno.evolves c (reno_step d e)" using Cons.prems by (cases e) (auto intro: reno.evolves.intros)
  then show ?case using Cons.IH by simp
qed simp

text \<open>
  The congestion window of NewReno never falls below two datagrams of the current size: started with a
  window of at least that, it stays there through any acknowledgements, losses and changes of the MTU.
\<close>

theorem reno_window_minimum:
  assumes "2 * mtu \<le> nr_initial_window config" "c = foldl reno_step (new_reno_new config now mtu) es"
  shows "2 * nr_current_mtu c \<le> nr_window c"
proof -
  have "reno.evolves (new_reno_new config now mtu) c" using reno_steps_evolve [OF reno.start] assms(2) by simp
  then show ?thesis using reno.window_minimum assms(1) by (fastforce simp: new_reno_new_def)
qed

section \<open>The bandwidth estimate never decreases\<close>

lemma be_on_ack_estimate: "get_estimate e \<le> get_estimate (be_on_ack now sent bytes round app_limited e)"
  by (auto simp: get_estimate_def be_on_ack_def update_max_def mm_get_def mm_fill_def Let_def split: option.splits)

datatype bw_event = BwSent nat nat | BwAck nat nat nat nat bool | BwEnd

fun bw_step :: "bandwidth_estimation \<Rightarrow> bw_event \<Rightarrow> bandwidth_estimation" where
  "bw_step e (BwSent now bytes) = be_on_sent now bytes e"
| "bw_step e (BwAck now sent bytes round app_limited) = be_on_ack now sent bytes round app_limited e"
| "bw_step e BwEnd = be_end_acks e"

text \<open>
  The maximum filter of BBR is meant to forget a bandwidth after ten rounds, but \<open>on_ack\<close> feeds it only
  measurements above its current maximum, and such a measurement replaces every sample: the estimate never
  decreases, for as long as the connection lives.
\<close>

theorem bandwidth_never_decreases: "get_estimate e \<le> get_estimate (foldl bw_step e es)"
proof (induction es arbitrary: e)
  case (Cons x es)
  have "get_estimate e \<le> get_estimate (bw_step e x)"
    using be_on_ack_estimate by (cases x) (auto simp: be_on_sent_def be_end_acks_def get_estimate_def)
  then show ?case using Cons.IH [of "bw_step e x"] by simp
qed simp

end
