(* ===== verification/Ack_Frequency.thy ===== *)
theory Ack_Frequency
  imports Packet_Spaces Congestion
begin

text \<open>
  \<open>quic-proto/src/connection/ack_frequency.rs\<close> and \<open>connection/timer.rs\<close>: the negotiation of acknowledgement
  delays and the table of timers. Durations are nanoseconds, a panic is \<open>None\<close>.
\<close>

section \<open>Timers\<close>

datatype timer = LossDetection | Idle | CloseTimer | KeyDiscard | PathValidation | KeepAlive | Pacing | PushNewCid | MaxAckDelay

definition timer_values :: "timer list" where
  "timer_values = [LossDetection, Idle, CloseTimer, KeyDiscard, PathValidation, KeepAlive, Pacing, PushNewCid, MaxAckDelay]"

text \<open>The table has one entry more than there are timers, which is never set.\<close>

type_synonym timer_table = "timer \<Rightarrow> nat option"

definition timers_default :: timer_table where
  "timers_default = (\<lambda>_. None)"

definition timer_set :: "timer \<Rightarrow> nat \<Rightarrow> timer_table \<Rightarrow> timer_table" where
  "timer_set t time tt = tt(t := Some time)"

definition timer_get :: "timer \<Rightarrow> timer_table \<Rightarrow> nat option" where
  "timer_get t tt = tt t"

definition timer_stop :: "timer \<Rightarrow> timer_table \<Rightarrow> timer_table" where
  "timer_stop t tt = tt(t := None)"

fun list_min :: "nat list \<Rightarrow> nat option" where
  "list_min [] = None"
| "list_min (x # xs) = (case list_min xs of None \<Rightarrow> Some x | Some y \<Rightarrow> Some (min x y))"

definition timer_next_timeout :: "timer_table \<Rightarrow> nat option" where
  "timer_next_timeout tt = list_min (List.map_filter tt timer_values)"

definition timer_is_expired :: "timer \<Rightarrow> nat \<Rightarrow> timer_table \<Rightarrow> bool" where
  "timer_is_expired t after tt = (case tt t of None \<Rightarrow> False | Some x \<Rightarrow> x \<le> after)"

section \<open>Acknowledgement frequency\<close>

record ack_frequency_config =
  afc_ack_eliciting_threshold :: nat
  afc_max_ack_delay :: "nat option"
  afc_reordering_threshold :: nat

record ack_frequency_state =
  af_in_flight_ack_frequency_frame :: "(nat \<times> nat) option"
  af_next_outgoing_sequence_number :: nat
  af_peer_max_ack_delay :: nat
  af_last_ack_frequency_frame :: "nat option"
  af_max_ack_delay :: nat

definition MIN_AUTOMATIC_ACK_DELAY :: nat where "MIN_AUTOMATIC_ACK_DELAY = 25000000"

definition ack_frequency_new :: "nat \<Rightarrow> ack_frequency_state" where
  "ack_frequency_new default_max_ack_delay = \<lparr>af_in_flight_ack_frequency_frame = None, af_next_outgoing_sequence_number = 0,
     af_peer_max_ack_delay = default_max_ack_delay, af_last_ack_frequency_frame = None, af_max_ack_delay = default_max_ack_delay\<rparr>"

text \<open>\<open>Ord::clamp\<close> panics when the lower bound exceeds the upper one.\<close>

definition ord_clamp :: "nat \<Rightarrow> nat \<Rightarrow> nat \<Rightarrow> nat option" where
  "ord_clamp x lo hi = (if hi < lo then None else Some (if x < lo then lo else if hi < x then hi else x))"

definition candidate_max_ack_delay ::
    "nat \<Rightarrow> ack_frequency_config \<Rightarrow> transport_parameters \<Rightarrow> ack_frequency_state \<Rightarrow> nat option" where
  "candidate_max_ack_delay rtt config peer_params a =
     (let min_ack_delay = (case tp_min_ack_delay peer_params of None \<Rightarrow> 0 | Some x \<Rightarrow> x * 1000) in
      ord_clamp (case afc_max_ack_delay config of Some d \<Rightarrow> d | None \<Rightarrow> af_peer_max_ack_delay a)
        min_ack_delay (max rtt MIN_AUTOMATIC_ACK_DELAY))"

definition max_ack_delay_for_pto :: "ack_frequency_state \<Rightarrow> nat" where
  "max_ack_delay_for_pto a =
     (case af_in_flight_ack_frequency_frame a of
        Some (_, max_ack_delay) \<Rightarrow> max (af_peer_max_ack_delay a) max_ack_delay
      | None \<Rightarrow> af_peer_max_ack_delay a)"

definition next_sequence_number :: "ack_frequency_state \<Rightarrow> (nat \<times> ack_frequency_state) option" where
  "next_sequence_number a =
     (if 2 ^ 62 - 1 < af_next_outgoing_sequence_number a then None
      else Some (af_next_outgoing_sequence_number a,
        a\<lparr>af_next_outgoing_sequence_number := af_next_outgoing_sequence_number a + 1\<rparr>))"

text \<open>\<open>differs desired current\<close> is \<open>(desired / current - 1.0).abs() > MAX_RTT_ERROR\<close>, computed on 32-bit floats.\<close>

definition should_send_ack_frequency ::
    "(nat \<Rightarrow> nat \<Rightarrow> bool) \<Rightarrow> nat \<Rightarrow> ack_frequency_config \<Rightarrow> transport_parameters \<Rightarrow> ack_frequency_state \<Rightarrow> bool option" where
  "should_send_ack_frequency differs rtt config peer_params a =
     (if af_next_outgoing_sequence_number a = 0 then Some True
      else
        let current = (case af_in_flight_ack_frequency_frame a of None \<Rightarrow> af_peer_max_ack_delay a | Some (_, pending) \<Rightarrow> pending) in
        map_option (\<lambda>desired. differs desired current) (candidate_max_ack_delay rtt config peer_params a))"

definition ack_frequency_sent :: "nat \<Rightarrow> nat \<Rightarrow> ack_frequency_state \<Rightarrow> ack_frequency_state" where
  "ack_frequency_sent pn requested_max_ack_delay a = a\<lparr>af_in_flight_ack_frequency_frame := Some (pn, requested_max_ack_delay)\<rparr>"

definition ack_frequency_on_acked :: "nat \<Rightarrow> ack_frequency_state \<Rightarrow> ack_frequency_state" where
  "ack_frequency_on_acked pn a =
     (case af_in_flight_ack_frequency_frame a of
        Some (number, requested_max_ack_delay) \<Rightarrow>
          if number = pn
          then a\<lparr>af_in_flight_ack_frequency_frame := None, af_peer_max_ack_delay := requested_max_ack_delay\<rparr> else a
      | None \<Rightarrow> a)"

definition ack_frequency_received ::
    "ack_frequency_frame \<Rightarrow> pending_acks \<Rightarrow> ack_frequency_state \<Rightarrow>
       (transport_error + bool) \<times> pending_acks \<times> ack_frequency_state" where
  "ack_frequency_received frame p a =
     (if (case af_last_ack_frequency_frame a of None \<Rightarrow> False | Some highest \<Rightarrow> af_sequence frame \<le> highest)
      then (Inr False, p, a)
      else
        let a1 = a\<lparr>af_last_ack_frequency_frame := Some (af_sequence frame)\<rparr>;
            max_ack_delay = af_request_max_ack_delay frame * 1000 in
        if max_ack_delay < TIMER_GRANULARITY then
          (Inl (te_new PROTOCOL_VIOLATION ''Requested Max Ack Delay in ACK_FREQUENCY frame is less than min_ack_delay''), p, a1)
        else (Inr True, set_ack_frequency_params frame p, a1\<lparr>af_max_ack_delay := max_ack_delay\<rparr>))"

definition get_max_ack_delay :: "transport_parameters \<Rightarrow> nat" where
  "get_max_ack_delay params = tp_max_ack_delay params * 1000 * 1000"

section \<open>The next timeout\<close>

lemma list_min_Min: "list_min xs = (if xs = [] then None else Some (Min (set xs)))"
  by (induction xs) (auto simp: Min_insert)

text \<open>The table reports a timeout as soon as a timer is set, and it is the earliest of them.\<close>

theorem next_timeout_earliest:
  "timer_next_timeout tt = (if \<forall>t. tt t = None then None else Some (Min {x. \<exists>t. tt t = Some x}))"
proof -
  have "t \<in> set timer_values" for t by (cases t) (simp_all add: timer_values_def)
  then have "set (List.map_filter tt timer_values) = {x. \<exists>t. tt t = Some x}"
    by (force simp: List.map_filter_def)
  moreover from this have "List.map_filter tt timer_values = [] \<longleftrightarrow> (\<forall>t. tt t = None)"
    by (auto simp flip: set_empty)
  ultimately show ?thesis by (simp add: timer_next_timeout_def list_min_Min)
qed

section \<open>A peer can make the negotiation panic\<close>

text \<open>
  C40: A peer can crash an endpoint that negotiates acknowledgement delays. The delay to request is clamped between
  the peer's \<open>min_ack_delay\<close> and the larger of the round-trip time and 25 ms, and \<open>clamp\<close> panics when the first
  exceeds the second. The parameters are legal as long as \<open>min_ack_delay\<close> is at most \<open>max_ack_delay\<close>, which
  may be as large as \<open>2^14\<close> ms: such a peer on any path with a shorter round-trip time causes the panic.
\<close>

theorem ack_delay_request_panics:
  assumes "tp_min_ack_delay params = Some d" "25000 < d" "rtt < d * 1000"
  shows "candidate_max_ack_delay rtt config params a = None \<and>
    (af_next_outgoing_sequence_number a \<noteq> 0 \<longrightarrow> should_send_ack_frequency differs rtt config params a = None)"
  using assms by (simp add: candidate_max_ack_delay_def should_send_ack_frequency_def ord_clamp_def MIN_AUTOMATIC_ACK_DELAY_def)

text \<open>Parameters of a client that the server accepts and that make it panic on a path of 10 ms.\<close>

definition panicking_params :: transport_parameters where
  "panicking_params = tp_default\<lparr>tp_max_ack_delay := 30, tp_min_ack_delay := Some 30000\<rparr>"

theorem ack_delay_request_panics_witness:
  "\<not> tp_illegal Server panicking_params \<and>
   candidate_max_ack_delay 10000000 \<lparr>afc_ack_eliciting_threshold = 1, afc_max_ack_delay = None, afc_reordering_threshold = 2\<rparr>
     panicking_params (ack_frequency_new (get_max_ack_delay panicking_params)) = None"
proof -
  have "tp_min_ack_delay panicking_params = Some 30000" by (simp add: panicking_params_def)
  note ack_delay_request_panics [OF this, where rtt = 10000000]
  moreover have "\<not> tp_illegal Server panicking_params"
    by (simp add: panicking_params_def tp_illegal_def tp_default_def MAX_STREAM_COUNT_def)
  ultimately show ?thesis by simp
qed

end
