(* ===== verification/Mtu_Discovery.thy ===== *)
theory Mtu_Discovery
  imports Packet
begin

text \<open>
  \<open>quic-proto/src/connection/mtud.rs\<close>: the search for the largest datagram a path carries, and the detection of
  black holes. Sizes are 16-bit numbers, times natural numbers. Where overflow is not checked, subtraction
  wraps at 16 bits.
\<close>

section \<open>The search\<close>

record mtu_config =
  mc_interval :: nat
  mc_upper_bound :: nat
  mc_minimum_change :: nat
  mc_black_hole_cooldown :: nat

record search_state =
  se_lower_bound :: nat
  se_upper_bound :: nat
  se_minimum_change :: nat
  se_last_probed_mtu :: nat
  se_in_flight_probe :: "nat option"
  se_lost_probe_count :: nat

datatype mtu_phase = MtuInitial | MtuSearching search_state | MtuComplete nat

record enabled_mtu =
  em_phase :: mtu_phase
  em_peer_max_udp_payload_size :: nat
  em_config :: mtu_config

definition MAX_UDP_PAYLOAD :: nat where "MAX_UDP_PAYLOAD = 65527"

definition MAX_PROBE_RETRANSMITS :: nat where "MAX_PROBE_RETRANSMITS = 3"

definition BLACK_HOLE_THRESHOLD :: nat where "BLACK_HOLE_THRESHOLD = 3"

definition u16_sub :: "nat \<Rightarrow> nat \<Rightarrow> nat" where
  "u16_sub a b = (if b \<le> a then a - b else (a + 2 ^ 16 - b) mod 2 ^ 16)"

definition search_new :: "nat \<Rightarrow> nat \<Rightarrow> mtu_config \<Rightarrow> search_state" where
  "search_new lower_bound0 peer_max config =
     (let lower_bound = min lower_bound0 peer_max;
          upper_bound = min (max (mc_upper_bound config) lower_bound) peer_max in
      \<lparr>se_lower_bound = lower_bound, se_upper_bound = upper_bound, se_minimum_change = mc_minimum_change config,
       se_last_probed_mtu = lower_bound, se_in_flight_probe = None, se_lost_probe_count = 0\<rparr>)"

definition next_mtu_to_probe :: "bool \<Rightarrow> search_state \<Rightarrow> nat option \<times> search_state" where
  "next_mtu_to_probe last_probe_succeeded s0 =
     (let s = (if last_probe_succeeded then s0\<lparr>se_lower_bound := se_last_probed_mtu s0\<rparr>
               else s0\<lparr>se_upper_bound := u16_sub (se_last_probed_mtu s0) 1\<rparr>);
          next_mtu = (se_lower_bound s + se_upper_bound s) div 2;
          change = nat \<bar>int next_mtu - int (se_last_probed_mtu s)\<bar> in
      if change < se_minimum_change s then
        if se_minimum_change s \<le> saturating_sub (se_upper_bound s) (se_last_probed_mtu s) then (Some (se_upper_bound s), s)
        else (None, s)
      else (Some next_mtu, s))"

definition em_new :: "mtu_config \<Rightarrow> enabled_mtu" where
  "em_new config = \<lparr>em_phase = MtuInitial, em_peer_max_udp_payload_size = MAX_UDP_PAYLOAD, em_config = config\<rparr>"

definition em_start :: "nat \<Rightarrow> nat \<Rightarrow> enabled_mtu \<Rightarrow> enabled_mtu option" where
  "em_start now current_mtu e =
     (let started = e\<lparr>em_phase := MtuSearching (search_new current_mtu (em_peer_max_udp_payload_size e) (em_config e))\<rparr> in
      case em_phase e of
        MtuInitial \<Rightarrow> Some started
      | MtuComplete next_mtud_activation \<Rightarrow> if now < next_mtud_activation then None else Some started
      | MtuSearching _ \<Rightarrow> Some e)"

definition em_poll_transmit :: "nat \<Rightarrow> nat \<Rightarrow> nat \<Rightarrow> enabled_mtu \<Rightarrow> nat option \<times> enabled_mtu" where
  "em_poll_transmit now current_mtu next_pn e0 =
     (case em_start now current_mtu e0 of
        None \<Rightarrow> (None, e0)
      | Some e \<Rightarrow>
          (case em_phase e of
             MtuSearching s \<Rightarrow>
               if se_in_flight_probe s \<noteq> None then (None, e)
               else if 0 < se_lost_probe_count s \<and> se_lost_probe_count s < MAX_PROBE_RETRANSMITS then
                 (Some (se_last_probed_mtu s), e\<lparr>em_phase := MtuSearching (s\<lparr>se_in_flight_probe := Some next_pn\<rparr>)\<rparr>)
               else
                 let last_probe_succeeded = (se_lost_probe_count s = 0);
                     s1 = (if last_probe_succeeded then s else s\<lparr>se_lost_probe_count := 0, se_in_flight_probe := None\<rparr>) in
                 (case next_mtu_to_probe last_probe_succeeded s1 of
                    (Some probe, s2) \<Rightarrow>
                      (Some probe, e\<lparr>em_phase := MtuSearching (s2\<lparr>se_in_flight_probe := Some next_pn, se_last_probed_mtu := probe\<rparr>)\<rparr>)
                  | (None, s2) \<Rightarrow> (None, e\<lparr>em_phase := MtuComplete (now + mc_interval (em_config e))\<rparr>))
           | _ \<Rightarrow> (None, e)))"

definition em_on_probe_acked :: "nat \<Rightarrow> enabled_mtu \<Rightarrow> nat option \<times> enabled_mtu" where
  "em_on_probe_acked pn e =
     (case em_phase e of
        MtuSearching s \<Rightarrow>
          if se_in_flight_probe s = Some pn then
            (Some (se_last_probed_mtu s), e\<lparr>em_phase := MtuSearching (s\<lparr>se_in_flight_probe := None, se_lost_probe_count := 0\<rparr>)\<rparr>)
          else (None, e)
      | _ \<Rightarrow> (None, e))"

definition em_on_probe_lost :: "enabled_mtu \<Rightarrow> enabled_mtu" where
  "em_on_probe_lost e =
     (case em_phase e of
        MtuSearching s \<Rightarrow>
          e\<lparr>em_phase := MtuSearching (s\<lparr>se_in_flight_probe := None, se_lost_probe_count := se_lost_probe_count s + 1\<rparr>)\<rparr>
      | _ \<Rightarrow> e)"

definition em_on_black_hole_detected :: "nat \<Rightarrow> enabled_mtu \<Rightarrow> enabled_mtu" where
  "em_on_black_hole_detected now e = e\<lparr>em_phase := MtuComplete (now + mc_black_hole_cooldown (em_config e))\<rparr>"

section \<open>Black holes\<close>

record loss_burst =
  lb_smallest_packet_size :: nat
  lb_latest_non_probe :: nat

record black_hole_detector =
  bh_suspicious_loss_bursts :: "nat list"
  bh_current_loss_burst :: "loss_burst option"
  bh_largest_post_loss_packet :: nat
  bh_acked_mtu :: nat
  bh_min_mtu :: nat

definition bh_new :: "nat \<Rightarrow> black_hole_detector" where
  "bh_new min_mtu = \<lparr>bh_suspicious_loss_bursts = [], bh_current_loss_burst = None, bh_largest_post_loss_packet = 0,
     bh_acked_mtu = min_mtu, bh_min_mtu = min_mtu\<rparr>"

definition bh_on_probe_acked :: "nat \<Rightarrow> nat \<Rightarrow> black_hole_detector \<Rightarrow> black_hole_detector" where
  "bh_on_probe_acked pn len b = b\<lparr>bh_suspicious_loss_bursts := [], bh_acked_mtu := len, bh_largest_post_loss_packet := pn\<rparr>"

definition bh_on_non_probe_acked :: "nat \<Rightarrow> nat \<Rightarrow> black_hole_detector \<Rightarrow> black_hole_detector" where
  "bh_on_non_probe_acked pn len b =
     (if len \<le> bh_acked_mtu b then b
      else b\<lparr>bh_acked_mtu := len, bh_largest_post_loss_packet := pn,
        bh_suspicious_loss_bursts := filter (\<lambda>n. len < n) (bh_suspicious_loss_bursts b)\<rparr>)"

text \<open>Replacing the first smallest burst by a larger one.\<close>

fun replace_first :: "nat \<Rightarrow> nat \<Rightarrow> nat list \<Rightarrow> nat list" where
  "replace_first old new [] = []"
| "replace_first old new (x # xs) = (if x = old then new # xs else x # replace_first old new xs)"

definition finish_loss_burst :: "black_hole_detector \<Rightarrow> black_hole_detector" where
  "finish_loss_burst b0 =
     (case bh_current_loss_burst b0 of
        None \<Rightarrow> b0
      | Some burst \<Rightarrow>
          let b = b0\<lparr>bh_current_loss_burst := None\<rparr>; n = lb_smallest_packet_size burst in
          if n \<le> bh_min_mtu b \<or> lb_latest_non_probe burst < bh_largest_post_loss_packet b \<and> n \<le> bh_acked_mtu b then b
          else
            let b1 = (if bh_largest_post_loss_packet b < lb_latest_non_probe burst then b\<lparr>bh_acked_mtu := bh_min_mtu b\<rparr> else b);
                bursts = bh_suspicious_loss_bursts b in
            if length bursts \<le> BLACK_HOLE_THRESHOLD then b1\<lparr>bh_suspicious_loss_bursts := bursts @ [n]\<rparr>
            else
              let smallest = Min (set bursts) in
              if smallest < n then b1\<lparr>bh_suspicious_loss_bursts := replace_first smallest n bursts\<rparr> else b1)"

definition bh_on_non_probe_lost :: "nat \<Rightarrow> nat \<Rightarrow> black_hole_detector \<Rightarrow> black_hole_detector" where
  "bh_on_non_probe_lost pn len b0 =
     (let end_last_burst = (case bh_current_loss_burst b0 of None \<Rightarrow> False
            | Some current \<Rightarrow> wrapping_sub pn (lb_latest_non_probe current) \<noteq> 1);
          b = (if end_last_burst then finish_loss_burst b0 else b0) in
      b\<lparr>bh_current_loss_burst := Some \<lparr>
          lb_smallest_packet_size = (case bh_current_loss_burst b of None \<Rightarrow> len | Some prev \<Rightarrow> min (lb_smallest_packet_size prev) len),
          lb_latest_non_probe = pn\<rparr>\<rparr>)"

definition bh_black_hole_detected :: "black_hole_detector \<Rightarrow> bool \<times> black_hole_detector" where
  "bh_black_hole_detected b0 =
     (let b = finish_loss_burst b0 in
      if length (bh_suspicious_loss_bursts b) \<le> BLACK_HOLE_THRESHOLD then (False, b)
      else (True, b\<lparr>bh_suspicious_loss_bursts := []\<rparr>))"

section \<open>MTU discovery\<close>

record mtu_discovery =
  md_current_mtu :: nat
  md_state :: "enabled_mtu option"
  md_black_hole_detector :: black_hole_detector

definition md_with_state :: "nat \<Rightarrow> nat \<Rightarrow> enabled_mtu option \<Rightarrow> mtu_discovery" where
  "md_with_state current_mtu min_mtu state =
     \<lparr>md_current_mtu = current_mtu, md_state = state, md_black_hole_detector = bh_new min_mtu\<rparr>"

definition on_peer_max_udp_payload_size_received :: "nat \<Rightarrow> mtu_discovery \<Rightarrow> mtu_discovery" where
  "on_peer_max_udp_payload_size_received peer_max m =
     m\<lparr>md_current_mtu := min (md_current_mtu m) peer_max,
       md_state := map_option (\<lambda>e. e\<lparr>em_peer_max_udp_payload_size := peer_max\<rparr>) (md_state m)\<rparr>"

definition md_new :: "nat \<Rightarrow> nat \<Rightarrow> nat option \<Rightarrow> mtu_config \<Rightarrow> mtu_discovery" where
  "md_new initial_plpmtu min_mtu peer_max config =
     (let m = md_with_state initial_plpmtu min_mtu (Some (em_new config)) in
      case peer_max of None \<Rightarrow> m | Some n \<Rightarrow> on_peer_max_udp_payload_size_received n m)"

definition md_disabled :: "nat \<Rightarrow> nat \<Rightarrow> mtu_discovery" where
  "md_disabled plpmtu min_mtu = md_with_state plpmtu min_mtu None"

definition md_reset :: "nat \<Rightarrow> nat \<Rightarrow> mtu_discovery \<Rightarrow> mtu_discovery" where
  "md_reset current_mtu min_mtu m =
     (let m1 = m\<lparr>md_current_mtu := current_mtu\<rparr>;
          m2 = (case md_state m1 of
                  None \<Rightarrow> m1
                | Some e \<Rightarrow> on_peer_max_udp_payload_size_received (em_peer_max_udp_payload_size e)
                    (m1\<lparr>md_state := Some (em_new (em_config e))\<rparr>)) in
      m2\<lparr>md_black_hole_detector := bh_new min_mtu\<rparr>)"

definition md_poll_transmit :: "nat \<Rightarrow> nat \<Rightarrow> mtu_discovery \<Rightarrow> nat option \<times> mtu_discovery" where
  "md_poll_transmit now next_pn m =
     (case md_state m of
        None \<Rightarrow> (None, m)
      | Some e \<Rightarrow> (let (r, e') = em_poll_transmit now (md_current_mtu m) next_pn e in (r, m\<lparr>md_state := Some e'\<rparr>)))"

definition md_on_acked :: "space_id \<Rightarrow> nat \<Rightarrow> nat \<Rightarrow> mtu_discovery \<Rightarrow> bool \<times> mtu_discovery" where
  "md_on_acked space pn len m =
     (if space \<noteq> SData then (False, m)
      else
        let (new_mtu, state) = (case md_state m of
              None \<Rightarrow> (None, None)
            | Some e \<Rightarrow> (let (r, e') = em_on_probe_acked pn e in (r, Some e')));
            m1 = m\<lparr>md_state := state\<rparr> in
        (case new_mtu of
           Some n \<Rightarrow> (True, m1\<lparr>md_current_mtu := n,
             md_black_hole_detector := bh_on_probe_acked pn len (md_black_hole_detector m)\<rparr>)
         | None \<Rightarrow> (False, m1\<lparr>md_black_hole_detector := bh_on_non_probe_acked pn len (md_black_hole_detector m)\<rparr>)))"

definition in_flight_mtu_probe :: "mtu_discovery \<Rightarrow> nat option" where
  "in_flight_mtu_probe m =
     (case md_state m of
        None \<Rightarrow> None
      | Some e \<Rightarrow> (case em_phase e of MtuSearching s \<Rightarrow> se_in_flight_probe s | _ \<Rightarrow> None))"

definition md_on_probe_lost :: "mtu_discovery \<Rightarrow> mtu_discovery" where
  "md_on_probe_lost m = m\<lparr>md_state := map_option em_on_probe_lost (md_state m)\<rparr>"

definition md_on_non_probe_lost :: "nat \<Rightarrow> nat \<Rightarrow> mtu_discovery \<Rightarrow> mtu_discovery" where
  "md_on_non_probe_lost pn len m = m\<lparr>md_black_hole_detector := bh_on_non_probe_lost pn len (md_black_hole_detector m)\<rparr>"

definition md_black_hole_detected :: "nat \<Rightarrow> mtu_discovery \<Rightarrow> bool \<times> mtu_discovery" where
  "md_black_hole_detected now m =
     (let (found, b) = bh_black_hole_detected (md_black_hole_detector m); m1 = m\<lparr>md_black_hole_detector := b\<rparr> in
      if \<not> found then (False, m1)
      else (True, m1\<lparr>md_current_mtu := bh_min_mtu b, md_state := map_option (em_on_black_hole_detected now) (md_state m)\<rparr>))"

section \<open>The search converges\<close>

lemma next_after_success:
  assumes "se_last_probed_mtu s \<le> se_upper_bound s" "next_mtu_to_probe True s = (r, s')" "0 < se_minimum_change s"
  shows "s' = s\<lparr>se_lower_bound := se_last_probed_mtu s\<rparr>"
    "case r of None \<Rightarrow> se_upper_bound s - se_last_probed_mtu s < se_minimum_change s
      | Some p \<Rightarrow> se_last_probed_mtu s < p \<and> p \<le> se_upper_bound s"
proof -
  let ?l = "se_last_probed_mtu s" and ?u = "se_upper_bound s"
  have "?l \<le> (?l + ?u) div 2" "(?l + ?u) div 2 \<le> ?u" using assms(1) by auto
  then have c: "nat \<bar>int ((?l + ?u) div 2) - int ?l\<bar> = (?l + ?u) div 2 - ?l" by (simp add: nat_diff_distrib')
  show "s' = s\<lparr>se_lower_bound := ?l\<rparr>" using assms(2) by (auto simp: next_mtu_to_probe_def Let_def split: if_splits)
  show "case r of None \<Rightarrow> ?u - ?l < se_minimum_change s | Some p \<Rightarrow> ?l < p \<and> p \<le> ?u"
    using assms(2,3) c \<open>?l \<le> (?l + ?u) div 2\<close> \<open>(?l + ?u) div 2 \<le> ?u\<close>
    by (auto simp: next_mtu_to_probe_def Let_def split: if_splits)
qed

lemma next_after_failure:
  assumes "se_lower_bound s < se_last_probed_mtu s" "next_mtu_to_probe False s = (r, s')" "3 \<le> se_minimum_change s"
  shows "s' = s\<lparr>se_upper_bound := se_last_probed_mtu s - 1\<rparr>"
    "case r of None \<Rightarrow> se_last_probed_mtu s - se_lower_bound s < 2 * se_minimum_change s
      | Some p \<Rightarrow> se_lower_bound s < p \<and> p < se_last_probed_mtu s"
proof -
  let ?l = "se_lower_bound s" and ?p = "se_last_probed_mtu s"
  let ?n = "(?l + (?p - 1)) div 2"
  have n: "?l \<le> ?n" "?n < ?p" using assms(1) by auto
  then have c: "nat \<bar>int ?n - int ?p\<bar> = ?p - ?n" by linarith
  have u: "u16_sub ?p 1 = ?p - 1" using assms(1) by (simp add: u16_sub_def)
  show "s' = s\<lparr>se_upper_bound := ?p - 1\<rparr>" using assms(2) u by (auto simp: next_mtu_to_probe_def Let_def split: if_splits)
  have r: "r = (if ?p - ?n < se_minimum_change s then None else Some ?n)"
    using assms(2,3) u c by (auto simp: next_mtu_to_probe_def Let_def split: if_splits)
  show "case r of None \<Rightarrow> ?p - ?l < 2 * se_minimum_change s | Some p \<Rightarrow> ?l < p \<and> p < ?p"
  proof (cases "?p - ?n < se_minimum_change s")
    case True
    then have "?p - ?l < 2 * se_minimum_change s" using n by linarith
    then show ?thesis using r True by simp
  next
    case False
    then have "?l < ?n" using assms(1,3) n by linarith
    then show ?thesis using r False n by simp
  qed
qed

text \<open>
  A path that carries datagrams of up to \<open>P\<close> bytes: a round sends what \<open>poll_transmit\<close> asks for, and the probe is
  acknowledged or declared lost accordingly.
\<close>

definition probe_round :: "nat \<Rightarrow> nat \<Rightarrow> nat \<Rightarrow> mtu_discovery \<Rightarrow> mtu_discovery" where
  "probe_round P now pn m =
     (case md_poll_transmit now pn m of
        (None, m') \<Rightarrow> m'
      | (Some n, m') \<Rightarrow> if n \<le> P then snd (md_on_acked SData pn n m') else md_on_probe_lost m')"

fun probe_rounds :: "nat \<Rightarrow> nat \<Rightarrow> nat \<Rightarrow> nat \<Rightarrow> mtu_discovery \<Rightarrow> mtu_discovery" where
  "probe_rounds P now pn 0 m = m"
| "probe_rounds P now pn (Suc n) m = probe_rounds P now (pn + 1) n (probe_round P now pn m)"

definition search_completed :: "mtu_discovery \<Rightarrow> bool" where
  "search_completed m = (case md_state m of None \<Rightarrow> False
     | Some e \<Rightarrow> (case em_phase e of MtuComplete _ \<Rightarrow> True | _ \<Rightarrow> False))"

definition search_ok :: "nat \<Rightarrow> nat \<Rightarrow> nat \<Rightarrow> search_state \<Rightarrow> bool" where
  "search_ok P U cur s \<longleftrightarrow> se_in_flight_probe s = None \<and> 3 \<le> se_minimum_change s \<and> se_upper_bound s \<le> U \<and> min P U \<le> se_upper_bound s \<and>
     se_lost_probe_count s \<le> 3 \<and>
     (if se_lost_probe_count s = 0 then
        se_last_probed_mtu s \<le> se_upper_bound s \<and> se_last_probed_mtu s \<le> P \<and> cur = se_last_probed_mtu s
      else se_lower_bound s < se_last_probed_mtu s \<and> se_last_probed_mtu s \<le> se_upper_bound s \<and> P < se_last_probed_mtu s \<and>
        se_lower_bound s \<le> P \<and> cur = se_lower_bound s)"

definition search_left :: "search_state \<Rightarrow> nat" where
  "search_left s =
     (if se_lost_probe_count s = 0 then 4 * (se_upper_bound s - se_last_probed_mtu s) + 3
      else 4 * (se_upper_bound s - se_lower_bound s) + (3 - se_lost_probe_count s))"

definition converged :: "nat \<Rightarrow> nat \<Rightarrow> nat \<Rightarrow> mtu_discovery \<Rightarrow> bool" where
  "converged P U c m \<longleftrightarrow> search_completed m \<and> md_current_mtu m \<le> min P U \<and> min P U < md_current_mtu m + 2 * c"

text \<open>One round decides a size, or repeats a lost probe, or ends the search.\<close>

lemma search_round:
  assumes m: "md_state m = Some e" "em_phase e = MtuSearching s" and ok: "search_ok P U (md_current_mtu m) s"
  shows "converged P U (se_minimum_change s) (probe_round P now pn m) \<or>
    (\<exists>e' s'. md_state (probe_round P now pn m) = Some e' \<and> em_phase e' = MtuSearching s' \<and> se_minimum_change s' = se_minimum_change s \<and>
       search_ok P U (md_current_mtu (probe_round P now pn m)) s' \<and> search_left s' < search_left s)"
proof -
  have start: "em_start now (md_current_mtu m) e = Some e" using m(2) by (simp add: em_start_def)
  have fl: "se_in_flight_probe s = None" using ok by (simp add: search_ok_def)
  note round = probe_round_def md_poll_transmit_def em_poll_transmit_def md_on_acked_def em_on_probe_acked_def
    md_on_probe_lost_def em_on_probe_lost_def MAX_PROBE_RETRANSMITS_def Let_def
  consider "se_lost_probe_count s = 0" | "0 < se_lost_probe_count s" "se_lost_probe_count s < 3" | "se_lost_probe_count s = 3"
    using ok unfolding search_ok_def by linarith
  then show ?thesis
  proof cases
    case 1
    obtain r s1 where n: "next_mtu_to_probe True s = (r, s1)" by (metis prod.exhaust)
    have c: "se_last_probed_mtu s \<le> se_upper_bound s" "0 < se_minimum_change s" using ok 1 by (auto simp: search_ok_def)
    note nx = next_after_success [OF c(1) n c(2)]
    show ?thesis
    proof (cases r)
      case None
      then have "converged P U (se_minimum_change s) (probe_round P now pn m)"
        using m start fl 1 n nx ok by (auto simp: round converged_def search_completed_def search_ok_def)
      then show ?thesis ..
    next
      case (Some p)
      then show ?thesis
        using m start fl 1 n nx ok by (cases "p \<le> P") (auto simp: round search_ok_def search_left_def)
    qed
  next
    case 2
    then show ?thesis
      using m start fl ok by (auto simp: round search_ok_def search_left_def)
  next
    case 3
    let ?s = "s\<lparr>se_lost_probe_count := 0, se_in_flight_probe := None\<rparr>"
    obtain r s1 where n: "next_mtu_to_probe False ?s = (r, s1)" by (metis prod.exhaust)
    have c: "se_lower_bound ?s < se_last_probed_mtu ?s" "3 \<le> se_minimum_change ?s" using ok 3 by (auto simp: search_ok_def)
    note nx = next_after_failure [OF c(1) n c(2)]
    show ?thesis
    proof (cases r)
      case None
      then have "converged P U (se_minimum_change s) (probe_round P now pn m)"
        using m start fl 3 n nx ok by (auto simp: round converged_def search_completed_def search_ok_def)
      then show ?thesis ..
    next
      case (Some p)
      then show ?thesis
        using m start fl 3 n nx ok by (cases "p \<le> P") (auto simp: round search_ok_def search_left_def)
    qed
  qed
qed

lemma search_converges:
  assumes "md_state m = Some e" "em_phase e = MtuSearching s" "search_ok P U (md_current_mtu m) s"
  shows "\<exists>k \<le> search_left s + 1. converged P U (se_minimum_change s) (probe_rounds P now pn k m)"
  using assms
proof (induction "search_left s" arbitrary: m e s pn rule: less_induct)
  case less
  let ?m = "probe_round P now pn m"
  from search_round [OF less.prems, of now pn] show ?case
  proof
    assume "converged P U (se_minimum_change s) ?m"
    then show ?thesis by (intro exI [of _ 1]) simp
  next
    assume "\<exists>e' s'. md_state ?m = Some e' \<and> em_phase e' = MtuSearching s' \<and> se_minimum_change s' = se_minimum_change s \<and>
       search_ok P U (md_current_mtu ?m) s' \<and> search_left s' < search_left s"
    then obtain e' s' where s': "md_state ?m = Some e'" "em_phase e' = MtuSearching s'" "se_minimum_change s' = se_minimum_change s"
        "search_ok P U (md_current_mtu ?m) s'" "search_left s' < search_left s" by blast
    obtain k where "k \<le> search_left s' + 1" "converged P U (se_minimum_change s') (probe_rounds P now (pn + 1) k ?m)"
      using less.hyps [OF s'(5,1,2,4)] by blast
    then show ?thesis using s'(3,5) by (intro exI [of _ "Suc k"]) simp
  qed
qed

lemma first_round:
  assumes "md_state m = Some e" "em_phase e = MtuInitial"
  shows "probe_round P now pn m = probe_round P now pn
    (m\<lparr>md_state := Some (e\<lparr>em_phase := MtuSearching (search_new (md_current_mtu m) (em_peer_max_udp_payload_size e) (em_config e))\<rparr>)\<rparr>)"
  using assms by (simp add: probe_round_def md_poll_transmit_def em_poll_transmit_def em_start_def Let_def split: prod.splits)

text \<open>
  C14: The search for the MTU ends, and ends at the right place. On a path that carries datagrams of up to \<open>P\<close> bytes,
  with the size in use among them and \<open>minimum_change\<close> at least 3 (the default is 20), polling for probes and reporting
  each as acknowledged or lost completes the search after finitely many rounds, lost probes being repeated
  twice. The size found is one the path carries, and within twice \<open>minimum_change\<close> of the largest such size
  below the configured and the peer's limit.
\<close>

theorem mtu_search_converges:
  assumes "md_state m = Some e" "em_phase e = MtuInitial" "md_current_mtu m \<le> P" "md_current_mtu m \<le> em_peer_max_udp_payload_size e"
    "3 \<le> mc_minimum_change (em_config e)" "U = min (max (mc_upper_bound (em_config e)) (md_current_mtu m)) (em_peer_max_udp_payload_size e)"
  shows "\<exists>k \<le> 4 * U + 4. converged P U (mc_minimum_change (em_config e)) (probe_rounds P now pn k m)"
proof -
  let ?s = "search_new (md_current_mtu m) (em_peer_max_udp_payload_size e) (em_config e)"
  let ?e = "e\<lparr>em_phase := MtuSearching ?s\<rparr>"
  let ?m = "m\<lparr>md_state := Some ?e\<rparr>"
  have mc: "se_minimum_change ?s = mc_minimum_change (em_config e)" by (simp add: search_new_def Let_def)
  have ok: "search_ok P U (md_current_mtu ?m) ?s" and left: "search_left ?s \<le> 4 * U + 3"
    using assms(3-6) by (auto simp: search_ok_def search_left_def search_new_def Let_def)
  obtain k where k: "k \<le> search_left ?s + 1" "converged P U (mc_minimum_change (em_config e)) (probe_rounds P now pn k ?m)"
    using search_converges [of ?m ?e ?s P U now pn] ok mc by auto
  have "\<not> converged P U (mc_minimum_change (em_config e)) (probe_rounds P now pn 0 ?m)"
    by (simp add: converged_def search_completed_def)
  then have "k \<noteq> 0" using k(2) by metis
  then obtain j where "k = Suc j" by (cases k) auto
  then have "probe_rounds P now pn k m = probe_rounds P now pn k ?m"
    using first_round [OF assms(1,2), of P now pn] by simp
  then show ?thesis using k left by (intro exI [of _ k]) simp
qed

text \<open>The default configuration, on a path that carries 1400 bytes.\<close>

definition example_config :: mtu_config where
  "example_config = \<lparr>mc_interval = 600, mc_upper_bound = 1452, mc_minimum_change = 20, mc_black_hole_cooldown = 60\<rparr>"

theorem mtu_search_converges_witness:
  "\<exists>k. converged 1400 1452 20 (probe_rounds 1400 0 0 k (md_new 1200 1200 (Some 1472) example_config))"
proof -
  let ?e = "(em_new example_config)\<lparr>em_peer_max_udp_payload_size := 1472\<rparr>"
  have "\<exists>k \<le> 4 * 1452 + 4. converged 1400 1452 (mc_minimum_change (em_config ?e)) (probe_rounds 1400 0 0 k (md_new 1200 1200 (Some 1472) example_config))"
    by (rule mtu_search_converges [of _ ?e])
      (simp_all add: md_new_def md_with_state_def on_peer_max_udp_payload_size_received_def em_new_def example_config_def)
  then show ?thesis by (auto simp: em_new_def example_config_def)
qed

section \<open>A search that never ends\<close>

text \<open>
  \<open>MtuDiscoveryConfig::minimum_change\<close> accepts zero. The test that stops the search then never holds: a search
  that has found the largest size keeps probing it, round after round, and is never completed.
\<close>

lemma endless_round:
  assumes "md_state m = Some e" "em_phase e = MtuSearching s" "se_minimum_change s = 0" "se_last_probed_mtu s = n" "se_upper_bound s = n"
    "se_lost_probe_count s = 0" "se_in_flight_probe s = None" "n \<le> P"
  shows "\<exists>e' s'. md_state (probe_round P now pn m) = Some e' \<and> em_phase e' = MtuSearching s' \<and> se_minimum_change s' = 0 \<and>
    se_last_probed_mtu s' = n \<and> se_upper_bound s' = n \<and> se_lost_probe_count s' = 0 \<and> se_in_flight_probe s' = None"
  using assms
  by (auto simp: probe_round_def md_poll_transmit_def em_poll_transmit_def em_start_def next_mtu_to_probe_def md_on_acked_def
      em_on_probe_acked_def Let_def)

theorem zero_minimum_change_never_completes:
  assumes "md_state m = Some e" "em_phase e = MtuSearching s" "se_minimum_change s = 0" "se_last_probed_mtu s = n" "se_upper_bound s = n"
    "se_lost_probe_count s = 0" "se_in_flight_probe s = None" "n \<le> P"
  shows "\<not> search_completed (probe_rounds P now pn k m)"
  using assms(1-7)
proof (induction k arbitrary: m e s pn)
  case 0
  then show ?case by (simp add: search_completed_def)
next
  case (Suc k)
  obtain e' s' where s': "md_state (probe_round P now pn m) = Some e'" "em_phase e' = MtuSearching s'" "se_minimum_change s' = 0"
      "se_last_probed_mtu s' = n" "se_upper_bound s' = n" "se_lost_probe_count s' = 0" "se_in_flight_probe s' = None"
    using endless_round [OF Suc.prems assms(8), of now pn] by blast
  show ?case using Suc.IH [OF s', of "pn + 1"] by simp
qed

section \<open>Black holes\<close>

text \<open>Only losses that a smaller MTU would explain count, and only so many are kept.\<close>

definition bh_ok :: "black_hole_detector \<Rightarrow> bool" where
  "bh_ok b \<longleftrightarrow> length (bh_suspicious_loss_bursts b) \<le> BLACK_HOLE_THRESHOLD + 1 \<and>
     (\<forall>n \<in> set (bh_suspicious_loss_bursts b). bh_min_mtu b < n)"

lemma replace_first_length [simp]: "length (replace_first a b xs) = length xs"
  by (induction xs) auto

lemma replace_first_set: "set (replace_first a b xs) \<subseteq> insert b (set xs)"
  by (induction xs) auto

lemma finish_loss_burst_ok: "bh_ok b \<Longrightarrow> bh_ok (finish_loss_burst b)"
  using replace_first_set by (fastforce simp: bh_ok_def finish_loss_burst_def Let_def split: option.splits)

lemma finish_min_mtu [simp]: "bh_min_mtu (finish_loss_burst b) = bh_min_mtu b"
  by (simp add: finish_loss_burst_def Let_def split: option.splits)

lemma black_hole_detector_ok:
  assumes "bh_ok b"
  shows "bh_ok (bh_on_probe_acked pn len b)" "bh_ok (bh_on_non_probe_acked pn len b)" "bh_ok (bh_on_non_probe_lost pn len b)"
    "bh_ok (snd (bh_black_hole_detected b))"
  using assms finish_loss_burst_ok [OF assms]
  by (auto simp: bh_ok_def bh_on_probe_acked_def bh_on_non_probe_acked_def bh_on_non_probe_lost_def bh_black_hole_detected_def Let_def
      split: option.splits intro: le_trans [OF length_filter_le])

text \<open>A packet no larger than the minimum in a burst, or a larger packet that got through later, clears it.\<close>

lemma small_loss_not_suspicious:
  "bh_current_loss_burst b = Some burst \<Longrightarrow> lb_smallest_packet_size burst \<le> bh_min_mtu b \<Longrightarrow>
    bh_suspicious_loss_bursts (finish_loss_burst b) = bh_suspicious_loss_bursts b"
  by (simp add: finish_loss_burst_def Let_def)

lemma delivered_clears_bursts:
  "bh_acked_mtu b < len \<Longrightarrow> n \<in> set (bh_suspicious_loss_bursts (bh_on_non_probe_acked pn len b)) \<Longrightarrow> len < n"
  by (simp add: bh_on_non_probe_acked_def)

end
