(* ===== verification/Paths.thy ===== *)
theory Paths
  imports Ack_Frequency Mtu_Discovery
begin

text \<open>
  \<open>quic-proto/src/connection/pacing.rs\<close> and \<open>connection/paths.rs\<close>: the token bucket that paces packets, the
  counters of a path and the responses to path challenges. A panic is \<open>None\<close>. The results of the floating
  point computations are parameters, collected in a record: the theorems hold for any rounding.
\<close>

section \<open>Configuration\<close>

definition INITIAL_MTU :: nat where "INITIAL_MTU = 1200"

record transport_config =
  tc_packet_threshold :: nat
  tc_initial_rtt :: nat
  tc_initial_mtu :: nat
  tc_min_mtu :: nat
  tc_mtu_discovery_config :: "mtu_config option"
  tc_max_outgoing_bytes_per_second :: "nat option"
  tc_persistent_congestion_threshold :: nat
  tc_keep_alive_interval :: "nat option"
  tc_max_idle_timeout :: "nat option"
  tc_datagram_receive_buffer_size :: "nat option"
  tc_datagram_send_buffer_size :: nat
  tc_ack_frequency_config :: "ack_frequency_config option"
  tc_crypto_buffer_size :: nat
  tc_send_fairness :: bool
  tc_pad_to_mtu :: bool
  tc_enable_segmentation_offload :: bool
  tc_max_concurrent_bidi_streams :: nat
  tc_max_concurrent_uni_streams :: nat
  tc_stream_receive_window :: nat
  tc_receive_window :: nat
  tc_send_window :: nat
  tc_allow_spin :: bool

definition get_initial_mtu :: "transport_config \<Rightarrow> nat" where
  "get_initial_mtu config = max (tc_initial_mtu config) (tc_min_mtu config)"

text \<open>
  \<open>fl_rate_window rate rtt\<close> is \<open>(rate as f64 * rtt.as_secs_f64() / 1.25).round() as u64\<close>,
  \<open>fl_new_tokens window elapsed rtt\<close> is \<open>(window as f64 * 1.25 * (elapsed / rtt)).round() as u64\<close> and
  \<open>fl_mul_f32 rtt\<close> is \<open>rtt.mul_f32(config.time_threshold)\<close>.
\<close>

record float_ops =
  fl_rate_window :: "nat \<Rightarrow> nat \<Rightarrow> nat"
  fl_new_tokens :: "nat \<Rightarrow> nat \<Rightarrow> nat \<Rightarrow> nat"
  fl_mul_f32 :: "nat \<Rightarrow> nat"

section \<open>Pacing\<close>

definition TARGET_BURST_INTERVAL :: nat where "TARGET_BURST_INTERVAL = 2000000"
definition MAX_BURST_INTERVAL :: nat where "MAX_BURST_INTERVAL = 10000000"
definition MIN_BURST_SIZE :: nat where "MIN_BURST_SIZE = 10"
definition MAX_BURST_SIZE :: nat where "MAX_BURST_SIZE = 256"

text \<open>\<open>Duration::MAX\<close> in nanoseconds.\<close>

definition DURATION_MAX :: nat where "DURATION_MAX = 2 ^ 64 * 10 ^ 9 - 1"

record pacer =
  pc_capacity :: nat
  pc_last_window :: nat
  pc_last_mtu :: nat
  pc_tokens :: nat
  pc_max_bytes_per_second :: "nat option"
  pc_prev :: nat

definition rate_limited_window :: "float_ops \<Rightarrow> nat \<Rightarrow> nat \<Rightarrow> nat option \<Rightarrow> nat" where
  "rate_limited_window fl smoothed_rtt win max_bytes_per_second =
     (case max_bytes_per_second of
        None \<Rightarrow> win
      | Some rate \<Rightarrow> min win (max (fl_rate_window fl rate smoothed_rtt) 1))"

definition optimal_capacity :: "nat \<Rightarrow> nat \<Rightarrow> nat \<Rightarrow> nat" where
  "optimal_capacity smoothed_rtt win mtu =
     (let rtt = max smoothed_rtt 1;
          target_capacity = (win * TARGET_BURST_INTERVAL div rtt) mod 2 ^ 64;
          max_capacity = max ((win * MAX_BURST_INTERVAL div rtt) mod 2 ^ 64) mtu in
      min max_capacity (min (max target_capacity (MIN_BURST_SIZE * mtu)) (MAX_BURST_SIZE * mtu)))"

definition pacer_new :: "float_ops \<Rightarrow> nat \<Rightarrow> nat \<Rightarrow> nat \<Rightarrow> nat option \<Rightarrow> nat \<Rightarrow> pacer" where
  "pacer_new fl smoothed_rtt win mtu max_bytes_per_second now =
     (let w = rate_limited_window fl smoothed_rtt win max_bytes_per_second;
          capacity = optimal_capacity smoothed_rtt w mtu in
      \<lparr>pc_capacity = capacity, pc_last_window = w, pc_last_mtu = mtu, pc_tokens = capacity,
       pc_max_bytes_per_second = max_bytes_per_second, pc_prev = now\<rparr>)"

definition on_transmit :: "nat \<Rightarrow> pacer \<Rightarrow> pacer" where
  "on_transmit packet_length p = p\<lparr>pc_tokens := saturating_sub (pc_tokens p) packet_length\<rparr>"

definition pacer_resize :: "nat \<Rightarrow> nat \<Rightarrow> nat \<Rightarrow> pacer \<Rightarrow> pacer" where
  "pacer_resize smoothed_rtt w mtu p =
     (if w \<noteq> pc_last_window p \<or> mtu \<noteq> pc_last_mtu p then
        let capacity = optimal_capacity smoothed_rtt w mtu in
        p\<lparr>pc_capacity := capacity, pc_tokens := min capacity (pc_tokens p), pc_last_window := w, pc_last_mtu := mtu\<rparr>
      else p)"

text \<open>The outer option is the panic of a division by an empty window, the inner one the answer.\<close>

definition pacer_delay :: "float_ops \<Rightarrow> nat \<Rightarrow> nat \<Rightarrow> nat \<Rightarrow> nat \<Rightarrow> nat \<Rightarrow> pacer \<Rightarrow> (nat option \<times> pacer) option" where
  "pacer_delay fl smoothed_rtt bytes_to_send mtu win now p0 =
     (let w = rate_limited_window fl smoothed_rtt win (pc_max_bytes_per_second p0);
          p = pacer_resize smoothed_rtt w mtu p0 in
      if bytes_to_send \<le> pc_tokens p then Some (None, p)
      else if u32_max < w then Some (None, p)
      else
        let time_elapsed = now - pc_prev p in
        if smoothed_rtt = 0 then Some (None, p)
        else
          let new_tokens = fl_new_tokens fl w time_elapsed smoothed_rtt;
              p1 = p\<lparr>pc_tokens := min (saturating_add (pc_tokens p) new_tokens) (pc_capacity p)\<rparr>;
              p2 = (if 0 < new_tokens then p1\<lparr>pc_prev := now\<rparr> else p1) in
          if bytes_to_send \<le> pc_tokens p2 then Some (None, p2)
          else if w = 0 then None
          else
            let unscaled_delay = min (smoothed_rtt * ((max bytes_to_send (pc_capacity p2) - pc_tokens p2) mod 2 ^ 32)) DURATION_MAX div w in
            Some (Some (now + unscaled_delay div 5 * 4), p2))"

section \<open>Bytes in flight\<close>

record in_flight =
  if_bytes :: nat
  if_ack_eliciting :: nat

definition in_flight_new :: in_flight where
  "in_flight_new = \<lparr>if_bytes = 0, if_ack_eliciting = 0\<rparr>"

definition in_flight_insert :: "sent_packet \<Rightarrow> in_flight \<Rightarrow> in_flight" where
  "in_flight_insert packet f =
     \<lparr>if_bytes = if_bytes f + sk_size packet, if_ack_eliciting = if_ack_eliciting f + of_bool (sk_ack_eliciting packet)\<rparr>"

definition in_flight_remove :: "sent_packet \<Rightarrow> in_flight \<Rightarrow> in_flight" where
  "in_flight_remove packet f =
     \<lparr>if_bytes = wrapping_sub (if_bytes f) (sk_size packet),
      if_ack_eliciting = wrapping_sub (if_ack_eliciting f) (of_bool (sk_ack_eliciting packet))\<rparr>"

section \<open>Responses to path challenges\<close>

record path_response =
  pr_packet :: nat
  pr_token :: nat
  pr_remote :: socket_addr

definition MAX_PATH_RESPONSES :: nat where "MAX_PATH_RESPONSES = 16"

fun update_first :: "('a \<Rightarrow> bool) \<Rightarrow> ('a \<Rightarrow> 'a) \<Rightarrow> 'a list \<Rightarrow> 'a list" where
  "update_first P f [] = []"
| "update_first P f (x # xs) = (if P x then f x # xs else x # update_first P f xs)"

definition responses_push :: "nat \<Rightarrow> nat \<Rightarrow> socket_addr \<Rightarrow> path_response list \<Rightarrow> path_response list" where
  "responses_push packet token remote pending =
     (let response = \<lparr>pr_packet = packet, pr_token = token, pr_remote = remote\<rparr> in
      if \<exists>x \<in> set pending. pr_remote x = remote then
        update_first (\<lambda>x. pr_remote x = remote) (\<lambda>x. if pr_packet x \<le> packet then response else x) pending
      else if length pending < MAX_PATH_RESPONSES then pending @ [response]
      else pending)"

definition pop_off_path :: "socket_addr \<Rightarrow> path_response list \<Rightarrow> (nat \<times> socket_addr) option \<times> path_response list" where
  "pop_off_path remote pending =
     (if pending = [] then (None, pending)
      else
        let response = last pending in
        if pr_remote response = remote then (None, pending) else (Some (pr_token response, pr_remote response), butlast pending))"

definition pop_on_path :: "socket_addr \<Rightarrow> path_response list \<Rightarrow> nat option \<times> path_response list" where
  "pop_on_path remote pending =
     (if pending = [] then (None, pending)
      else
        let response = last pending in
        if pr_remote response \<noteq> remote then (None, pending) else (Some (pr_token response), butlast pending))"

section \<open>Paths\<close>

record 'c path_data =
  pd_remote :: socket_addr
  pd_rtt :: rtt_estimator
  pd_sending_ecn :: bool
  pd_congestion :: 'c
  pd_pacing :: pacer
  pd_challenge :: "nat option"
  pd_challenge_pending :: bool
  pd_validated :: bool
  pd_total_sent :: nat
  pd_total_recvd :: nat
  pd_mtud :: mtu_discovery
  pd_first_packet_after_rtt_sample :: "(space_id \<times> nat) option"
  pd_in_flight :: in_flight
  pd_first_packet :: "nat option"
  pd_generation :: nat

definition path_new ::
    "float_ops \<Rightarrow> 'c controller \<Rightarrow> socket_addr \<Rightarrow> bool \<Rightarrow> nat option \<Rightarrow> nat \<Rightarrow> nat \<Rightarrow> transport_config \<Rightarrow> 'c path_data" where
  "path_new fl ctl remote allow_mtud peer_max_udp_payload_size generation now config =
     (let congestion = ctl_build ctl now (get_initial_mtu config) in
      \<lparr>pd_remote = remote, pd_rtt = rtt_new (tc_initial_rtt config), pd_sending_ecn = True, pd_congestion = congestion,
       pd_pacing = pacer_new fl (tc_initial_rtt config) (ctl_initial_window ctl congestion) (get_initial_mtu config)
         (tc_max_outgoing_bytes_per_second config) now,
       pd_challenge = None, pd_challenge_pending = False, pd_validated = False, pd_total_sent = 0, pd_total_recvd = 0,
       pd_mtud = (case tc_mtu_discovery_config config of
           Some mtud_config \<Rightarrow>
             if allow_mtud then md_new (get_initial_mtu config) (tc_min_mtu config) peer_max_udp_payload_size mtud_config
             else md_disabled (get_initial_mtu config) (tc_min_mtu config)
         | None \<Rightarrow> md_disabled (get_initial_mtu config) (tc_min_mtu config)),
       pd_first_packet_after_rtt_sample = None, pd_in_flight = in_flight_new, pd_first_packet = None,
       pd_generation = generation\<rparr>)"

definition path_from_previous :: "float_ops \<Rightarrow> 'c controller \<Rightarrow> socket_addr \<Rightarrow> 'c path_data \<Rightarrow> nat \<Rightarrow> nat \<Rightarrow> 'c path_data" where
  "path_from_previous fl ctl remote prev generation now =
     (let congestion = pd_congestion prev; smoothed_rtt = rtt_get (pd_rtt prev) in
      \<lparr>pd_remote = remote, pd_rtt = pd_rtt prev, pd_sending_ecn = True, pd_congestion = congestion,
       pd_pacing = pacer_new fl smoothed_rtt (ctl_window ctl congestion) (md_current_mtu (pd_mtud prev))
         (pc_max_bytes_per_second (pd_pacing prev)) now,
       pd_challenge = None, pd_challenge_pending = False, pd_validated = False, pd_total_sent = 0, pd_total_recvd = 0,
       pd_mtud = pd_mtud prev, pd_first_packet_after_rtt_sample = pd_first_packet_after_rtt_sample prev,
       pd_in_flight = in_flight_new, pd_first_packet = None, pd_generation = generation\<rparr>)"

definition path_reset :: "'c controller \<Rightarrow> nat \<Rightarrow> transport_config \<Rightarrow> 'c path_data \<Rightarrow> 'c path_data" where
  "path_reset ctl now config p =
     p\<lparr>pd_rtt := rtt_new (tc_initial_rtt config), pd_congestion := ctl_build ctl now (get_initial_mtu config),
       pd_mtud := md_reset (get_initial_mtu config) (tc_min_mtu config) (pd_mtud p)\<rparr>"

text \<open>The products and sums of bytes sent and received on a path stay below \<open>2^64\<close>.\<close>

definition anti_amplification_blocked :: "nat \<Rightarrow> 'c path_data \<Rightarrow> bool" where
  "anti_amplification_blocked bytes_to_send p \<longleftrightarrow> \<not> pd_validated p \<and> pd_total_recvd p * 3 < pd_total_sent p + bytes_to_send"

definition path_current_mtu :: "'c path_data \<Rightarrow> nat" where
  "path_current_mtu p = md_current_mtu (pd_mtud p)"

definition path_remove_in_flight :: "sent_packet \<Rightarrow> 'c path_data \<Rightarrow> bool \<times> 'c path_data" where
  "path_remove_in_flight packet p =
     (if sk_path_generation packet \<noteq> pd_generation p then (False, p)
      else (True, p\<lparr>pd_in_flight := in_flight_remove packet (pd_in_flight p)\<rparr>))"

definition path_sent :: "nat \<Rightarrow> sent_packet \<Rightarrow> 'k packet_space \<Rightarrow> 'c path_data \<Rightarrow> ('k packet_space \<times> 'c path_data) option" where
  "path_sent pn packet sp p =
     (let p1 = p\<lparr>pd_in_flight := in_flight_insert packet (pd_in_flight p)\<rparr>;
          p2 = (if pd_first_packet p1 = None then p1\<lparr>pd_first_packet := Some pn\<rparr> else p1) in
      case space_sent pn packet sp of
        None \<Rightarrow> None
      | Some (None, sp') \<Rightarrow> Some (sp', p2)
      | Some (Some forgotten, sp') \<Rightarrow> Some (sp', snd (path_remove_in_flight forgotten p2)))"

section \<open>The pacer is a token bucket\<close>

definition pacer_ok :: "pacer \<Rightarrow> bool" where
  "pacer_ok p \<longleftrightarrow> pc_tokens p \<le> pc_capacity p \<and> pc_last_mtu p \<le> pc_capacity p \<and> pc_capacity p \<le> MAX_BURST_SIZE * pc_last_mtu p"

lemma optimal_capacity_bounds:
  "mtu \<le> optimal_capacity smoothed_rtt win mtu \<and> optimal_capacity smoothed_rtt win mtu \<le> MAX_BURST_SIZE * mtu"
proof -
  have "mtu \<le> min (max b mtu) (min (max a (10 * mtu)) (256 * mtu)) \<and> min (max b mtu) (min (max a (10 * mtu)) (256 * mtu)) \<le> 256 * mtu" for a b :: nat
    by linarith
  then show ?thesis by (simp only: optimal_capacity_def MIN_BURST_SIZE_def MAX_BURST_SIZE_def Let_def)
qed

lemma pacer_new_ok: "pacer_ok (pacer_new fl smoothed_rtt win mtu max_bytes_per_second now)"
  using optimal_capacity_bounds by (simp add: pacer_new_def pacer_ok_def Let_def)

lemma on_transmit_ok: "pacer_ok p \<Longrightarrow> pacer_ok (on_transmit n p)"
  by (auto simp: on_transmit_def pacer_ok_def saturating_sub_def)

lemma pacer_resize_ok: "pacer_ok p \<Longrightarrow> pacer_ok (pacer_resize smoothed_rtt w mtu p) \<and> pc_last_mtu (pacer_resize smoothed_rtt w mtu p) = mtu"
  using optimal_capacity_bounds by (auto simp: pacer_resize_def pacer_ok_def Let_def)

lemma rate_limited_window_pos: "0 < win \<Longrightarrow> 0 < rate_limited_window fl smoothed_rtt win limit"
  by (auto simp: rate_limited_window_def split: option.splits)

lemma rate_limited_window_le: "rate_limited_window fl smoothed_rtt win limit \<le> win"
  by (auto simp: rate_limited_window_def split: option.splits)

text \<open>C33: The pacer is a token bucket whose capacity lies between one and 256 datagrams, whatever the floating
  point rounding. With a non-empty congestion window the delay is always computed (no division by zero), the
  bucket never holds more than its capacity, and the answer is right in both directions: sending at once
  is allowed only when the bucket holds the bytes (or pacing is off, for windows above \<open>u32::MAX\<close> or a zero
  round trip), and a delay, never in the past, is given only when it does not. The bucket does not starve
  the connection: a datagram goes out at once when the time since the last refill has produced its size in
  tokens.\<close>

theorem pacer_token_bucket:
  assumes "pacer_ok p" "0 < win"
  shows "case pacer_delay fl rtt bytes mtu win now p of
      None \<Rightarrow> False
    | Some (d, p') \<Rightarrow>
        pacer_ok p' \<and> pc_last_mtu p' = mtu \<and>
        (case d of
           None \<Rightarrow> bytes \<le> pc_tokens p' \<or> u32_max < win \<or> rtt = 0
         | Some t \<Rightarrow> now \<le> t \<and> pc_tokens p' < bytes) \<and>
        (bytes \<le> mtu \<longrightarrow>
          bytes \<le> fl_new_tokens fl (rate_limited_window fl rtt win (pc_max_bytes_per_second p)) (now - pc_prev p) rtt \<longrightarrow>
          bytes \<le> u64_max \<longrightarrow> d = None)"
proof -
  define w where "w = rate_limited_window fl rtt win (pc_max_bytes_per_second p)"
  define q where "q = pacer_resize rtt w mtu p"
  have w: "0 < w" "w \<le> win" using rate_limited_window_pos [OF assms(2)] rate_limited_window_le by (simp_all add: w_def)
  have q: "pacer_ok q" "pc_last_mtu q = mtu" using pacer_resize_ok [OF assms(1)] by (simp_all add: q_def)
  have prev: "pc_prev q = pc_prev p" by (simp add: q_def pacer_resize_def Let_def)
  define new where "new = fl_new_tokens fl w (now - pc_prev p) rtt"
  define q' where "q' = (if 0 < new then q\<lparr>pc_tokens := min (saturating_add (pc_tokens q) new) (pc_capacity q), pc_prev := now\<rparr>
     else q\<lparr>pc_tokens := min (saturating_add (pc_tokens q) new) (pc_capacity q)\<rparr>)"
  have q': "pacer_ok q'" "pc_last_mtu q' = mtu" "pc_tokens q' = min (saturating_add (pc_tokens q) new) (pc_capacity q)"
    using q by (simp_all add: q'_def pacer_ok_def)
  have enough: "bytes \<le> pc_tokens q' \<or> mtu < bytes \<or> new < bytes \<or> u64_max < bytes"
    using q unfolding q'(3) saturating_add_def pacer_ok_def by linarith
  have eq: "pacer_delay fl rtt bytes mtu win now p =
     (if bytes \<le> pc_tokens q \<or> u32_max < w \<or> rtt = 0 then Some (None, q)
      else if bytes \<le> pc_tokens q' then Some (None, q')
      else Some (Some (now + min (rtt * ((max bytes (pc_capacity q') - pc_tokens q') mod 2 ^ 32)) DURATION_MAX div w div 5 * 4), q'))"
    using w(1) [THEN gr_implies_not0] unfolding pacer_delay_def w_def [symmetric] q_def [symmetric] Let_def prev new_def [symmetric] q'_def
    by (cases "bytes \<le> pc_tokens q"; cases "u32_max < w"; cases "rtt = 0"; cases "0 < new"; simp only: simp_thms if_True if_False)
  show ?thesis unfolding eq w_def [symmetric] new_def [symmetric]
    using q q'(1,2) w(2) enough by auto
qed

text \<open>With no rounding and an idle connection: 10 datagrams fit, the eleventh waits.\<close>

definition example_float :: float_ops where
  "example_float = \<lparr>fl_rate_window = \<lambda>rate rtt. rate * rtt div 1250000000, fl_new_tokens = \<lambda>w elapsed rtt. w * 5 * elapsed div (4 * rtt),
     fl_mul_f32 = \<lambda>rtt. rtt * 9 div 8\<rparr>"

definition example_pacer :: pacer where
  "example_pacer = on_transmit 12000 (pacer_new example_float 10000000 12000 1200 None 0)"

theorem pacer_token_bucket_witness:
  "pc_capacity example_pacer = 12000 \<and> pc_tokens example_pacer = 0 \<and>
   (case pacer_delay example_float 10000000 1200 1200 12000 0 example_pacer of
      Some (Some t, p') \<Rightarrow> pacer_ok p' \<and> t = 8000000 | _ \<Rightarrow> False) \<and>
   (case pacer_delay example_float 10000000 1200 1200 12000 1000000 example_pacer of
      Some (None, p') \<Rightarrow> pacer_ok p' \<and> pc_tokens p' = 1500 | _ \<Rightarrow> False)"
proof -
  have ok: "pacer_ok example_pacer" unfolding example_pacer_def by (intro on_transmit_ok pacer_new_ok)
  have c: "pc_capacity example_pacer = 12000 \<and> pc_tokens example_pacer = 0" by code_simp
  have d: "pacer_delay example_float 10000000 1200 1200 12000 0 example_pacer =
      Some (Some 8000000, \<lparr>pc_capacity = 12000, pc_last_window = 12000, pc_last_mtu = 1200, pc_tokens = 0, pc_max_bytes_per_second = None, pc_prev = 0\<rparr>)"
    "pacer_delay example_float 10000000 1200 1200 12000 1000000 example_pacer =
      Some (None, \<lparr>pc_capacity = 12000, pc_last_window = 12000, pc_last_mtu = 1200, pc_tokens = 1500, pc_max_bytes_per_second = None, pc_prev = 1000000\<rparr>)"
    by code_simp+
  show ?thesis
    using c pacer_token_bucket [OF ok, where win = 12000 and fl = example_float and rtt = 10000000 and bytes = 1200 and mtu = 1200 and now = 0, unfolded d]
      pacer_token_bucket [OF ok, where win = 12000 and fl = example_float and rtt = 10000000 and bytes = 1200 and mtu = 1200 and now = 1000000, unfolded d] by (simp add: d)
qed

section \<open>Responses to path challenges\<close>

definition responses_ok :: "path_response list \<Rightarrow> bool" where
  "responses_ok pending \<longleftrightarrow> distinct (map pr_remote pending) \<and> length pending \<le> MAX_PATH_RESPONSES"

text \<open>What is pending for an address.\<close>

definition response_for :: "socket_addr \<Rightarrow> path_response list \<Rightarrow> path_response option" where
  "response_for remote pending = List.find (\<lambda>x. pr_remote x = remote) pending"

lemma find_append: "List.find P (xs @ ys) = (case List.find P xs of None \<Rightarrow> List.find P ys | Some x \<Rightarrow> Some x)"
  by (induction xs) auto

lemma find_update_first:
  assumes "\<And>x. g x = b \<Longrightarrow> g (f x) = b"
  shows "List.find (\<lambda>x. g x = a) (update_first (\<lambda>x. g x = b) f xs) =
    (if a = b then map_option f (List.find (\<lambda>x. g x = a) xs) else List.find (\<lambda>x. g x = a) xs)"
  using assms by (induction xs) auto

lemma response_for_push:
  "response_for a (responses_push packet token remote pending) =
     (if a \<noteq> remote then response_for a pending
      else case response_for remote pending of
         None \<Rightarrow> if length pending < MAX_PATH_RESPONSES then Some \<lparr>pr_packet = packet, pr_token = token, pr_remote = remote\<rparr> else None
       | Some r \<Rightarrow> if pr_packet r \<le> packet then Some \<lparr>pr_packet = packet, pr_token = token, pr_remote = remote\<rparr> else Some r)"
proof (cases "\<exists>x \<in> set pending. pr_remote x = remote")
  case True
  then have "List.find (\<lambda>x. pr_remote x = remote) pending \<noteq> None" by (auto simp: find_None_iff)
  then show ?thesis using True by (auto simp: response_for_def responses_push_def Let_def find_update_first)
next
  case False
  then have "List.find (\<lambda>x. pr_remote x = remote) pending = None" by (auto simp: find_None_iff)
  then show ?thesis using False by (auto simp: response_for_def responses_push_def find_append split: option.splits)
qed

lemma responses_push_ok: "responses_ok pending \<Longrightarrow> responses_ok (responses_push packet token remote pending)"
proof -
  assume ok: "responses_ok pending"
  let ?r = "\<lparr>pr_packet = packet, pr_token = token, pr_remote = remote\<rparr>"
  have m: "map pr_remote (update_first (\<lambda>x. pr_remote x = remote) (\<lambda>x. if pr_packet x \<le> packet then ?r else x) pending) = map pr_remote pending"
    by (induction pending) auto
  have "length (update_first P f xs) = length xs" for P f and xs :: "path_response list" by (induction xs) auto
  then show ?thesis using ok m
    by (auto simp: responses_push_def responses_ok_def Let_def)
qed

text \<open>Every response that is pending leaves by exactly one of the two exits: the last one by
  \<^const>\<open>pop_on_path\<close> when it is for the current address, by \<^const>\<open>pop_off_path\<close> otherwise.\<close>

lemma pop_responses:
  assumes "pending \<noteq> []"
  shows "if pr_remote (last pending) = remote
    then pop_on_path remote pending = (Some (pr_token (last pending)), butlast pending) \<and> pop_off_path remote pending = (None, pending)
    else pop_off_path remote pending = (Some (pr_token (last pending), pr_remote (last pending)), butlast pending) \<and> pop_on_path remote pending = (None, pending)"
  using assms by (simp add: pop_on_path_def pop_off_path_def Let_def)

lemma butlast_responses_ok: "responses_ok pending \<Longrightarrow> responses_ok (butlast pending)"
  by (auto simp: responses_ok_def map_butlast distinct_butlast)

end
