(* ===== verification/Datagrams.thy ===== *)
theory Datagrams
  imports Frame
begin

text \<open>
  \<open>quic-proto/src/connection/datagrams.rs\<close>: the buffers of unreliable datagrams. The part of the connection the
  operations look at (configuration, MTU and overhead of the path, limit of the peer) is passed to them. \<open>None\<close> is
  a panic, and in \<open>received\<close> also a loop that does not end.
\<close>

section \<open>The buffers\<close>

record datagram_state =
  dg_recv_buffered :: nat
  dg_incoming :: "bytes list"
  dg_outgoing :: "bytes list"
  dg_outgoing_total :: nat
  dg_send_blocked :: bool

definition dg_default :: datagram_state where
  "dg_default = \<lparr>dg_recv_buffered = 0, dg_incoming = [], dg_outgoing = [], dg_outgoing_total = 0, dg_send_blocked = False\<rparr>"

datatype send_datagram_error = UnsupportedByPeer | DatagramsDisabled | TooLarge | DatagramBlocked bytes

definition DATAGRAM_SIZE_BOUND :: nat where "DATAGRAM_SIZE_BOUND = 1 + 8"

definition dg_max_size :: "nat \<Rightarrow> nat \<Rightarrow> nat option \<Rightarrow> nat option" where
  "dg_max_size mtu overhead max_datagram_frame_size =
     (let max_size = wrapping_sub (wrapping_sub mtu overhead) DATAGRAM_SIZE_BOUND in
      map_option (\<lambda>x. min (saturating_sub x DATAGRAM_SIZE_BOUND) max_size) max_datagram_frame_size)"

fun drop_outgoing :: "nat \<Rightarrow> bytes list \<Rightarrow> nat \<Rightarrow> (bytes list \<times> nat) option" where
  "drop_outgoing sz [] tot = (if sz < tot then None else Some ([], tot))"
| "drop_outgoing sz (d # ds) tot = (if sz < tot then drop_outgoing sz ds (wrapping_sub tot (length d)) else Some (d # ds, tot))"

definition dg_send ::
    "nat option \<Rightarrow> nat \<Rightarrow> nat option \<Rightarrow> bytes \<Rightarrow> bool \<Rightarrow> datagram_state \<Rightarrow>
       ((send_datagram_error + unit) \<times> datagram_state) option" where
  "dg_send receive_buffer_size send_buffer_size mx data may_drop s =
     (if receive_buffer_size = None then Some (Inl DatagramsDisabled, s)
      else
        (case mx of
           None \<Rightarrow> Some (Inl UnsupportedByPeer, s)
         | Some m \<Rightarrow>
             if m < length data then Some (Inl TooLarge, s)
             else if may_drop then
               map_option (\<lambda>(ds, tot). (Inr (), s\<lparr>dg_outgoing := ds @ [data], dg_outgoing_total := tot + length data\<rparr>))
                 (drop_outgoing send_buffer_size (dg_outgoing s) (dg_outgoing_total s))
             else if send_buffer_size < dg_outgoing_total s + length data then
               Some (Inl (DatagramBlocked data), s\<lparr>dg_send_blocked := True\<rparr>)
             else Some (Inr (), s\<lparr>dg_outgoing := dg_outgoing s @ [data], dg_outgoing_total := dg_outgoing_total s + length data\<rparr>)))"

definition dg_send_buffer_space :: "nat \<Rightarrow> datagram_state \<Rightarrow> nat" where
  "dg_send_buffer_space send_buffer_size s = saturating_sub send_buffer_size (dg_outgoing_total s)"

definition dg_recv :: "datagram_state \<Rightarrow> bytes option \<times> datagram_state" where
  "dg_recv s =
     (case dg_incoming s of
        [] \<Rightarrow> (None, s)
      | d # ds \<Rightarrow> (Some d, s\<lparr>dg_incoming := ds, dg_recv_buffered := wrapping_sub (dg_recv_buffered s) (length d)\<rparr>))"

text \<open>The loop that drops stale datagrams; with nothing left to drop it would go on for ever.\<close>

fun drop_stale :: "nat \<Rightarrow> nat \<Rightarrow> bytes list \<Rightarrow> nat \<Rightarrow> (bytes list \<times> nat) option" where
  "drop_stale win len [] buffered = (if win < len + buffered then None else Some ([], buffered))"
| "drop_stale win len (d # ds) buffered =
     (if win < len + buffered then drop_stale win len ds (wrapping_sub buffered (length d)) else Some (d # ds, buffered))"

definition dg_received :: "bytes \<Rightarrow> nat option \<Rightarrow> datagram_state \<Rightarrow> ((transport_error + bool) \<times> datagram_state) option" where
  "dg_received data win s =
     (case win of
        None \<Rightarrow> Some (Inl (te_new PROTOCOL_VIOLATION ''unexpected DATAGRAM frame''), s)
      | Some w \<Rightarrow>
          if w < length data then Some (Inl (te_new PROTOCOL_VIOLATION ''oversized datagram''), s)
          else
            map_option (\<lambda>(ds, buffered). (Inr (dg_recv_buffered s = 0),
                s\<lparr>dg_incoming := ds @ [data], dg_recv_buffered := buffered + length data\<rparr>))
              (drop_stale w (length data) (dg_incoming s) (dg_recv_buffered s)))"

text \<open>\<open>retain\<close> visits the datagrams in order and subtracts the size of each one it drops.\<close>

definition dg_drop_oversized :: "nat \<Rightarrow> datagram_state \<Rightarrow> bool \<times> datagram_state" where
  "dg_drop_oversized max_payload s =
     (let dropped = filter (\<lambda>d. \<not> length d < max_payload) (dg_outgoing s) in
      (dropped \<noteq> [], s\<lparr>dg_outgoing := filter (\<lambda>d. length d < max_payload) (dg_outgoing s),
         dg_outgoing_total := foldl (\<lambda>tot d. wrapping_sub tot (length d)) (dg_outgoing_total s) dropped\<rparr>))"

definition dg_write :: "bytes \<Rightarrow> nat \<Rightarrow> datagram_state \<Rightarrow> (bool \<times> bytes \<times> datagram_state) option" where
  "dg_write buf max_size s =
     (case dg_outgoing s of
        [] \<Rightarrow> Some (False, buf, s)
      | d # ds \<Rightarrow>
          (case datagram_size d True of
             None \<Rightarrow> None
           | Some sz \<Rightarrow>
               if max_size < length buf + sz then Some (False, buf, s)
               else
                 map_option (\<lambda>bs. (True, buf @ bs, s\<lparr>dg_outgoing := ds, dg_outgoing_total := wrapping_sub (dg_outgoing_total s) (length d)\<rparr>))
                   (datagram_encode d True)))"

section \<open>The counters agree with the buffers\<close>

definition total_bytes :: "bytes list \<Rightarrow> nat" where
  "total_bytes ds = sum_list (map length ds)"

fun within_window :: "nat option \<Rightarrow> bytes list \<Rightarrow> nat \<Rightarrow> bool" where
  "within_window None ds n = (ds = [])"
| "within_window (Some w) ds n = (n \<le> w)"

definition dg_inv :: "nat option \<Rightarrow> datagram_state \<Rightarrow> bool" where
  "dg_inv win s \<longleftrightarrow> dg_recv_buffered s = total_bytes (dg_incoming s) \<and> dg_outgoing_total s = total_bytes (dg_outgoing s) \<and>
     (\<forall>d \<in> set (dg_outgoing s). length d < 2 ^ 62) \<and> within_window win (dg_incoming s) (dg_recv_buffered s)"

lemma total_bytes_simps [simp]: "total_bytes [] = 0" "total_bytes (d # ds) = length d + total_bytes ds"
  "total_bytes (ds @ es) = total_bytes ds + total_bytes es"
  by (simp_all add: total_bytes_def)

lemma wrapping_sub_ge [simp]: "b \<le> a \<Longrightarrow> wrapping_sub a b = a - b"
  by (simp add: wrapping_sub_le)

lemma drop_outgoing_correct:
  "tot = total_bytes ds \<Longrightarrow> \<exists>n. drop_outgoing sz ds tot = Some (drop n ds, total_bytes (drop n ds)) \<and> total_bytes (drop n ds) \<le> sz \<and>
     (n = 0 \<or> sz < tot)"
proof (induction sz ds tot rule: drop_outgoing.induct)
  case (2 sz d ds tot)
  show ?case
  proof (cases "sz < tot")
    case True
    with 2 obtain n where "drop_outgoing sz ds (total_bytes ds) = Some (drop n ds, total_bytes (drop n ds))" "total_bytes (drop n ds) \<le> sz"
      by auto
    with True 2(2) show ?thesis by (intro exI [of _ "Suc n"]) simp
  qed (use 2 in \<open>intro exI [of _ 0], auto\<close>)
qed auto

lemma drop_stale_correct:
  "buffered = total_bytes ds \<Longrightarrow> len \<le> win \<Longrightarrow> \<exists>n. drop_stale win len ds buffered = Some (drop n ds, total_bytes (drop n ds)) \<and>
     len + total_bytes (drop n ds) \<le> win \<and> (n = 0 \<or> win < len + buffered)"
proof (induction win len ds buffered rule: drop_stale.induct)
  case (2 win len d ds buffered)
  show ?case
  proof (cases "win < len + buffered")
    case True
    with 2 obtain n where "drop_stale win len ds (total_bytes ds) = Some (drop n ds, total_bytes (drop n ds))"
        "len + total_bytes (drop n ds) \<le> win"
      by auto
    with True 2(2) show ?thesis by (intro exI [of _ "Suc n"]) simp
  qed (use 2 in \<open>intro exI [of _ 0], auto\<close>)
qed auto

lemma foldl_sub: "total_bytes es \<le> t \<Longrightarrow> foldl (\<lambda>tot d. wrapping_sub tot (length d)) t es = t - total_bytes es"
  by (induction es arbitrary: t) auto

lemma total_bytes_filter: "total_bytes ds = total_bytes (filter P ds) + total_bytes (filter (\<lambda>d. \<not> P d) ds)"
  by (induction ds) auto

datatype datagram_op =
    OpSend "nat option" nat "nat option" bytes bool
  | OpReceived bytes
  | OpRecv
  | OpDropOversized nat
  | OpWrite bytes nat

fun dg_step :: "nat option \<Rightarrow> datagram_op \<Rightarrow> datagram_state \<Rightarrow> datagram_state option" where
  "dg_step win (OpSend rbs sbs mx data may_drop) s = map_option snd (dg_send rbs sbs mx data may_drop s)"
| "dg_step win (OpReceived data) s = map_option snd (dg_received data win s)"
| "dg_step win OpRecv s = Some (snd (dg_recv s))"
| "dg_step win (OpDropOversized max_payload) s = Some (snd (dg_drop_oversized max_payload s))"
| "dg_step win (OpWrite buf max_size) s = map_option (\<lambda>(_, _, s'). s') (dg_write buf max_size s)"

lemma datagram_writes:
  assumes "length d < 2 ^ 62"
  obtains n bs where "datagram_size d True = Some n" "datagram_encode d True = Some bs" "length bs = n"
proof -
  have v: "is_varint (length d)" using assms by (simp add: is_varint_iff)
  then obtain n where n: "datagram_size d True = Some n" by (auto simp: datagram_size_def varint_size_bytes)
  have "is_varint (DATAGRAM_TYS_start OR 1)" by (simp add: frame_types is_varint_iff)
  then obtain bs where bs: "datagram_encode d True = Some bs" using v
    by (auto simp: datagram_encode_def write_var_bytes wcat_var_Cons)
  show ?thesis using that [OF n bs] frame_sizes(7) n bs by simp
qed

fun op_fits :: "datagram_op \<Rightarrow> bool" where
  "op_fits (OpSend rbs sbs mx data may_drop) = (length data < 2 ^ 62)"
| "op_fits _ = True"

lemma dg_send_inv:
  assumes "dg_inv win s" "length data < 2 ^ 62"
  shows "\<exists>r s'. dg_send rbs sbs mx data may_drop s = Some (r, s') \<and> dg_inv win s'"
proof -
  obtain n where "drop_outgoing sbs (dg_outgoing s) (dg_outgoing_total s) = Some (drop n (dg_outgoing s), total_bytes (drop n (dg_outgoing s)))"
    using drop_outgoing_correct assms(1) unfolding dg_inv_def by blast
  then show ?thesis using assms by (cases mx) (auto simp: dg_send_def dg_inv_def dest: in_set_dropD)
qed

lemma dg_received_inv:
  assumes "dg_inv win s"
  shows "\<exists>r s'. dg_received data win s = Some (r, s') \<and> dg_inv win s'"
proof (cases win)
  case (Some w)
  show ?thesis
  proof (cases "w < length data")
    case False
    obtain n where "drop_stale w (length data) (dg_incoming s) (dg_recv_buffered s) = Some (drop n (dg_incoming s), total_bytes (drop n (dg_incoming s)))"
        "length data + total_bytes (drop n (dg_incoming s)) \<le> w"
      using drop_stale_correct [of "dg_recv_buffered s" "dg_incoming s" "length data" w] assms False by (auto simp: dg_inv_def)
    then show ?thesis using assms Some False by (auto simp: dg_received_def dg_inv_def)
  qed (use assms Some in \<open>simp add: dg_received_def\<close>)
qed (use assms in \<open>simp add: dg_received_def\<close>)

lemma dg_write_inv:
  assumes "dg_inv win s"
  shows "\<exists>r buf' s'. dg_write buf max_size s = Some (r, buf', s') \<and> dg_inv win s'"
proof (cases "dg_outgoing s")
  case (Cons d ds)
  then have "length d < 2 ^ 62" using assms by (auto simp: dg_inv_def)
  then obtain n bs where "datagram_size d True = Some n" "datagram_encode d True = Some bs" by (rule datagram_writes)
  then show ?thesis using assms Cons by (auto simp: dg_write_def dg_inv_def)
qed (use assms in \<open>auto simp: dg_write_def\<close>)

lemma dg_step_inv:
  assumes "dg_inv win s" "op_fits op"
  shows "\<exists>s'. dg_step win op s = Some s' \<and> dg_inv win s'"
proof (cases op)
  case (OpSend rbs sbs mx data may_drop)
  then show ?thesis using assms dg_send_inv [OF assms(1), of data rbs sbs mx may_drop] by auto
next
  case (OpReceived data)
  then show ?thesis using dg_received_inv [OF assms(1), of data] by auto
next
  case OpRecv
  then show ?thesis using assms by (cases win) (auto simp: dg_recv_def dg_inv_def split: list.splits)
next
  case (OpDropOversized m)
  let ?P = "\<lambda>d. length d < m"
  have "foldl (\<lambda>tot d. wrapping_sub tot (length d)) (dg_outgoing_total s) (filter (\<lambda>d. \<not> ?P d) (dg_outgoing s)) =
      total_bytes (filter ?P (dg_outgoing s))"
    using total_bytes_filter [of "dg_outgoing s" ?P] assms(1) by (subst foldl_sub) (auto simp: dg_inv_def)
  then show ?thesis using assms OpDropOversized by (auto simp: dg_drop_oversized_def dg_inv_def Let_def)
next
  case (OpWrite buf max_size)
  then show ?thesis using dg_write_inv [OF assms(1), of buf max_size] by auto
qed

fun dg_run :: "nat option \<Rightarrow> datagram_op list \<Rightarrow> datagram_state \<Rightarrow> datagram_state option" where
  "dg_run win [] s = Some s"
| "dg_run win (op # ops) s = (case dg_step win op s of None \<Rightarrow> None | Some s' \<Rightarrow> dg_run win ops s')"

lemma dg_run_inv: "dg_inv win s \<Longrightarrow> list_all op_fits ops \<Longrightarrow> \<exists>s'. dg_run win ops s = Some s' \<and> dg_inv win s'"
proof (induction ops arbitrary: s)
  case (Cons op ops)
  then obtain s' where "dg_step win op s = Some s'" "dg_inv win s'" using dg_step_inv by fastforce
  then show ?case using Cons by simp
qed simp

text \<open>
  C35: The datagram buffers never panic, loop or drift. However datagrams are queued, received, read, dropped and
  written, every operation returns, the byte counters equal the bytes buffered, and what is buffered for the
  application never exceeds the configured receive buffer.
\<close>

theorem datagram_buffers_consistent:
  assumes "list_all op_fits ops"
  shows "\<exists>s. dg_run win ops dg_default = Some s \<and> dg_recv_buffered s = total_bytes (dg_incoming s) \<and>
    dg_outgoing_total s = total_bytes (dg_outgoing s) \<and> (\<forall>w. win = Some w \<longrightarrow> total_bytes (dg_incoming s) \<le> w)"
proof -
  have "dg_inv win dg_default" by (cases win) (simp_all add: dg_inv_def dg_default_def)
  from dg_run_inv [OF this assms] show ?thesis by (auto simp: dg_inv_def)
qed

theorem datagram_buffers_consistent_witness:
  "\<exists>s. dg_run (Some 3) [OpReceived [1, 2], OpReceived [3, 4], OpSend (Some 3) 10 (Some 5) [9] True, OpRecv] dg_default = Some s \<and>
     dg_outgoing_total s = total_bytes (dg_outgoing s) \<and> total_bytes (dg_incoming s) \<le> 3"
  using datagram_buffers_consistent [of "[OpReceived [1, 2], OpReceived [3, 4], OpSend (Some 3) 10 (Some 5) [9] True, OpRecv]" "Some 3"]
  by auto

section \<open>The documented limits\<close>

text \<open>
  The documentation of the send buffer has older datagrams dropped until there is space for the new one. The code
  drops them until the buffer is within its limit and then adds the new one: the limit can be exceeded by a datagram.
\<close>

theorem send_buffer_exceeded:
  assumes "dg_outgoing_total s = total_bytes (dg_outgoing s)" "dg_outgoing_total s = sbs" "length data \<le> m" "0 < length data"
  shows "\<exists>s'. dg_send (Some w) sbs (Some m) data True s = Some (Inr (), s') \<and> total_bytes (dg_outgoing s') = sbs + length data"
proof -
  have "drop_outgoing sbs (dg_outgoing s) (dg_outgoing_total s) = Some (dg_outgoing s, sbs)"
    using assms(2) by (cases "dg_outgoing s") auto
  then show ?thesis using assms by (auto simp: dg_send_def)
qed

text \<open>
  \<open>drop_oversized\<close> is documented to discard datagrams larger than the limit. It also discards a datagram of
  exactly that size, which \<open>send\<close> accepts and \<open>write\<close> could transmit.
\<close>

theorem largest_datagram_dropped:
  assumes "dg_outgoing s = [data]" "length data = m" "dg_outgoing_total s = m"
  shows "dg_drop_oversized m s = (True, s\<lparr>dg_outgoing := [], dg_outgoing_total := 0\<rparr>) \<and>
    (\<exists>s'. dg_send (Some w) sbs (Some m) data True dg_default = Some (Inr (), s'))"
  using assms by (auto simp: dg_drop_oversized_def dg_send_def dg_default_def)

text \<open>What is written for a datagram is read by the peer as that datagram.\<close>

theorem datagram_written_is_read:
  assumes "dg_write buf max_size s = Some (True, buf', s')"
  shows "\<exists>d ds bs. dg_outgoing s = d # ds \<and> dg_outgoing s' = ds \<and> buf' = buf @ bs \<and> length buf' \<le> max_size \<and>
    (\<forall>rest. try_next (bs @ rest) = Inr (Datagram d, rest))"
proof -
  obtain d ds where d: "dg_outgoing s = d # ds" using assms by (auto simp: dg_write_def split: list.splits)
  obtain n bs where n: "datagram_size d True = Some n" "length buf + n \<le> max_size" "datagram_encode d True = Some bs"
      "buf' = buf @ bs" "dg_outgoing s' = ds"
    using assms d by (auto simp: dg_write_def split: option.splits if_splits)
  then show ?thesis using d frame_sizes(7) [OF n(3)] datagram_decode [OF n(3)] by auto
qed

end
