(* ===== verification/Cid_Queue.thy ===== *)
theory Cid_Queue
  imports Frame
begin

text \<open>
  \<open>quic-proto/src/cid_queue.rs\<close> and \<open>connection/cid_state.rs\<close>: the connection ids of the peer, in a ring
  buffer, and the book-keeping on those issued to the peer. A panic is \<open>None\<close>.
\<close>

section \<open>Connection ids of the peer\<close>

type_synonym cid_data = "connection_id \<times> bytes option"

record cid_queue =
  cq_buffer :: "cid_data option list"
  cq_cursor :: nat
  cq_offset :: nat

definition CID_QUEUE_LEN :: nat where "CID_QUEUE_LEN = 5"

datatype insert_error = Retired | ExceedsLimit

definition cq_new :: "connection_id \<Rightarrow> cid_queue" where
  "cq_new cid = \<lparr>cq_buffer = (replicate CID_QUEUE_LEN None)[0 := Some (cid, None)], cq_cursor = 0, cq_offset = 0\<rparr>"

definition cq_iter :: "cid_queue \<Rightarrow> (nat \<times> cid_data) list" where
  "cq_iter q = List.map_filter (\<lambda>step. map_option (Pair step) (cq_buffer q ! ((cq_cursor q + step) mod CID_QUEUE_LEN)))
     [0..<CID_QUEUE_LEN]"

fun cq_discard :: "nat \<Rightarrow> nat \<Rightarrow> cid_data option list \<Rightarrow> cid_data option list" where
  "cq_discard cursor 0 b = b"
| "cq_discard cursor (Suc n) b = (cq_discard cursor n b)[(cursor + n) mod CID_QUEUE_LEN := None]"

definition cq_insert ::
    "new_connection_id \<Rightarrow> cid_queue \<Rightarrow> ((insert_error + ((nat \<times> nat) \<times> bytes) option) \<times> cid_queue) option" where
  "cq_insert cid q =
     (case checked_sub (nci_sequence cid) (cq_offset q) of
        None \<Rightarrow> Some (Inl Retired, q)
      | Some index \<Rightarrow>
          let retired_count = saturating_sub (nci_retire_prior_to cid) (cq_offset q) in
          if CID_QUEUE_LEN + retired_count \<le> index then Some (Inl ExceedsLimit, q)
          else
            let b1 = cq_discard (cq_cursor q) (min retired_count CID_QUEUE_LEN) (cq_buffer q);
                q1 = q\<lparr>cq_buffer := b1[(cq_cursor q + index) mod CID_QUEUE_LEN := Some (nci_id cid, Some (nci_reset_token cid))]\<rparr> in
            if retired_count = 0 then Some (Inr None, q1)
            else
              let cursor = (cq_cursor q + retired_count) mod CID_QUEUE_LEN in
              (case cq_iter (q1\<lparr>cq_cursor := cursor\<rparr>) of
                 [] \<Rightarrow> None
               | (i, (_, token)) # _ \<Rightarrow>
                   let offset = nci_retire_prior_to cid + i;
                       q2 = q1\<lparr>cq_cursor := (cursor + i) mod CID_QUEUE_LEN, cq_offset := offset\<rparr> in
                   map_option (\<lambda>t. (Inr (Some ((cq_offset q, min offset (cq_offset q + CID_QUEUE_LEN)), t)), q2)) token))"

definition cq_next :: "cid_queue \<Rightarrow> ((bytes \<times> (nat \<times> nat)) option \<times> cid_queue) option" where
  "cq_next q =
     (case cq_iter q of
        _ # (i, (_, token)) # _ \<Rightarrow>
          let q' = \<lparr>cq_buffer = (cq_buffer q)[cq_cursor q := None], cq_cursor = (cq_cursor q + i) mod CID_QUEUE_LEN,
                cq_offset = cq_offset q + i\<rparr> in
          map_option (\<lambda>t. (Some (t, (cq_offset q, cq_offset q')), q')) token
      | _ \<Rightarrow> Some (None, q))"

definition cq_update_initial_cid :: "connection_id \<Rightarrow> cid_queue \<Rightarrow> cid_queue" where
  "cq_update_initial_cid cid q = q\<lparr>cq_buffer := (cq_buffer q)[cq_cursor q := Some (cid, None)]\<rparr>"

definition cq_active :: "cid_queue \<Rightarrow> connection_id option" where
  "cq_active q = map_option fst (cq_buffer q ! cq_cursor q)"

definition cq_active_seq :: "cid_queue \<Rightarrow> nat" where
  "cq_active_seq q = cq_offset q"

section \<open>Connection ids issued to the peer\<close>

text \<open>
  Times are natural numbers; \<open>expires now lifetime\<close> is \<open>Instant::checked_add\<close>, which the platform may refuse.
\<close>

record cid_timestamp =
  ct_sequence :: nat
  ct_timestamp :: nat

record cid_state =
  cs_retire_timestamp :: "cid_timestamp list"
  cs_issued :: nat
  cs_active_seq :: "nat list"
  cs_prev_retire_seq :: nat
  cs_retire_seq :: nat
  cs_cid_len :: nat
  cs_cid_lifetime :: "nat option"

definition track_lifetime :: "(nat \<Rightarrow> nat \<Rightarrow> nat option) \<Rightarrow> nat \<Rightarrow> nat \<Rightarrow> cid_state \<Rightarrow> cid_state" where
  "track_lifetime expires new_cid_seq now s =
     (case cs_cid_lifetime s of
        None \<Rightarrow> s
      | Some lifetime \<Rightarrow>
          (case expires now lifetime of
             None \<Rightarrow> s
           | Some expire_at \<Rightarrow>
               let ts = cs_retire_timestamp s in
               if ts \<noteq> [] \<and> ct_timestamp (last ts) = expire_at then
                 s\<lparr>cs_retire_timestamp := butlast ts @ [(last ts)\<lparr>ct_sequence := new_cid_seq\<rparr>]\<rparr>
               else s\<lparr>cs_retire_timestamp := ts @ [\<lparr>ct_sequence = new_cid_seq, ct_timestamp = expire_at\<rparr>]\<rparr>))"

definition seq_insert :: "nat \<Rightarrow> nat list \<Rightarrow> nat list" where
  "seq_insert n ns = (if n \<in> set ns then ns else ns @ [n])"

definition cid_state_new :: "(nat \<Rightarrow> nat \<Rightarrow> nat option) \<Rightarrow> nat \<Rightarrow> nat option \<Rightarrow> nat \<Rightarrow> nat \<Rightarrow> cid_state" where
  "cid_state_new expires cid_len cid_lifetime now issued =
     foldl (\<lambda>s seq. track_lifetime expires seq now s)
       \<lparr>cs_retire_timestamp = [], cs_issued = issued, cs_active_seq = foldl (\<lambda>ns n. seq_insert n ns) [] [0..<issued],
        cs_prev_retire_seq = 0, cs_retire_seq = 0, cs_cid_len = cid_len, cs_cid_lifetime = cid_lifetime\<rparr>
       [0..<issued]"

definition next_timeout :: "cid_state \<Rightarrow> nat option" where
  "next_timeout s = (case cs_retire_timestamp s of [] \<Rightarrow> None | t # _ \<Rightarrow> Some (ct_timestamp t))"

definition on_cid_timeout :: "cid_state \<Rightarrow> bool \<times> cid_state" where
  "on_cid_timeout s =
     (let active = (\<lambda>a b. \<exists>n \<in> set [a..<b]. n \<in> set (cs_active_seq s));
          unretired_ids_found = active (cs_prev_retire_seq s) (cs_retire_seq s);
          current_retire_prior_to = cs_retire_seq s;
          (next_retire_sequence, ts) = (case cs_retire_timestamp s of
             [] \<Rightarrow> (None, []) | t # ts \<Rightarrow> (Some (ct_sequence t + 1), ts));
          s1 = s\<lparr>cs_retire_timestamp := ts\<rparr>;
          s2 = (if \<not> unretired_ids_found then
                  s1\<lparr>cs_prev_retire_seq := cs_retire_seq s,
                    cs_retire_seq := (case next_retire_sequence of Some n \<Rightarrow> n | None \<Rightarrow> cs_retire_seq s)\<rparr>
                else s1) in
      (active current_retire_prior_to (cs_retire_seq s2), s2))"

definition new_cids :: "(nat \<Rightarrow> nat \<Rightarrow> nat option) \<Rightarrow> nat list \<Rightarrow> nat \<Rightarrow> cid_state \<Rightarrow> cid_state" where
  "new_cids expires ids now s =
     (if ids = [] then s
      else track_lifetime expires (last ids) now
        (s\<lparr>cs_issued := cs_issued s + length ids, cs_active_seq := foldl (\<lambda>ns n. seq_insert n ns) (cs_active_seq s) ids\<rparr>))"

definition on_cid_retirement :: "nat \<Rightarrow> nat \<Rightarrow> cid_state \<Rightarrow> (transport_error + bool) \<times> cid_state" where
  "on_cid_retirement sequence limit s =
     (if cs_cid_len s = 0 then (Inl (te_new PROTOCOL_VIOLATION ''RETIRE_CONNECTION_ID when CIDs aren't in use''), s)
      else if cs_issued s < sequence then
        (Inl (te_new PROTOCOL_VIOLATION ''RETIRE_CONNECTION_ID for unissued sequence number''), s)
      else
        let active = removeAll sequence (cs_active_seq s) in
        (Inr (length active < limit), s\<lparr>cs_active_seq := active\<rparr>))"

definition retire_prior_to :: "cid_state \<Rightarrow> nat" where
  "retire_prior_to s = cs_retire_seq s"

section \<open>What the queue implements\<close>

text \<open>The ids that are known, by sequence number, and the one in use.\<close>

type_synonym cid_spec = "nat \<times> (nat \<rightharpoonup> cid_data)"

definition first_known :: "nat \<Rightarrow> (nat \<rightharpoonup> cid_data) \<Rightarrow> nat option" where
  "first_known n known = find (\<lambda>s. known s \<noteq> None) [n..<n + CID_QUEUE_LEN]"

definition spec_insert :: "new_connection_id \<Rightarrow> cid_spec \<Rightarrow> (insert_error + ((nat \<times> nat) \<times> bytes) option) \<times> cid_spec" where
  "spec_insert cid = (\<lambda>(active, known).
     let seq = nci_sequence cid; prior = nci_retire_prior_to cid in
     if seq < active then (Inl Retired, (active, known))
     else if max prior active + CID_QUEUE_LEN \<le> seq then (Inl ExceedsLimit, (active, known))
     else
       let known' = (known |` {prior..})(seq \<mapsto> (nci_id cid, Some (nci_reset_token cid))) in
       if prior \<le> active then (Inr None, (active, known'))
       else
         let new = the (first_known prior known') in
         (Inr (Some ((active, min new (active + CID_QUEUE_LEN)), the (snd (the (known' new))))), (new, known')))"

definition spec_next :: "cid_spec \<Rightarrow> (bytes \<times> (nat \<times> nat)) option \<times> cid_spec" where
  "spec_next = (\<lambda>(active, known).
     case first_known (active + 1) known of
       None \<Rightarrow> (None, (active, known))
     | Some new \<Rightarrow> (Some (the (snd (the (known new))), (active, new)), (new, known(active := None))))"

definition cq_slot :: "cid_queue \<Rightarrow> nat \<Rightarrow> nat" where
  "cq_slot q seq = (cq_cursor q + (seq - cq_offset q)) mod CID_QUEUE_LEN"

definition cq_abs :: "cid_queue \<Rightarrow> cid_spec" where
  "cq_abs q = (cq_offset q, \<lambda>seq. if cq_offset q \<le> seq \<and> seq < cq_offset q + CID_QUEUE_LEN then cq_buffer q ! cq_slot q seq else None)"

text \<open>The active id is known, and every id but the very first came with a token.\<close>

definition cq_ok :: "cid_queue \<Rightarrow> bool" where
  "cq_ok q \<longleftrightarrow> length (cq_buffer q) = CID_QUEUE_LEN \<and> cq_cursor q < CID_QUEUE_LEN \<and> snd (cq_abs q) (cq_offset q) \<noteq> None \<and>
     (\<forall>seq d. snd (cq_abs q) seq = Some d \<and> 0 < seq \<longrightarrow> snd d \<noteq> None)"

section \<open>The ring buffer\<close>

text \<open>A ring buffer based at \<open>c\<close> holds the ids from \<open>n\<close> on.\<close>

definition represents :: "cid_data option list \<Rightarrow> nat \<Rightarrow> nat \<Rightarrow> (nat \<rightharpoonup> cid_data) \<Rightarrow> bool" where
  "represents b c n known \<longleftrightarrow> (\<forall>k < 5. b ! ((c + k) mod 5) = known (n + k)) \<and> (\<forall>s. s < n \<or> n + 5 \<le> s \<longrightarrow> known s = None)"

lemma abs_represents: "represents (cq_buffer q) (cq_cursor q) (cq_offset q) (snd (cq_abs q))"
  by (auto simp: represents_def cq_abs_def cq_slot_def CID_QUEUE_LEN_def)

lemma represents_abs:
  assumes "represents (cq_buffer q) (cq_cursor q) (cq_offset q) known"
  shows "cq_abs q = (cq_offset q, known)"
proof -
  have "(if cq_offset q \<le> s \<and> s < cq_offset q + 5 then cq_buffer q ! ((cq_cursor q + (s - cq_offset q)) mod 5) else None) = known s" for s
  proof (cases "cq_offset q \<le> s \<and> s < cq_offset q + 5")
    case True
    then obtain k where "s = cq_offset q + k" "k < 5" using le_Suc_ex by force
    then show ?thesis using assms by (simp add: represents_def)
  qed (use assms in \<open>auto simp: represents_def\<close>)
  then show ?thesis unfolding cq_abs_def cq_slot_def CID_QUEUE_LEN_def by (simp add: fun_eq_iff)
qed

text \<open>Moving the base over slots that are empty.\<close>

lemma represents_slide:
  assumes r: "represents b c n known" and i: "i < 5" "\<forall>j < i. known (n + j) = None"
  shows "represents b ((c + i) mod 5) (n + i) known"
proof -
  have "b ! (((c + i) mod 5 + k) mod 5) = known (n + i + k)" if "k < 5" for k
  proof (cases "i + k < 5")
    case True
    then show ?thesis using r by (simp add: represents_def mod_simps add.assoc)
  next
    case False
    then have "c + i + k = c + (i + k - 5) + 5" by simp
    then have "((c + i) mod 5 + k) mod 5 = (c + (i + k - 5)) mod 5" by (metis mod_add_left_eq mod_add_self2)
    moreover have "i + k - 5 < i" "i + k - 5 < 5" using False that i(1) by auto
    moreover have "known (n + i + k) = None" using False r by (simp add: represents_def)
    ultimately show ?thesis using r i(2) by (simp add: represents_def)
  qed
  moreover have "known s = None" if "s < n + i \<or> n + i + 5 \<le> s" for s
  proof (cases "s < n \<or> n + 5 \<le> s")
    case False
    then have "s - n < i" "n + (s - n) = s" using that by auto
    then show ?thesis using i(2) by metis
  qed (use r in \<open>auto simp: represents_def\<close>)
  ultimately show ?thesis by (simp add: represents_def)
qed

lemma discard_nth:
  assumes "length b = 5" "r < 5"
  shows "length (cq_discard c n b) = 5" "cq_discard c n b ! r = (if \<exists>i < n. r = (c + i) mod 5 then None else b ! r)"
proof -
  show "length (cq_discard c n b) = 5" using assms(1) by (induction n) (simp_all add: CID_QUEUE_LEN_def)
  have "cq_discard c n b ! r = (if \<exists>i < n. r = (c + i) mod 5 then None else b ! r) \<and> length (cq_discard c n b) = 5"
    using assms by (induction n) (auto simp: CID_QUEUE_LEN_def nth_list_update less_Suc_eq)
  then show "cq_discard c n b ! r = (if \<exists>i < n. r = (c + i) mod 5 then None else b ! r)" ..
qed

lemma slot_inj: "i < 5 \<Longrightarrow> j < 5 \<Longrightarrow> (c + i) mod 5 = (c + j) mod 5 \<longleftrightarrow> i = (j :: nat)"
proof (induction i j rule: linorder_wlog)
  case (le i j)
  then have "(c + j) mod 5 = (c + i) mod 5 \<longleftrightarrow> 5 dvd j - i" using mod_eq_dvd_iff_nat [of "c + i" "c + j" 5] by simp
  then show ?case using le by (auto dest: dvd_imp_le)
qed auto

text \<open>Discarding the ids below a sequence number moves the base there.\<close>

lemma represents_discard:
  assumes r: "represents b c n known" and len: "length b = 5"
  shows "represents (cq_discard c (min m 5) b) ((c + m) mod 5) (n + m) (known |` {n + m..})"
proof -
  have "cq_discard c (min m 5) b ! (((c + m) mod 5 + k) mod 5) = (known |` {n + m..}) (n + m + k)" if k: "k < 5" for k
  proof (cases "m + k < 5")
    case True
    have "(((c + m) mod 5 + k) mod 5) = (c + (m + k)) mod 5" by (simp add: mod_simps add.assoc)
    moreover have "\<not> (\<exists>i < min m 5. (c + (m + k)) mod 5 = (c + i) mod 5)" using slot_inj [of "m + k"] True by auto
    ultimately have "cq_discard c (min m 5) b ! (((c + m) mod 5 + k) mod 5) = b ! ((c + (m + k)) mod 5)"
      using discard_nth(2) [OF len, of "(c + (m + k)) mod 5" c "min m 5"] by (simp only: if_False)
    then show ?thesis using r True by (simp add: represents_def add.assoc)
  next
    case False
    let ?i = "(m + k) mod 5"
    have "?i < m"
    proof (cases "m < 5")
      case True
      then have "?i = m + k - 5" using False k by (simp add: mod_if)
      then show ?thesis using False k by simp
    qed (use mod_less_divisor [of 5 "m + k"] in linarith)
    then have "?i < min m 5" by simp
    moreover have "(((c + m) mod 5 + k) mod 5) = (c + ?i) mod 5" by (simp add: mod_simps add.assoc)
    moreover have "cq_discard c (min m 5) b ! ((c + j) mod 5) = None" if "j < min m 5" for j
      using discard_nth(2) [OF len, of "(c + j) mod 5" c "min m 5"] that by auto
    ultimately have "cq_discard c (min m 5) b ! (((c + m) mod 5 + k) mod 5) = None" by simp
    moreover have "known (n + m + k) = None" using r False by (simp add: represents_def)
    ultimately show ?thesis by (simp add: restrict_map_def)
  qed
  moreover have "(known |` {n + m..}) s = None" if "s < n + m \<or> n + m + 5 \<le> s" for s
    using that r by (auto simp: restrict_map_def represents_def)
  ultimately show ?thesis by (simp add: represents_def)
qed

lemma represents_update:
  assumes r: "represents b c n known" and len: "length b = 5" and k: "k < 5"
  shows "represents (b[(c + k) mod 5 := v]) c n (known(n + k := v))"
  using r k slot_inj [of k _ c] slot_inj [of _ k c] len by (auto simp: represents_def nth_list_update)

lemma map_filter_eq: "(\<And>x. x \<in> set xs \<Longrightarrow> f x = g x) \<Longrightarrow> List.map_filter f xs = List.map_filter g xs"
  by (induction xs) (auto simp: List.map_filter_simps split: option.split)

lemma iter_known:
  assumes "represents (cq_buffer q) (cq_cursor q) n known"
  shows "cq_iter q = List.map_filter (\<lambda>k. map_option (Pair k) (known (n + k))) [0..<5]"
  unfolding cq_iter_def CID_QUEUE_LEN_def
  by (rule map_filter_eq) (use assms in \<open>simp add: represents_def\<close>)

lemma find_upt: "find P [n..<n + m] = map_option ((+) n) (find (\<lambda>k. P (n + k)) [0..<m])"
proof -
  have "find P (map ((+) n) xs) = map_option ((+) n) (find (\<lambda>k. P (n + k)) xs)" for xs
    by (induction xs) simp_all
  moreover have "map ((+) n) [0..<m] = [n..<n + m]" by (rule nth_equalityI) simp_all
  ultimately show ?thesis by metis
qed

lemma map_filter_find:
  "List.map_filter (\<lambda>k. map_option (Pair k) (f k)) xs = (case find (\<lambda>k. f k \<noteq> None) xs of None \<Rightarrow> [] | Some k \<Rightarrow>
     (k, the (f k)) # tl (List.map_filter (\<lambda>k. map_option (Pair k) (f k)) xs))"
  by (induction xs) (auto simp: List.map_filter_simps split: option.splits)

lemma find_first:
  "find P [0..<m] = Some k \<longleftrightarrow> k < m \<and> P k \<and> (\<forall>j < k. \<not> P j)"
  by (auto simp: find_Some_iff)

lemma first_known_Some:
  "first_known n known = Some a \<longleftrightarrow> (\<exists>k < 5. a = n + k \<and> known (n + k) \<noteq> None \<and> (\<forall>j < k. known (n + j) = None))"
  unfolding first_known_def CID_QUEUE_LEN_def find_upt by (auto simp: find_first simp del: not_None_eq split_paired_Ex split_paired_All)

lemma first_known_None: "first_known n known = None \<longleftrightarrow> (\<forall>k < 5. known (n + k) = None)"
  unfolding first_known_def CID_QUEUE_LEN_def find_upt by (auto simp: find_None_iff simp del: not_None_eq split_paired_Ex split_paired_All)

lemma iter_Cons:
  assumes "represents (cq_buffer q) (cq_cursor q) n known" "first_known n known = Some (n + k)"
  shows "\<exists>rest. cq_iter q = (k, the (known (n + k))) # rest"
proof -
  have "find (\<lambda>k. known (n + k) \<noteq> None) [0..<5] = Some k"
    using assms(2) unfolding first_known_def CID_QUEUE_LEN_def find_upt by simp
  then show ?thesis
    unfolding iter_known [OF assms(1)] by (subst map_filter_find) simp
qed

section \<open>The queue refines the specification\<close>

definition abs_result :: "('r \<times> cid_queue) option \<Rightarrow> ('r \<times> cid_spec) \<Rightarrow> bool" where
  "abs_result r spec \<longleftrightarrow> (\<exists>x q. r = Some (x, q) \<and> cq_ok q \<and> spec = (x, cq_abs q))"

lemma cq_okI:
  assumes "represents (cq_buffer q) (cq_cursor q) (cq_offset q) known" "length (cq_buffer q) = 5" "cq_cursor q < 5"
    "known (cq_offset q) \<noteq> None" "\<And>s d. known s = Some d \<Longrightarrow> 0 < s \<Longrightarrow> snd d \<noteq> None"
  shows "cq_ok q"
  using represents_abs [OF assms(1)] assms(2-) by (auto simp: cq_ok_def CID_QUEUE_LEN_def)

lemma cq_insert_refines:
  assumes ok: "cq_ok q" and prior: "nci_retire_prior_to cid \<le> nci_sequence cid"
  shows "abs_result (cq_insert cid q) (spec_insert cid (cq_abs q))"
proof -
  let ?seq = "nci_sequence cid" and ?prior = "nci_retire_prior_to cid" and ?n = "cq_offset q" and ?c = "cq_cursor q"
  let ?v = "Some (nci_id cid, Some (nci_reset_token cid))"
  define known where "known = snd (cq_abs q)"
  have abs: "cq_abs q = (?n, known)" by (simp add: known_def cq_abs_def)
  have r: "represents (cq_buffer q) ?c ?n known" using abs_represents known_def by metis
  have q: "length (cq_buffer q) = 5" "?c < 5" "known ?n \<noteq> None" "\<And>s d. known s = Some d \<Longrightarrow> 0 < s \<Longrightarrow> snd d \<noteq> None"
    using ok by (auto simp: cq_ok_def CID_QUEUE_LEN_def known_def)
  consider "?seq < ?n" | "?n \<le> ?seq" "max ?prior ?n + 5 \<le> ?seq" | "?n \<le> ?seq" "?seq < max ?prior ?n + 5" by linarith
  then show ?thesis
  proof cases
    case 1
    then show ?thesis using ok abs by (auto simp: abs_result_def cq_insert_def spec_insert_def checked_sub_def)
  next
    case 2
    then show ?thesis using ok abs
      by (auto simp: abs_result_def cq_insert_def spec_insert_def checked_sub_def CID_QUEUE_LEN_def Let_def)
  next
    case 3
    define m where "m = ?prior - ?n"
    define k where "k = ?seq - (?n + m)"
    define b where "b = (cq_discard ?c (min m 5) (cq_buffer q))[(?c + (?seq - ?n)) mod 5 := ?v]"
    define known' where "known' = (known |` {?prior..})(?seq := ?v)"
    have mk: "k < 5" "?seq = ?n + m + k" using 3 prior by (auto simp: m_def k_def)
    have restr: "known |` {?n + m..} = known |` {?prior..}"
      using r by (auto simp: m_def restrict_map_def represents_def fun_eq_iff)
    have "(?c + (?seq - ?n)) mod 5 = ((?c + m) mod 5 + k) mod 5" using mk(2) by (simp add: mod_simps add.assoc)
    then have b: "represents b ((?c + m) mod 5) (?n + m) known'"
      using represents_update [OF represents_discard [OF r q(1), of m] discard_nth(1) [OF q(1), of 0] mk(1), of ?v]
      unfolding b_def known'_def mk(2) restr by simp
    have lenb: "length b = 5" using discard_nth(1) [OF q(1), of 0] by (simp add: b_def)
    have tok: "snd d \<noteq> None" if "known' s = Some d" "0 < s" for s d
      using that q(4) by (auto simp: known'_def restrict_map_def split: if_splits)
    show ?thesis
    proof (cases "m = 0")
      case True
      then have e: "cq_insert cid q = Some (Inr None, q\<lparr>cq_buffer := b\<rparr>)" "spec_insert cid (cq_abs q) = (Inr None, (?n, known'))"
        using 3 unfolding abs by (auto simp: cq_insert_def spec_insert_def checked_sub_def CID_QUEUE_LEN_def Let_def b_def m_def known'_def)
      have b0: "represents (cq_buffer (q\<lparr>cq_buffer := b\<rparr>)) (cq_cursor (q\<lparr>cq_buffer := b\<rparr>)) (cq_offset (q\<lparr>cq_buffer := b\<rparr>)) known'"
        using b True q(2) by simp
      have "known' ?n \<noteq> None" using q(3) True by (auto simp: known'_def restrict_map_def m_def)
      then have "cq_ok (q\<lparr>cq_buffer := b\<rparr>)" using cq_okI [OF b0] lenb q(2) tok by simp
      then show ?thesis using e represents_abs [OF b0] by (simp add: abs_result_def)
    next
      case False
      have "known' (?n + m + k) \<noteq> None" by (simp add: known'_def mk(2))
      then obtain a where a: "first_known (?n + m) known' = Some a" using first_known_None [of "?n + m" known'] mk(1) by fastforce
      then obtain i where i: "i < 5" "a = ?n + m + i" "known' a \<noteq> None" "\<forall>j < i. known' (?n + m + j) = None"
        unfolding first_known_Some by auto
      obtain d t where d: "known' a = Some (d, Some t)"
        using i(2,3) tok False by (cases "known' a") fastforce+
      let ?q = "\<lparr>cq_buffer = b, cq_cursor = ((?c + m) mod 5 + i) mod 5, cq_offset = ?n + m + i\<rparr>"
      have np: "?n + m = ?prior" using False by (simp add: m_def)
      have bi: "represents (cq_buffer ?q) (cq_cursor ?q) (cq_offset ?q) known'" using represents_slide [OF b i(1,4)] by simp
      have okq: "cq_ok ?q" using i(2,3) lenb tok by (intro cq_okI [OF bi]) (simp_all add: add.assoc)
      obtain rest where it: "cq_iter (q\<lparr>cq_buffer := b, cq_cursor := (?c + m) mod 5\<rparr>) = (i, (d, Some t)) # rest"
        using iter_Cons [of "q\<lparr>cq_buffer := b, cq_cursor := (?c + m) mod 5\<rparr>" "?n + m" known' i] b a i(2) d by auto
      have "cq_insert cid q = Some (Inr (Some ((?n, min a (?n + 5)), t)), ?q)"
        using 3 False it i(2) np unfolding b_def
        by (auto simp: cq_insert_def checked_sub_def CID_QUEUE_LEN_def Let_def m_def [symmetric] add.assoc)
      moreover have "spec_insert cid (cq_abs q) = (Inr (Some ((?n, min a (?n + 5)), t)), (a, known'))"
      proof -
        have "\<not> max ?prior ?n + 5 \<le> ?seq" "\<not> ?seq < ?n" "\<not> ?prior \<le> ?n" using 3 False by (auto simp: m_def)
        then show ?thesis using a np d
          by (simp only: abs spec_insert_def CID_QUEUE_LEN_def Let_def known'_def [symmetric] prod.case if_False option.sel snd_conv)
      qed
      ultimately show ?thesis using okq represents_abs [OF bi] i(2) by (simp add: abs_result_def)
    qed
  qed
qed

lemma iter_active:
  assumes r: "represents (cq_buffer q) (cq_cursor q) n known" and len: "length (cq_buffer q) = 5" "cq_cursor q < 5" and d: "known n = Some d"
  shows "cq_iter q = (0, d) # cq_iter (q\<lparr>cq_buffer := (cq_buffer q)[cq_cursor q := None]\<rparr>)"
    "represents ((cq_buffer q)[cq_cursor q := None]) (cq_cursor q) n (known(n := None))"
proof -
  show r': "represents ((cq_buffer q)[cq_cursor q := None]) (cq_cursor q) n (known(n := None))"
    using represents_update [OF r len(1), of 0 None] len(2) by simp
  have upt: "[0..<5] = 0 # [1..<5 :: nat]" by (simp add: upt_rec)
  have "List.map_filter (\<lambda>k. map_option (Pair k) (known (n + k))) [1..<5] =
      List.map_filter (\<lambda>k. map_option (Pair k) ((known(n := None)) (n + k))) [1..<5]"
    by (rule map_filter_eq) simp
  then show "cq_iter q = (0, d) # cq_iter (q\<lparr>cq_buffer := (cq_buffer q)[cq_cursor q := None]\<rparr>)"
    using iter_known [OF r] iter_known [of "q\<lparr>cq_buffer := (cq_buffer q)[cq_cursor q := None]\<rparr>" n "known(n := None)"] r' d
    unfolding upt by (simp add: List.map_filter_simps)
qed

lemma first_known_after:
  assumes "known (n + 5) = None"
  shows "first_known n (known(n := None)) = first_known (n + 1) known"
proof (cases "first_known (n + 1) known")
  case None
  then have k: "known (n + 1 + k) = None" if "k < 5" for k using that first_known_None by blast
  have "(known(n := None)) (n + k) = None" if "k < 5" for k
    using k [of "k - 1"] that by (cases "k = 0") auto
  then show ?thesis using None first_known_None by metis
next
  case (Some a)
  then obtain k where k: "k < 5" "a = n + 1 + k" "known (n + 1 + k) \<noteq> None" "\<forall>j < k. known (n + 1 + j) = None"
    unfolding first_known_Some by auto
  have "k \<noteq> 4" using k(3) assms by (auto simp: numeral_eq_Suc)
  then have "Suc k < 5" using k(1) by simp
  moreover have "(known(n := None)) (n + j) = None" if "j < Suc k" for j
    using k(4) [rule_format, of "j - 1"] that by (cases "j = 0") auto
  ultimately have "first_known n (known(n := None)) = Some a"
    unfolding first_known_Some using k(2,3) by (intro exI [of _ "Suc k"]) auto
  then show ?thesis using Some by simp
qed

lemma cq_next_refines:
  assumes ok: "cq_ok q"
  shows "abs_result (cq_next q) (spec_next (cq_abs q))"
proof -
  let ?n = "cq_offset q" and ?c = "cq_cursor q"
  let ?q = "q\<lparr>cq_buffer := (cq_buffer q)[?c := None]\<rparr>"
  define known where "known = snd (cq_abs q)"
  have abs: "cq_abs q = (?n, known)" by (simp add: known_def cq_abs_def)
  have r: "represents (cq_buffer q) ?c ?n known" using abs_represents known_def by metis
  have q: "length (cq_buffer q) = 5" "?c < 5" "\<And>s d. known s = Some d \<Longrightarrow> 0 < s \<Longrightarrow> snd d \<noteq> None"
    using ok by (auto simp: cq_ok_def CID_QUEUE_LEN_def known_def)
  obtain d where d: "known ?n = Some d" using ok by (auto simp: cq_ok_def known_def)
  have it: "cq_iter q = (0, d) # cq_iter ?q" and r': "represents (cq_buffer ?q) (cq_cursor ?q) ?n (known(?n := None))"
    using iter_active [OF r q(1,2) d] by simp_all
  have fk: "first_known ?n (known(?n := None)) = first_known (?n + 1) known"
    using r by (intro first_known_after) (simp add: represents_def)
  show ?thesis
  proof (cases "first_known (?n + 1) known")
    case None
    then have "cq_iter ?q = []" using iter_known [OF r'] fk
      by (subst iter_known [OF r'], subst map_filter_find) (use first_known_None [of ?n "known(?n := None)"] in \<open>auto simp: find_None_iff split: option.splits\<close>)
    then show ?thesis using None ok it abs by (simp add: abs_result_def cq_next_def spec_next_def)
  next
    case (Some a)
    then obtain i where i: "i < 5" "a = ?n + i" "(known(?n := None)) a \<noteq> None" "\<forall>j < i. (known(?n := None)) (?n + j) = None"
      using first_known_Some [of ?n "known(?n := None)" a] unfolding fk by blast
    then have i0: "0 < i" by (cases i) auto
    obtain c t where t: "known a = Some (c, Some t)" using i i0 q(3) [of a] by (cases "known a") fastforce+
    obtain rest where it': "cq_iter ?q = (i, (c, Some t)) # rest"
      using iter_Cons [OF r', of i] Some fk i(2) i0 t by auto
    let ?q' = "\<lparr>cq_buffer = (cq_buffer q)[?c := None], cq_cursor = (?c + i) mod 5, cq_offset = ?n + i\<rparr>"
    have r'': "represents (cq_buffer ?q') (cq_cursor ?q') (cq_offset ?q') (known(?n := None))"
      using represents_slide [OF r' i(1,4)] by (simp del: fun_upd_apply)
    have "cq_ok ?q'" using i(2,3) q(1,3) by (intro cq_okI [OF r'']) (auto split: if_splits)
    moreover have "cq_next q = Some (Some (t, (?n, a)), ?q')"
      using it it' i(2) by (simp add: cq_next_def CID_QUEUE_LEN_def Let_def)
    moreover have "spec_next (cq_abs q) = (Some (t, (?n, a)), (a, known(?n := None)))"
      using Some t abs by (simp add: spec_next_def)
    ultimately show ?thesis using represents_abs [OF r''] i(2) by (simp add: abs_result_def)
  qed
qed

lemma cq_new_ok: "cq_ok (cq_new cid)" "cq_abs (cq_new cid) = (0, [0 \<mapsto> (cid, None)])"
proof -
  have r: "represents (cq_buffer (cq_new cid)) (cq_cursor (cq_new cid)) (cq_offset (cq_new cid)) [0 \<mapsto> (cid, None)]"
    by (auto simp: represents_def cq_new_def CID_QUEUE_LEN_def nth_list_update)
  show "cq_abs (cq_new cid) = (0, [0 \<mapsto> (cid, None)])" using represents_abs [OF r] by (simp add: cq_new_def)
  show "cq_ok (cq_new cid)"
    by (rule cq_okI [OF r]) (auto simp: cq_new_def CID_QUEUE_LEN_def split: if_splits)
qed

text \<open>
  C15: The ring buffer of connection ids implements a map from sequence numbers to ids. From any well-formed queue,
  whatever NEW_CONNECTION_ID frame the parser lets through (one that retires nothing above its own sequence
  number) \<open>insert\<close> never panics; it refuses an id that has been retired or lies beyond the window, and otherwise
  adds it, forgets all ids below \<open>retire_prior_to\<close>, and moves to the first id known from there on, reporting which
  were given up and the new reset token. \<open>next\<close> moves to the next known id, or stays when there is none. Both
  keep the queue well formed.
\<close>

theorem cid_queue_refines:
  assumes "cq_ok q" "nci_retire_prior_to cid \<le> nci_sequence cid"
  shows "abs_result (cq_insert cid q) (spec_insert cid (cq_abs q)) \<and> abs_result (cq_next q) (spec_next (cq_abs q))"
  using cq_insert_refines [OF assms] cq_next_refines [OF assms(1)] by blast

theorem cid_queue_refines_witness:
  "abs_result (cq_insert \<lparr>nci_sequence = 7, nci_retire_prior_to = 7, nci_id = [1], nci_reset_token = [9]\<rparr> (cq_new [5]))
     (Inr (Some ((0, 5), [9])), (7, [7 \<mapsto> ([1], Some [9])]))"
proof -
  let ?cid = "\<lparr>nci_sequence = 7, nci_retire_prior_to = 7, nci_id = [1], nci_reset_token = [9]\<rparr>"
  have "first_known 7 [7 \<mapsto> ([1], Some [9])] = Some 7" unfolding first_known_Some by (intro exI [of _ 0]) auto
  moreover have "[0 \<mapsto> ([5], None)] |` {7 :: nat..} = Map.empty" by (auto simp: restrict_map_def fun_eq_iff)
  ultimately have "spec_insert ?cid (cq_abs (cq_new [5])) = (Inr (Some ((0, 5), [9])), (7, [7 \<mapsto> ([1], Some [9])]))"
    unfolding cq_new_ok(2) spec_insert_def by (simp add: CID_QUEUE_LEN_def Let_def)
  then show ?thesis using cid_queue_refines [OF cq_new_ok(1), of ?cid "[5]"] by simp
qed

section \<open>Retiring connection ids\<close>

lemma seq_insert_set [simp]: "set (seq_insert n ns) = insert n (set ns)"
  by (auto simp: seq_insert_def)

lemma seq_insert_distinct: "distinct ns \<Longrightarrow> distinct (seq_insert n ns)"
  by (simp add: seq_insert_def)

lemma foldl_seq_insert:
  "set (foldl (\<lambda>ns n. seq_insert n ns) ns xs) = set ns \<union> set xs" "distinct ns \<Longrightarrow> distinct (foldl (\<lambda>ns n. seq_insert n ns) ns xs)"
  by (induction xs arbitrary: ns) (auto simp: seq_insert_distinct)

lemma track_lifetime_fields [simp]:
  "cs_active_seq (track_lifetime f n now s) = cs_active_seq s" "cs_issued (track_lifetime f n now s) = cs_issued s"
  "cs_retire_seq (track_lifetime f n now s) = cs_retire_seq s" "cs_prev_retire_seq (track_lifetime f n now s) = cs_prev_retire_seq s"
  "cs_cid_len (track_lifetime f n now s) = cs_cid_len s" "cs_cid_lifetime (track_lifetime f n now s) = cs_cid_lifetime s"
  by (auto simp: track_lifetime_def Let_def split: option.splits)

text \<open>
  The ids issued are numbered without gaps, the active ones are among them, and the peer is only ever asked to
  retire ids that exist.
\<close>

definition cs_ok :: "cid_state \<Rightarrow> bool" where
  "cs_ok s \<longleftrightarrow> distinct (cs_active_seq s) \<and> (\<forall>n \<in> set (cs_active_seq s). n < cs_issued s) \<and>
     (\<forall>t \<in> set (cs_retire_timestamp s). ct_sequence t < cs_issued s) \<and>
     cs_prev_retire_seq s \<le> cs_issued s \<and> cs_retire_seq s \<le> cs_issued s"

lemma track_lifetime_ok: "cs_ok s \<Longrightarrow> n < cs_issued s \<Longrightarrow> cs_ok (track_lifetime f n now s)"
  by (auto simp: cs_ok_def track_lifetime_def Let_def split: option.splits dest: in_set_butlastD)

lemma cid_state_new_ok: "cs_ok (cid_state_new f len life now issued)"
proof -
  have "cs_ok (foldl (\<lambda>s seq. track_lifetime f seq now s) s xs)" if "cs_ok s" "\<forall>n \<in> set xs. n < cs_issued s" for s xs
    using that by (induction xs arbitrary: s) (simp_all add: track_lifetime_ok)
  then show ?thesis unfolding cid_state_new_def by (auto simp: cs_ok_def foldl_seq_insert)
qed

lemma on_cid_timeout_ok: "cs_ok s \<Longrightarrow> cs_ok (snd (on_cid_timeout s))"
  by (auto simp: cs_ok_def on_cid_timeout_def Let_def Suc_le_eq split: list.splits)

lemma new_cids_ok:
  assumes "cs_ok s" "ids = [cs_issued s..<cs_issued s + k]"
  shows "cs_ok (new_cids f ids now s)"
proof (cases "k = 0")
  case False
  then have l: "ids \<noteq> []" "last ids = cs_issued s + k - 1" "length ids = k" using assms(2) by (simp_all add: last_upt)
  let ?s = "s\<lparr>cs_issued := cs_issued s + length ids, cs_active_seq := foldl (\<lambda>ns n. seq_insert n ns) (cs_active_seq s) ids\<rparr>"
  have "cs_ok ?s" using assms l(3) by (auto simp: cs_ok_def foldl_seq_insert trans_less_add1)
  then have "cs_ok (track_lifetime f (last ids) now ?s)" using l False by (intro track_lifetime_ok) auto
  then show ?thesis using l by (simp add: new_cids_def)
qed (use assms in \<open>simp add: new_cids_def\<close>)

lemma on_cid_retirement_ok: "cs_ok s \<Longrightarrow> cs_ok (snd (on_cid_retirement n limit s))"
  by (auto simp: cs_ok_def on_cid_retirement_def Let_def distinct_removeAll)



text \<open>
  A RETIRE_CONNECTION_ID frame for the next id to be issued is accepted. Ids are numbered from zero, so with \<open>n\<close>
  ids issued the number \<open>n\<close> is unissued; the check compares with \<open>>\<close> and lets it through.
\<close>

theorem unissued_retirement_accepted:
  assumes "cs_ok s" "cs_cid_len s \<noteq> 0"
  shows "cs_issued s \<notin> set (cs_active_seq s) \<and>
    on_cid_retirement (cs_issued s) limit s = (Inr (length (cs_active_seq s) < limit), s)"
proof -
  have "cs_issued s \<notin> set (cs_active_seq s)" using assms(1) by (auto simp: cs_ok_def)
  then show ?thesis using assms(2) by (simp add: on_cid_retirement_def)
qed

theorem unissued_retirement_accepted_witness:
  "fst (on_cid_retirement 2 3 (cid_state_new (\<lambda>_ _. None) 8 None 5 2)) = Inr True"
proof -
  have s: "cs_issued (cid_state_new (\<lambda>_ _. None) 8 None 5 2) = 2" "cs_cid_len (cid_state_new (\<lambda>_ _. None) 8 None 5 2) = 8"
    "length (cs_active_seq (cid_state_new (\<lambda>_ _. None) 8 None 5 2)) = 2"
    by (code_simp, code_simp, code_simp)
  then show ?thesis using unissued_retirement_accepted [OF cid_state_new_ok, of "\<lambda>_ _. None" 8 None 5 2 3] by simp
qed

end
