(* ===== verification/Connection.thy ===== *)
theory Connection
  imports Paths Datagrams Cid_Queue "HOL-Library.Monad_Syntax"
begin

text \<open>
  \<open>quic-proto/src/connection/mod.rs\<close>: the state of a connection, with the interfaces of \<open>crypto.rs\<close> it relies on.
  The cryptographic session and the keys are records of functions, since their implementations are outside the
  crate; \<open>'s\<close> is the state of the session and \<open>'c\<close> that of the congestion controller. Random numbers are drawn from a
  stream, of which the connection holds the position. Statistics, the qlog sink and the parts of the configuration
  that are never read here are left out.
\<close>

section \<open>Cryptography\<close>

text \<open>\<open>pk_decrypt number header payload\<close> is the plain text, or \<open>None\<close> when the payload is not authentic.\<close>

record packet_key =
  pk_encrypt :: "nat \<Rightarrow> bytes \<Rightarrow> nat \<Rightarrow> bytes"
  pk_decrypt :: "nat \<Rightarrow> bytes \<Rightarrow> bytes \<Rightarrow> bytes option"
  pk_tag_len :: nat
  pk_confidentiality_limit :: nat
  pk_integrity_limit :: nat

record 'a key_pair =
  kp_local :: 'a
  kp_remote :: 'a

record keys =
  ks_header :: "header_key key_pair"
  ks_packet :: "packet_key key_pair"

record zero_rtt_crypto =
  zr_header :: header_key
  zr_packet :: packet_key

record prev_crypto =
  pv_crypto :: "packet_key key_pair"
  pv_end_packet :: "(nat \<times> nat) option"
  pv_update_unacked :: bool

record 's session =
  ss_initial_keys :: "connection_id \<Rightarrow> side \<Rightarrow> 's \<Rightarrow> keys"
  ss_early_crypto :: "'s \<Rightarrow> (header_key \<times> packet_key) option"
  ss_early_data_accepted :: "'s \<Rightarrow> bool option"
  ss_is_handshaking :: "'s \<Rightarrow> bool"
  ss_read_handshake :: "bytes \<Rightarrow> 's \<Rightarrow> (transport_error + bool) \<times> 's"
  ss_transport_parameters :: "'s \<Rightarrow> transport_error + transport_parameters option"
  ss_write_handshake :: "'s \<Rightarrow> keys option \<times> bytes \<times> 's"
  ss_next_1rtt_keys :: "'s \<Rightarrow> packet_key key_pair option \<times> 's"
  ss_is_valid_retry :: "connection_id \<Rightarrow> bytes \<Rightarrow> bytes \<Rightarrow> 's \<Rightarrow> bool"

definition CRYPTO_BUFFER_EXCEEDED :: transport_code where "CRYPTO_BUFFER_EXCEEDED = 13"
definition KEY_UPDATE_ERROR :: transport_code where "KEY_UPDATE_ERROR = 14"
definition AEAD_LIMIT_REACHED :: transport_code where "AEAD_LIMIT_REACHED = 15"
definition APPLICATION_ERROR :: transport_code where "APPLICATION_ERROR = 12"

section \<open>The state of a connection\<close>

datatype connection_error =
    VersionMismatch
  | TransportErr transport_error
  | ConnectionClosed connection_close
  | ApplicationClosed application_close
  | ResetByPeer
  | TimedOut
  | LocallyClosed
  | CidsExhausted

fun close_error :: "close \<Rightarrow> connection_error" where
  "close_error (Connection reason) = ConnectionClosed reason"
| "close_error (Application reason) = ApplicationClosed reason"

record handshake_state =
  hs_rem_cid_set :: bool
  hs_expected_token :: bytes
  hs_client_hello :: "bytes option"

datatype conn_state =
    StHandshake handshake_state
  | StEstablished
  | StClosed close
  | StDraining
  | StDrained

fun is_handshake :: "conn_state \<Rightarrow> bool" where
  "is_handshake (StHandshake _) = True"
| "is_handshake _ = False"

definition is_established :: "conn_state \<Rightarrow> bool" where
  "is_established s \<longleftrightarrow> s = StEstablished"

fun is_closed :: "conn_state \<Rightarrow> bool" where
  "is_closed (StClosed _) = True"
| "is_closed StDraining = True"
| "is_closed StDrained = True"
| "is_closed _ = False"

definition is_drained :: "conn_state \<Rightarrow> bool" where
  "is_drained s \<longleftrightarrow> s = StDrained"

datatype event =
    HandshakeDataReady
  | Connected
  | HandshakeConfirmed
  | ConnectionLost connection_error
  | StreamEvent stream_event
  | DatagramReceived
  | DatagramsUnblocked

datatype endpoint_event =
    EvDrained
  | EvResetToken socket_addr bytes
  | EvNeedIdentifiers nat nat
  | EvRetireConnectionId nat nat bool

text \<open>The server configuration as far as a connection reads it.\<close>

record server_config =
  sc_migration :: bool
  sc_has_preferred_address :: bool
  sc_validation_tokens_sent :: nat

text \<open>A client has its token and server name; tokens handed to its token store are recorded in the order of the calls.\<close>

datatype connection_side =
    ClientSide bytes string "(string \<times> bytes) list"
  | ServerSide server_config

fun cs_side :: "connection_side \<Rightarrow> side" where
  "cs_side (ClientSide _ _ _) = Client"
| "cs_side (ServerSide _) = Server"

fun remote_may_migrate :: "connection_side \<Rightarrow> bool" where
  "remote_may_migrate (ServerSide config) = sc_migration config"
| "remote_may_migrate (ClientSide _ _ _) = False"

record ('s, 'c) connection =
  cn_config :: transport_config
  cn_rng :: nat
  cn_crypto :: 's
  cn_handshake_cid :: connection_id
  cn_rem_handshake_cid :: connection_id
  cn_path :: "'c path_data"
  cn_path_counter :: nat
  cn_allow_mtud :: bool
  cn_prev_path :: "(connection_id \<times> 'c path_data) option"
  cn_state :: conn_state
  cn_side :: connection_side
  cn_zero_rtt_enabled :: bool
  cn_zero_rtt_crypto :: "zero_rtt_crypto option"
  cn_key_phase :: bool
  cn_key_phase_size :: nat
  cn_peer_params :: transport_parameters
  cn_orig_rem_cid :: connection_id
  cn_initial_dst_cid :: connection_id
  cn_retry_src_cid :: "connection_id option"
  cn_events :: "event list"
  cn_endpoint_events :: "endpoint_event list"
  cn_spin_enabled :: bool
  cn_spin :: bool
  cn_spaces :: "space_id \<Rightarrow> keys packet_space"
  cn_highest_space :: space_id
  cn_prev_crypto :: "prev_crypto option"
  cn_next_crypto :: "packet_key key_pair option"
  cn_accepted_0rtt :: bool
  cn_permit_idle_reset :: bool
  cn_idle_timeout :: "nat option"
  cn_timers :: timer_table
  cn_authentication_failures :: nat
  cn_error :: "connection_error option"
  cn_packet_number_filter :: pn_filter
  cn_path_responses :: "path_response list"
  cn_close :: bool
  cn_ack_frequency :: ack_frequency_state
  cn_pto_count :: nat
  cn_receiving_ecn :: bool
  cn_total_authed_packets :: nat
  cn_app_limited :: bool
  cn_streams :: streams
  cn_rem_cids :: cid_queue
  cn_local_cid_state :: cid_state
  cn_datagrams :: datagram_state
  cn_version :: nat

text \<open>
  What a connection is run with: the congestion controller, the rounding of floating point numbers, the cryptographic
  session, the random numbers, \<open>ev_random k lo hi\<close> being draw number \<open>k\<close> from the range \<open>lo..hi\<close>, and
  \<open>Instant::checked_add\<close>.
\<close>

record ('s, 'c) env =
  ev_controller :: "'c controller"
  ev_float :: float_ops
  ev_session :: "'s session"
  ev_random :: "nat \<Rightarrow> nat \<Rightarrow> nat \<Rightarrow> nat"
  ev_checked_add :: "nat \<Rightarrow> nat \<Rightarrow> nat option"

definition with_space :: "space_id \<Rightarrow> (keys packet_space \<Rightarrow> keys packet_space) \<Rightarrow> ('s, 'c) connection \<Rightarrow> ('s, 'c) connection" where
  "with_space space f c = c\<lparr>cn_spaces := (cn_spaces c)(space := f (cn_spaces c space))\<rparr>"

definition with_path :: "('c path_data \<Rightarrow> 'c path_data) \<Rightarrow> ('s, 'c) connection \<Rightarrow> ('s, 'c) connection" where
  "with_path f c = c\<lparr>cn_path := f (cn_path c)\<rparr>"

definition push_event :: "event \<Rightarrow> ('s, 'c) connection \<Rightarrow> ('s, 'c) connection" where
  "push_event e c = c\<lparr>cn_events := cn_events c @ [e]\<rparr>"

definition push_endpoint_event :: "endpoint_event \<Rightarrow> ('s, 'c) connection \<Rightarrow> ('s, 'c) connection" where
  "push_endpoint_event e c = c\<lparr>cn_endpoint_events := cn_endpoint_events c @ [e]\<rparr>"

definition draw :: "('s, 'c) env \<Rightarrow> nat \<Rightarrow> nat \<Rightarrow> ('s, 'c) connection \<Rightarrow> nat \<times> ('s, 'c) connection" where
  "draw ev lo hi c = (ev_random ev (cn_rng c) lo hi, c\<lparr>cn_rng := cn_rng c + 1\<rparr>)"

end
