(* ===== verification/Recovery.thy ===== *)
theory Recovery
  imports Connection
begin

text \<open>
  Loss recovery in \<open>quic-proto/src/connection/mod.rs\<close>: what acknowledgements and the loss detection timer do to the
  packets in flight. A panic is \<open>None\<close>; the clock and durations do not overflow.
\<close>

section \<open>Helpers\<close>

fun ofold :: "('a \<Rightarrow> 'b \<Rightarrow> 'b option) \<Rightarrow> 'a list \<Rightarrow> 'b \<Rightarrow> 'b option" where
  "ofold f [] s = Some s"
| "ofold f (x # xs) s = do { s' \<leftarrow> f x s; ofold f xs s' }"

text \<open>\<open>remove_in_flight\<close> visits the paths from newest to oldest.\<close>

definition remove_in_flight :: "sent_packet \<Rightarrow> ('s, 'c) connection \<Rightarrow> ('s, 'c) connection" where
  "remove_in_flight packet c =
     (let (found, p) = path_remove_in_flight packet (cn_path c) in
      if found then c\<lparr>cn_path := p\<rparr>
      else
        (case cn_prev_path c of
           None \<Rightarrow> c
         | Some (cid, prev) \<Rightarrow> c\<lparr>cn_prev_path := Some (cid, snd (path_remove_in_flight packet prev))\<rparr>))"

definition pto :: "space_id \<Rightarrow> ('s, 'c) connection \<Rightarrow> nat" where
  "pto space c = pto_base (pd_rtt (cn_path c)) + (if space = SData then max_ack_delay_for_pto (cn_ack_frequency c) else 0)"

definition tag_len_1rtt :: "('s, 'c) connection \<Rightarrow> nat" where
  "tag_len_1rtt c =
     (case sp_crypto (cn_spaces c SData) of
        Some ks \<Rightarrow> pk_tag_len (kp_local (ks_packet ks))
      | None \<Rightarrow> (case cn_zero_rtt_crypto c of Some z \<Rightarrow> pk_tag_len (zr_packet z) | None \<Rightarrow> 16))"

text \<open>The packet number's length is four bytes, an upper bound, when no number is given.\<close>

definition predict_1rtt_overhead :: "nat option \<Rightarrow> ('s, 'c) connection \<Rightarrow> nat option" where
  "predict_1rtt_overhead pn c = do {
     pn_len \<leftarrow> (case pn of
        Some n \<Rightarrow> map_option pn_len (pn_new n (case sp_largest_acked_packet (cn_spaces c SData) of None \<Rightarrow> 0 | Some x \<Rightarrow> x))
      | None \<Rightarrow> Some 4);
     cid \<leftarrow> cq_active (cn_rem_cids c);
     Some (1 + length cid + pn_len + tag_len_1rtt c) }"

section \<open>Timers\<close>

definition all_spaces :: "space_id list" where
  "all_spaces = [SInitial, SHandshake, SData]"

text \<open>\<open>min_by_key\<close> gives the first of several minima.\<close>

fun min_by_time :: "(nat \<times> space_id) list \<Rightarrow> (nat \<times> space_id) option" where
  "min_by_time [] = None"
| "min_by_time (x # xs) = (case min_by_time xs of Some y \<Rightarrow> if fst y < fst x then Some y else Some x | None \<Rightarrow> Some x)"

definition loss_time_and_space :: "('s, 'c) connection \<Rightarrow> (nat \<times> space_id) option" where
  "loss_time_and_space c =
     min_by_time (List.map_filter (\<lambda>space. map_option (\<lambda>t. (t, space)) (sp_loss_time (cn_spaces c space))) all_spaces)"

definition MAX_BACKOFF_EXPONENT :: nat where "MAX_BACKOFF_EXPONENT = 16"

text \<open>The loop over the spaces; \<open>is_handshaking\<close> ends it before the application's packets.\<close>

fun pto_loop :: "('s, 'c) connection \<Rightarrow> nat \<Rightarrow> nat \<Rightarrow> (nat \<times> space_id) option \<Rightarrow> space_id list \<Rightarrow> (nat \<times> space_id) option" where
  "pto_loop c backoff duration result [] = result"
| "pto_loop c backoff duration result (space # spaces) =
     (if \<not> has_in_flight (cn_spaces c space) then pto_loop c backoff duration result spaces
      else if space = SData \<and> is_handshake (cn_state c) then result
      else
        let duration' = (if space = SData then duration + max_ack_delay_for_pto (cn_ack_frequency c) * backoff else duration) in
        (case sp_time_of_last_ack_eliciting_packet (cn_spaces c space) of
           None \<Rightarrow> pto_loop c backoff duration' result spaces
         | Some last_ack_eliciting \<Rightarrow>
             let t = last_ack_eliciting + duration' in
             pto_loop c backoff duration'
               (case result of
                  None \<Rightarrow> Some (t, space)
                | Some (earliest, _) \<Rightarrow> if t < earliest then Some (t, space) else result) spaces))"

definition pto_time_and_space :: "nat \<Rightarrow> ('s, 'c) connection \<Rightarrow> (nat \<times> space_id) option" where
  "pto_time_and_space now c =
     (let backoff = 2 ^ min (cn_pto_count c) MAX_BACKOFF_EXPONENT; duration = pto_base (pd_rtt (cn_path c)) * backoff in
      if if_ack_eliciting (pd_in_flight (cn_path c)) = 0
      then Some (now + duration, if cn_highest_space c = SHandshake then SHandshake else SInitial)
      else pto_loop c backoff duration None all_spaces)"

definition peer_completed_address_validation :: "('s, 'c) connection \<Rightarrow> bool" where
  "peer_completed_address_validation c \<longleftrightarrow>
     cs_side (cn_side c) = Server \<or> is_closed (cn_state c) \<or>
     sp_largest_acked_packet (cn_spaces c SHandshake) \<noteq> None \<or> sp_largest_acked_packet (cn_spaces c SData) \<noteq> None \<or>
     sp_crypto (cn_spaces c SData) \<noteq> None \<and> sp_crypto (cn_spaces c SHandshake) = None"

definition set_timer :: "timer \<Rightarrow> nat \<Rightarrow> ('s, 'c) connection \<Rightarrow> ('s, 'c) connection" where
  "set_timer t time c = c\<lparr>cn_timers := timer_set t time (cn_timers c)\<rparr>"

definition stop_timer :: "timer \<Rightarrow> ('s, 'c) connection \<Rightarrow> ('s, 'c) connection" where
  "stop_timer t c = c\<lparr>cn_timers := timer_stop t (cn_timers c)\<rparr>"

definition set_loss_detection_timer :: "nat \<Rightarrow> ('s, 'c) connection \<Rightarrow> ('s, 'c) connection" where
  "set_loss_detection_timer now c =
     (if is_closed (cn_state c) then c
      else
        (case loss_time_and_space c of
           Some (loss_time, _) \<Rightarrow> set_timer LossDetection loss_time c
         | None \<Rightarrow>
             if anti_amplification_blocked 1 (cn_path c) then stop_timer LossDetection c
             else if if_ack_eliciting (pd_in_flight (cn_path c)) = 0 \<and> peer_completed_address_validation c
             then stop_timer LossDetection c
             else
               (case pto_time_and_space now c of
                  Some (timeout, _) \<Rightarrow> set_timer LossDetection timeout c
                | None \<Rightarrow> stop_timer LossDetection c)))"

section \<open>Lost packets\<close>

text \<open>Discarding a space abandons its packets.\<close>

definition discard_space :: "nat \<Rightarrow> space_id \<Rightarrow> ('s, 'c) connection \<Rightarrow> ('s, 'c) connection" where
  "discard_space now space c =
     (let c1 = (if space = SInitial then
                  (case cn_side c of
                     ClientSide _ name stored \<Rightarrow> c\<lparr>cn_side := ClientSide [] name stored\<rparr>
                   | ServerSide _ \<Rightarrow> c)
                else c);
          sent_packets = sp_sent_packets (cn_spaces c1 space);
          c2 = with_space space (\<lambda>sp. sp\<lparr>sp_crypto := None, sp_time_of_last_ack_eliciting_packet := None, sp_loss_time := None,
            sp_sent_packets := []\<rparr>) c1 in
      set_loss_detection_timer now (foldl (\<lambda>c e. remove_in_flight (snd e) c) c2 sent_packets))"

definition drain_lost_packets :: "nat \<Rightarrow> space_id \<Rightarrow> ('s, 'c) connection \<Rightarrow> ('s, 'c) connection" where
  "drain_lost_packets now space c =
     (let two_pto = 2 * pto_base (pd_rtt (cn_path c)) in
      with_space space (\<lambda>sp. sp\<lparr>sp_lost_packets := filter (\<lambda>(_, info). now - lp_time_sent info \<le> two_pto) (sp_lost_packets sp)\<rparr>) c)"

text \<open>The packets a scan is about: their space, the time, the largest packet number acknowledged and the thresholds.\<close>

record loss_params =
  lo_space :: space_id
  lo_now :: nat
  lo_largest_acked :: nat
  lo_loss_delay :: nat
  lo_packet_threshold :: nat
  lo_mtu_probe :: "nat option"
  lo_due_to_ack :: bool
  lo_congestion_period :: nat
  lo_first_after_rtt_sample :: "(space_id \<times> nat) option"

record loss_scan =
  ls_lost :: "nat list"
  ls_mtu_probe :: "nat option"
  ls_size :: nat
  ls_congestion_start :: "nat option"
  ls_prev_packet :: "nat option"
  ls_persistent :: bool
  ls_loss_time :: "nat option"

definition loss_scan_start :: loss_scan where
  "loss_scan_start = \<lparr>ls_lost = [], ls_mtu_probe = None, ls_size = 0, ls_congestion_start = None, ls_prev_packet = None,
     ls_persistent = False, ls_loss_time = None\<rparr>"

definition is_lost :: "loss_params \<Rightarrow> nat \<Rightarrow> sent_packet \<Rightarrow> bool" where
  "is_lost lo packet info \<longleftrightarrow>
     lo_loss_delay lo \<le> lo_now lo - sk_time_sent info \<or> packet + lo_packet_threshold lo \<le> lo_largest_acked lo"

fun space_code :: "space_id \<Rightarrow> nat" where
  "space_code SInitial = 0"
| "space_code SHandshake = 1"
| "space_code SData = 2"

definition after_rtt_sample :: "loss_params \<Rightarrow> nat \<Rightarrow> bool" where
  "after_rtt_sample lo packet =
     (case lo_first_after_rtt_sample lo of
        None \<Rightarrow> False
      | Some (space, n) \<Rightarrow>
          space_code space < space_code (lo_space lo) \<or> space = lo_space lo \<and> n < packet)"

definition scan_packet :: "loss_params \<Rightarrow> loss_scan \<Rightarrow> nat \<times> sent_packet \<Rightarrow> loss_scan" where
  "scan_packet lo s e =
     (let packet = fst e; info = snd e;
          start = (if ls_prev_packet s \<noteq> Some (wrapping_sub packet 1) then None else ls_congestion_start s);
          s' = (if is_lost lo packet info then
                  if Some packet = lo_mtu_probe lo then s\<lparr>ls_mtu_probe := lo_mtu_probe lo, ls_congestion_start := start\<rparr>
                  else
                    let s1 = s\<lparr>ls_lost := ls_lost s @ [packet], ls_size := ls_size s + sk_size info, ls_congestion_start := start\<rparr> in
                    if sk_ack_eliciting info \<and> lo_due_to_ack lo then
                      (case start of
                         Some t \<Rightarrow> if lo_congestion_period lo < sk_time_sent info - t then s1\<lparr>ls_persistent := True\<rparr> else s1
                       | None \<Rightarrow> if after_rtt_sample lo packet then s1\<lparr>ls_congestion_start := Some (sk_time_sent info)\<rparr> else s1)
                    else s1
                else
                  let next_loss_time = sk_time_sent info + lo_loss_delay lo in
                  s\<lparr>ls_loss_time := Some (case ls_loss_time s of None \<Rightarrow> next_loss_time | Some x \<Rightarrow> min x next_loss_time),
                    ls_congestion_start := None\<rparr>) in
      s'\<lparr>ls_prev_packet := Some packet\<rparr>)"

definition lose_packet :: "space_id \<Rightarrow> nat \<Rightarrow> ('s, 'c) connection \<Rightarrow> ('s, 'c) connection option" where
  "lose_packet space packet c = do {
     (taken, sp) \<leftarrow> space_take packet (cn_spaces c space);
     info \<leftarrow> taken;
     let c1 = remove_in_flight info (with_space space (\<lambda>_. sp) c);
     let c2 = c1\<lparr>cn_streams := foldl (\<lambda>s f. streams_retransmit f s) (cn_streams c1) (sk_stream_frames info)\<rparr>;
     let c3 = with_space space (\<lambda>sp. sp\<lparr>sp_pending := retransmits_or_thin (sp_pending sp) (sk_retransmits info)\<rparr>) c2;
     let c4 = with_path (\<lambda>p. p\<lparr>pd_mtud := md_on_non_probe_lost packet (sk_size info) (pd_mtud p)\<rparr>) c3;
     Some (with_space space
       (\<lambda>sp. sp\<lparr>sp_lost_packets := bm_insert packet \<lparr>lp_time_sent = sk_time_sent info\<rparr> (sp_lost_packets sp)\<rparr>) c4) }"

definition check_black_hole :: "('s, 'c) env \<Rightarrow> nat \<Rightarrow> ('s, 'c) connection \<Rightarrow> ('s, 'c) connection option" where
  "check_black_hole ev now c =
     (let (found, m) = md_black_hole_detected now (pd_mtud (cn_path c)); c1 = with_path (\<lambda>p. p\<lparr>pd_mtud := m\<rparr>) c in
      if \<not> found then Some c1
      else
        let c2 = with_path (\<lambda>p. p\<lparr>pd_congestion := ctl_on_mtu_update (ev_controller ev) (md_current_mtu m) (pd_congestion p)\<rparr>) c1 in
        do {
          overhead \<leftarrow> predict_1rtt_overhead None c2;
          (case dg_max_size (md_current_mtu m) overhead (tp_max_datagram_frame_size (cn_peer_params c2)) of
             None \<Rightarrow> Some c2
           | Some max_datagram_size \<Rightarrow>
               let (dropped, d) = dg_drop_oversized max_datagram_size (cn_datagrams c2) in
               if dropped \<and> dg_send_blocked d
               then Some (push_event DatagramsUnblocked (c2\<lparr>cn_datagrams := d\<lparr>dg_send_blocked := False\<rparr>\<rparr>))
               else Some (c2\<lparr>cn_datagrams := d\<rparr>)) })"

definition on_packets_lost :: "('s, 'c) env \<Rightarrow> nat \<Rightarrow> space_id \<Rightarrow> loss_scan \<Rightarrow> ('s, 'c) connection \<Rightarrow> ('s, 'c) connection option" where
  "on_packets_lost ev now space s c =
     (if ls_lost s = [] then Some c
      else do {
        largest \<leftarrow> map_of (sp_sent_packets (cn_spaces c space)) (last (ls_lost s));
        c1 \<leftarrow> ofold (lose_packet space) (ls_lost s) c;
        c2 \<leftarrow> check_black_hole ev now c1;
        let lost_ack_eliciting = (if_bytes (pd_in_flight (cn_path c)) \<noteq> if_bytes (pd_in_flight (cn_path c2)));
        Some (if lost_ack_eliciting
          then with_path (\<lambda>p. p\<lparr>pd_congestion := ctl_on_congestion_event (ev_controller ev) now (sk_time_sent largest)
                 (ls_persistent s) False (ls_size s) (pd_congestion p)\<rparr>) c2
          else c2) })"

definition on_mtu_probe_lost :: "loss_scan \<Rightarrow> ('s, 'c) connection \<Rightarrow> ('s, 'c) connection option" where
  "on_mtu_probe_lost s c =
     (case ls_mtu_probe s of
        None \<Rightarrow> Some c
      | Some packet \<Rightarrow> do {
          (taken, sp) \<leftarrow> space_take packet (cn_spaces c SData);
          info \<leftarrow> taken;
          Some (with_path (\<lambda>p. p\<lparr>pd_mtud := md_on_probe_lost (pd_mtud p)\<rparr>)
            (remove_in_flight info (with_space SData (\<lambda>_. sp) c))) })"

definition loss_params :: "('s, 'c) env \<Rightarrow> nat \<Rightarrow> space_id \<Rightarrow> bool \<Rightarrow> nat \<Rightarrow> ('s, 'c) connection \<Rightarrow> loss_params" where
  "loss_params ev now space due_to_ack largest_acked c =
     \<lparr>lo_space = space, lo_now = now, lo_largest_acked = largest_acked,
      lo_loss_delay = max (fl_mul_f32 (ev_float ev) (rtt_conservative (pd_rtt (cn_path c)))) TIMER_GRANULARITY,
      lo_packet_threshold = tc_packet_threshold (cn_config c), lo_mtu_probe = in_flight_mtu_probe (pd_mtud (cn_path c)),
      lo_due_to_ack = due_to_ack,
      lo_congestion_period = min (pto SData c * tc_persistent_congestion_threshold (cn_config c)) DURATION_MAX,
      lo_first_after_rtt_sample = pd_first_packet_after_rtt_sample (cn_path c)\<rparr>"

definition detect_lost_packets :: "('s, 'c) env \<Rightarrow> nat \<Rightarrow> space_id \<Rightarrow> bool \<Rightarrow> ('s, 'c) connection \<Rightarrow> ('s, 'c) connection option" where
  "detect_lost_packets ev now space due_to_ack c = do {
     largest_acked \<leftarrow> sp_largest_acked_packet (cn_spaces c space);
     let s = foldl (scan_packet (loss_params ev now space due_to_ack largest_acked c)) loss_scan_start
       (filter (\<lambda>e. fst e < largest_acked) (sp_sent_packets (cn_spaces c space)));
     let c1 = drain_lost_packets now space (with_space space (\<lambda>sp. sp\<lparr>sp_loss_time := ls_loss_time s\<rparr>) c);
     c2 \<leftarrow> on_packets_lost ev now space s c1;
     on_mtu_probe_lost s c2 }"

section \<open>Acknowledgements\<close>

text \<open>
  The ranges of an ACK frame, inclusive at both ends; \<open>BTreeMap::range\<close> panics on a range that ends before it starts.
\<close>

definition ack_ranges :: "ack \<Rightarrow> urange list option" where
  "ack_ranges a =
     (case ack_iter_collect (ack_largest a, ack_additional a) of
        None \<Rightarrow> None
      | Some ranges \<Rightarrow> if \<forall>(lo, hi) \<in> set ranges. lo \<le> hi then Some ranges else None)"

definition detect_spurious_loss :: "urange list \<Rightarrow> space_id \<Rightarrow> ('s, 'c) connection \<Rightarrow> bool \<times> ('s, 'c) connection" where
  "detect_spurious_loss ranges space c =
     (let lost_packets = sp_lost_packets (cn_spaces c space) in
      if lost_packets = [] then (False, c)
      else
        let remaining = foldl (\<lambda>m (lo, hi). filter (\<lambda>e. \<not> (lo \<le> fst e \<and> fst e \<le> hi)) m) lost_packets ranges in
        (remaining = [], with_space space (\<lambda>sp. sp\<lparr>sp_lost_packets := remaining\<rparr>) c))"

definition process_ecn :: "('s, 'c) env \<Rightarrow> nat \<Rightarrow> space_id \<Rightarrow> nat \<Rightarrow> ecn_counts \<Rightarrow> nat \<Rightarrow> ('s, 'c) connection \<Rightarrow> ('s, 'c) connection" where
  "process_ecn ev now space newly_acked ecn largest_sent_time c =
     (let (r, sp) = detect_ecn newly_acked ecn (cn_spaces c space); c1 = with_space space (\<lambda>_. sp) c in
      case r of
        Inl _ \<Rightarrow> with_space space (\<lambda>sp. sp\<lparr>sp_ecn_feedback := ecn_counts_ZERO\<rparr>) (with_path (\<lambda>p. p\<lparr>pd_sending_ecn := False\<rparr>) c1)
      | Inr False \<Rightarrow> c1
      | Inr True \<Rightarrow>
          with_path (\<lambda>p. p\<lparr>pd_congestion :=
            ctl_on_congestion_event (ev_controller ev) now largest_sent_time False True 0 (pd_congestion p)\<rparr>) c1)"

text \<open>What the acknowledgement of a packet means to the streams.\<close>

definition ack_streams :: "sent_packet \<Rightarrow> streams \<Rightarrow> streams option" where
  "ack_streams info s = do {
     s1 \<leftarrow> (case sk_retransmits info of
        None \<Rightarrow> Some s
      | Some r \<Rightarrow> ofold (\<lambda>(i, _). reset_acked i) (rt_reset_stream r) s);
     ofold received_ack_of (sk_stream_frames info) s1 }"

definition on_packet_acked :: "('s, 'c) env \<Rightarrow> nat \<Rightarrow> sent_packet \<Rightarrow> ('s, 'c) connection \<Rightarrow> ('s, 'c) connection option" where
  "on_packet_acked ev now info c =
     (let c1 = remove_in_flight info c;
          c2 = (if sk_ack_eliciting info \<and> pd_challenge (cn_path c1) = None
                then with_path (\<lambda>p. p\<lparr>pd_congestion := ctl_on_ack (ev_controller ev) now (sk_time_sent info) (sk_size info)
                       (cn_app_limited c1) (pd_rtt p) (pd_congestion p)\<rparr>) c1
                else c1) in
      map_option (\<lambda>s. c2\<lparr>cn_streams := s\<rparr>) (ack_streams info (cn_streams c2)))"

text \<open>The packets in flight among those acknowledged, as a range set, or the error for a skipped number.\<close>

fun newly_acked :: "space_id \<Rightarrow> pn_filter \<Rightarrow> nat list \<Rightarrow> urange list \<Rightarrow> urange list \<Rightarrow> transport_error + urange list" where
  "newly_acked space f sent acc [] = Inr acc"
| "newly_acked space f sent acc ((lo, hi) # ranges) =
     (case pf_check_ack space lo hi f of
        Inl e \<Rightarrow> Inl e
      | Inr _ \<Rightarrow> newly_acked space f sent
          (foldl (\<lambda>rs n. fst (ars_insert_one n rs)) acc (filter (\<lambda>n. lo \<le> n \<and> n \<le> hi) sent)) ranges)"

definition ack_packet :: "('s, 'c) env \<Rightarrow> nat \<Rightarrow> space_id \<Rightarrow> nat \<Rightarrow> bool \<times> ('s, 'c) connection \<Rightarrow> (bool \<times> ('s, 'c) connection) option" where
  "ack_packet ev now space packet = (\<lambda>(eliciting, c). do {
     (taken, sp) \<leftarrow> space_take packet (cn_spaces c space);
     (case taken of
        None \<Rightarrow> Some (eliciting, c)
      | Some info \<Rightarrow>
          let sp1 = (case sk_largest_acked info of
                       None \<Rightarrow> sp
                     | Some acked \<Rightarrow> sp\<lparr>sp_pending_acks := subtract_below acked (sp_pending_acks sp)\<rparr>);
              c1 = with_space space (\<lambda>_. sp1) c;
              (mtu_updated, m) = md_on_acked space packet (sk_size info) (pd_mtud (cn_path c1));
              c2 = with_path (\<lambda>p. p\<lparr>pd_mtud := m\<rparr>) c1;
              c3 = (if mtu_updated
                    then with_path (\<lambda>p. p\<lparr>pd_congestion := ctl_on_mtu_update (ev_controller ev) (md_current_mtu m) (pd_congestion p)\<rparr>) c2
                    else c2);
              c4 = c3\<lparr>cn_ack_frequency := ack_frequency_on_acked packet (cn_ack_frequency c3)\<rparr> in
          map_option (Pair (eliciting \<or> sk_ack_eliciting info)) (on_packet_acked ev now info c4)) })"

definition note_largest_acked :: "nat \<Rightarrow> keys packet_space \<Rightarrow> keys packet_space" where
  "note_largest_acked largest sp =
     sp\<lparr>sp_largest_acked_packet := Some largest,
       sp_largest_acked_packet_sent :=
         (case map_of (sp_sent_packets sp) largest of None \<Rightarrow> sp_largest_acked_packet_sent sp | Some info \<Rightarrow> sk_time_sent info)\<rparr>"

definition sample_rtt :: "nat \<Rightarrow> space_id \<Rightarrow> nat \<Rightarrow> ('s, 'c) connection \<Rightarrow> ('s, 'c) connection" where
  "sample_rtt now space delay c =
     (let ack_delay = (if space \<noteq> SData then 0
            else min (af_peer_max_ack_delay (cn_ack_frequency c))
              (delay * 2 ^ tp_ack_delay_exponent (cn_peer_params c) mod 2 ^ 64 * 1000));
          rtt = now - sp_largest_acked_packet_sent (cn_spaces c space) in
      with_path (\<lambda>p. p\<lparr>pd_rtt := rtt_update ack_delay rtt (pd_rtt p),
        pd_first_packet_after_rtt_sample :=
          (case pd_first_packet_after_rtt_sample p of
             None \<Rightarrow> Some (space, sp_next_packet_number (cn_spaces c space)) | Some x \<Rightarrow> Some x)\<rparr>) c)"

definition on_ack_received ::
    "('s, 'c) env \<Rightarrow> nat \<Rightarrow> space_id \<Rightarrow> ack \<Rightarrow> ('s, 'c) connection \<Rightarrow> ((transport_error + unit) \<times> ('s, 'c) connection) option" where
  "on_ack_received ev now space a c =
     (if sp_next_packet_number (cn_spaces c space) \<le> ack_largest a
      then Some (Inl (te_new PROTOCOL_VIOLATION ''unsent packet acked''), c)
      else do {
        let new_largest = (case sp_largest_acked_packet (cn_spaces c space) of None \<Rightarrow> True | Some pn \<Rightarrow> pn < ack_largest a);
        let c1 = (if new_largest then with_space space (note_largest_acked (ack_largest a)) c else c);
        ranges \<leftarrow> ack_ranges a;
        let (spurious, c2) = detect_spurious_loss ranges space c1;
        let c3 = (if spurious
           then with_path (\<lambda>p. p\<lparr>pd_congestion := ctl_on_spurious_congestion_event (ev_controller ev) (pd_congestion p)\<rparr>) c2
           else c2);
        (case newly_acked space (cn_packet_number_filter c3) (map fst (sp_sent_packets (cn_spaces c3 space))) [] ranges of
           Inl e \<Rightarrow> Some (Inl e, c3)
         | Inr acked \<Rightarrow>
             if acked = [] then Some (Inr (), c3)
             else do {
               (ack_eliciting_acked, c4) \<leftarrow> ofold (ack_packet ev now space) (ars_elts acked) (False, c3);
               let c5 = with_path (\<lambda>p. p\<lparr>pd_congestion := ctl_on_end_acks (ev_controller ev) now (if_bytes (pd_in_flight p))
                  (cn_app_limited c4) (sp_largest_acked_packet (cn_spaces c4 space)) (pd_congestion p)\<rparr>) c4;
               let c6 = (if new_largest \<and> ack_eliciting_acked then sample_rtt now space (ack_delay a) c5 else c5);
               c7 \<leftarrow> detect_lost_packets ev now space True c6;
               let c8 = (if peer_completed_address_validation c7 then c7\<lparr>cn_pto_count := 0\<rparr> else c7);
               let c9 = (if pd_sending_ecn (cn_path c8) then
                  (case ack_ecn a of
                     Some ecn \<Rightarrow>
                       if new_largest
                       then process_ecn ev now space (length acked) ecn (sp_largest_acked_packet_sent (cn_spaces c8 space)) c8
                       else c8
                   | None \<Rightarrow> with_path (\<lambda>p. p\<lparr>pd_sending_ecn := False\<rparr>) c8)
                  else c8);
               Some (Inr (), set_loss_detection_timer now c9) }) })"

section \<open>The loss detection timer\<close>

definition on_loss_detection_timeout :: "('s, 'c) env \<Rightarrow> nat \<Rightarrow> ('s, 'c) connection \<Rightarrow> ('s, 'c) connection option" where
  "on_loss_detection_timeout ev now c =
     (case loss_time_and_space c of
        Some (_, space) \<Rightarrow> map_option (set_loss_detection_timer now) (detect_lost_packets ev now space False c)
      | None \<Rightarrow>
          (case pto_time_and_space now c of
             None \<Rightarrow> Some c
           | Some (_, space) \<Rightarrow>
               let probes = (if if_ack_eliciting (pd_in_flight (cn_path c)) = 0 then 1 else 2);
                   c1 = with_space space (\<lambda>sp. sp\<lparr>sp_loss_probes := min (sp_loss_probes sp + probes) u32_max\<rparr>) c in
               Some (set_loss_detection_timer now (c1\<lparr>cn_pto_count := min (cn_pto_count c1 + 1) u32_max\<rparr>))))"

end
