(* ===== verification/Handshaking.thy ===== *)
theory Handshaking
  imports Connection
begin

text \<open>
  The handshake in \<open>quic-proto/src/connection/mod.rs\<close>: exchanging data with the cryptographic session, new keys, the
  parameters of the peer and the creation of a connection. A panic is \<open>None\<close>, and so is a session that never stops
  producing handshake data.
\<close>

section \<open>Handshake data\<close>

text \<open>Handshake data written by the session is queued behind what was queued before.\<close>

definition queue_crypto :: "space_id \<Rightarrow> bytes \<Rightarrow> ('s, 'c) connection \<Rightarrow> ('s, 'c) connection" where
  "queue_crypto space outgoing c =
     (let offset = sp_crypto_offset (cn_spaces c space);
          c1 = (case cn_state c of
                  StHandshake hs \<Rightarrow>
                    if space = SInitial \<and> offset = 0 \<and> cs_side (cn_side c) = Client
                    then c\<lparr>cn_state := StHandshake (hs\<lparr>hs_client_hello := Some outgoing\<rparr>)\<rparr> else c
                | _ \<Rightarrow> c) in
      with_space space (\<lambda>sp. sp\<lparr>sp_crypto_offset := sp_crypto_offset sp + length outgoing,
        sp_pending := (sp_pending sp)\<lparr>rt_crypto := rt_crypto (sp_pending sp) @ [\<lparr>cf_offset = offset, cf_data = outgoing\<rparr>]\<rparr>\<rparr>) c1)"

definition upgrade_crypto :: "('s, 'c) env \<Rightarrow> space_id \<Rightarrow> keys \<Rightarrow> ('s, 'c) connection \<Rightarrow> ('s, 'c) connection option" where
  "upgrade_crypto ev space crypto c = do {
     c1 \<leftarrow> (if space = SData then
              (case ss_next_1rtt_keys (ev_session ev) (cn_crypto c) of
                 (Some next, session) \<Rightarrow> Some (c\<lparr>cn_next_crypto := Some next, cn_crypto := session\<rparr>)
               | (None, _) \<Rightarrow> None)
            else Some c);
     let c2 = (with_space space (\<lambda>sp. sp\<lparr>sp_crypto := Some crypto\<rparr>) c1)\<lparr>cn_highest_space := space\<rparr>;
     Some (if space = SData \<and> cs_side (cn_side c2) = Client then c2\<lparr>cn_zero_rtt_crypto := None\<rparr> else c2) }"

partial_function (option) write_crypto :: "('s, 'c) env \<Rightarrow> ('s, 'c) connection \<Rightarrow> ('s, 'c) connection option" where
  "write_crypto ev c =
     (let space = cn_highest_space c; (keys, outgoing, session) = ss_write_handshake (ev_session ev) (cn_crypto c);
          c1 = c\<lparr>cn_crypto := session\<rparr> in
      Option.bind
        (case keys of
           None \<Rightarrow> Some c1
         | Some crypto \<Rightarrow>
             (case space of
                SInitial \<Rightarrow> upgrade_crypto ev SHandshake crypto c1
              | SHandshake \<Rightarrow> upgrade_crypto ev SData crypto c1
              | SData \<Rightarrow> None))
        (\<lambda>c2. if outgoing = [] then (if space = cn_highest_space c2 then Some c2 else write_crypto ev c2)
              else write_crypto ev (queue_crypto space outgoing c2)))"

declare write_crypto.simps [code]

text \<open>Every chunk that has become readable goes to the session.\<close>

partial_function (option) read_chunks ::
    "('s, 'c) env \<Rightarrow> space_id \<Rightarrow> ('s, 'c) connection \<Rightarrow> ((transport_error + unit) \<times> ('s, 'c) connection) option" where
  "read_chunks ev space c =
     (case assembler_read u64_max True (sp_crypto_stream (cn_spaces c space)) of
        (None, asm) \<Rightarrow> Some (Inr (), with_space space (\<lambda>sp. sp\<lparr>sp_crypto_stream := asm\<rparr>) c)
      | (Some (_, bytes), asm) \<Rightarrow>
          let c1 = with_space space (\<lambda>sp. sp\<lparr>sp_crypto_stream := asm\<rparr>) c;
              (r, session) = ss_read_handshake (ev_session ev) bytes (cn_crypto c1); c2 = c1\<lparr>cn_crypto := session\<rparr> in
          (case r of
             Inl e \<Rightarrow> Some (Inl e, c2)
           | Inr ready \<Rightarrow> read_chunks ev space (if ready then push_event HandshakeDataReady c2 else c2)))"

declare read_chunks.simps [code]

fun space_index :: "space_id \<Rightarrow> nat" where
  "space_index SInitial = 0"
| "space_index SHandshake = 1"
| "space_index SData = 2"

definition read_crypto ::
    "('s, 'c) env \<Rightarrow> space_id \<Rightarrow> crypto_frame \<Rightarrow> nat \<Rightarrow> ('s, 'c) connection \<Rightarrow> ((transport_error + unit) \<times> ('s, 'c) connection) option" where
  "read_crypto ev space crypto payload_size c =
     (let expected = (if \<not> is_handshake (cn_state c) then SData
            else if cn_highest_space c = SInitial then SInitial else SHandshake);
          end_offset = cf_offset crypto + length (cf_data crypto);
          bytes_read = asm_bytes_read (sp_crypto_stream (cn_spaces c space)) in
      if space_index space < space_index expected \<and> bytes_read < end_offset
      then Some (Inl (te_new PROTOCOL_VIOLATION ''new data at unexpected encryption level''), c)
      else if tc_crypto_buffer_size (cn_config c) < saturating_sub end_offset bytes_read
      then Some (Inl (te_new CRYPTO_BUFFER_EXCEEDED ''''), c)
      else read_chunks ev space
        (with_space space (\<lambda>sp. sp\<lparr>sp_crypto_stream :=
          assembler_insert (cf_offset crypto) (cf_data crypto) payload_size (sp_crypto_stream sp)\<rparr>) c))"

section \<open>Parameters of the peer\<close>

text \<open>The timeouts are given in milliseconds and negotiated in nanoseconds.\<close>

definition negotiate_max_idle_timeout :: "nat option \<Rightarrow> nat option \<Rightarrow> nat option" where
  "negotiate_max_idle_timeout x y =
     (case (if x = Some 0 then None else x, if y = Some 0 then None else y) of
        (None, None) \<Rightarrow> None
      | (None, Some b) \<Rightarrow> Some (b * 1000000)
      | (Some a, None) \<Rightarrow> Some (a * 1000000)
      | (Some a, Some b) \<Rightarrow> Some (min a b * 1000000))"

definition set_peer_params :: "transport_parameters \<Rightarrow> ('s, 'c) connection \<Rightarrow> ('s, 'c) connection option" where
  "set_peer_params params c = do {
     let c1 = c\<lparr>cn_streams := set_params params (cn_streams c),
       cn_idle_timeout := negotiate_max_idle_timeout (tc_max_idle_timeout (cn_config c)) (Some (tp_max_idle_timeout params))\<rparr>;
     c2 \<leftarrow> (case tp_preferred_address params of
        None \<Rightarrow> Some c1
      | Some info \<Rightarrow>
          (case cq_insert \<lparr>nci_sequence = 1, nci_retire_prior_to = 0, nci_id = pa_connection_id info,
               nci_reset_token = pa_stateless_reset_token info\<rparr> (cn_rem_cids c1) of
             Some (Inr _, q) \<Rightarrow> Some (c1\<lparr>cn_rem_cids := q\<rparr>)
           | _ \<Rightarrow> None));
     Some (with_path (\<lambda>p. p\<lparr>pd_mtud := on_peer_max_udp_payload_size_received (min (tp_max_udp_payload_size params) 65535) (pd_mtud p)\<rparr>)
       (c2\<lparr>cn_ack_frequency := (cn_ack_frequency c2)\<lparr>af_peer_max_ack_delay := get_max_ack_delay params\<rparr>, cn_peer_params := params\<rparr>)) }"

definition handle_peer_params ::
    "transport_parameters \<Rightarrow> ('s, 'c) connection \<Rightarrow> ((transport_error + unit) \<times> ('s, 'c) connection) option" where
  "handle_peer_params params c =
     (if Some (cn_orig_rem_cid c) \<noteq> tp_initial_src_cid params \<or>
         cs_side (cn_side c) = Client \<and>
           (Some (cn_initial_dst_cid c) \<noteq> tp_original_dst_cid params \<or> cn_retry_src_cid c \<noteq> tp_retry_src_cid params)
      then Some (Inl (te_new TRANSPORT_PARAMETER_ERROR ''CID authentication failure''), c)
      else map_option (Pair (Inr ())) (set_peer_params params c))"

definition issue_first_cids :: "nat \<Rightarrow> ('s, 'c) connection \<Rightarrow> ('s, 'c) connection" where
  "issue_first_cids now c =
     (if cs_cid_len (cn_local_cid_state c) = 0 then c
      else
        let n = wrapping_sub (issue_cids_limit (cn_peer_params c)) 1;
            n' = (case cn_side c of
                    ServerSide config \<Rightarrow> if sc_has_preferred_address config then wrapping_sub n 1 else n
                  | ClientSide _ _ _ \<Rightarrow> n) in
        push_endpoint_event (EvNeedIdentifiers now n') c)"

definition on_path_validated :: "('s, 'c) connection \<Rightarrow> ('s, 'c) connection" where
  "on_path_validated c =
     (let c1 = with_path (\<lambda>p. p\<lparr>pd_validated := True\<rparr>) c in
      case cn_side c1 of
        ClientSide _ _ _ \<Rightarrow> c1
      | ServerSide config \<Rightarrow>
          with_space SData (\<lambda>sp. sp\<lparr>sp_pending := (sp_pending sp)
            \<lparr>rt_new_tokens := replicate (sc_validation_tokens_sent config) (pd_remote (cn_path c1))\<rparr>\<rparr>) c1)"

definition init_0rtt :: "('s, 'c) env \<Rightarrow> ('s, 'c) connection \<Rightarrow> ('s, 'c) connection option" where
  "init_0rtt ev c =
     (case ss_early_crypto (ev_session ev) (cn_crypto c) of
        None \<Rightarrow> Some c
      | Some (header, packet) \<Rightarrow>
          let enable = (\<lambda>c. c\<lparr>cn_zero_rtt_enabled := True, cn_zero_rtt_crypto := Some \<lparr>zr_header = header, zr_packet = packet\<rparr>\<rparr>) in
          if cs_side (cn_side c) = Client then
            (case ss_transport_parameters (ev_session ev) (cn_crypto c) of
               Inl _ \<Rightarrow> Some c
             | Inr None \<Rightarrow> None
             | Inr (Some params) \<Rightarrow>
                 map_option enable (set_peer_params (params\<lparr>tp_initial_src_cid := None, tp_original_dst_cid := None,
                   tp_preferred_address := None, tp_retry_src_cid := None, tp_stateless_reset_token := None,
                   tp_min_ack_delay := None, tp_ack_delay_exponent := tp_ack_delay_exponent tp_default,
                   tp_max_ack_delay := tp_max_ack_delay tp_default\<rparr>) c))
          else Some (enable c))"

section \<open>New connections\<close>

text \<open>A client's token is what its token store had for the server name.\<close>

datatype side_args =
    ClientArgs bytes string
  | ServerArgs server_config "connection_id option" bool

fun sa_pref_addr_cid :: "side_args \<Rightarrow> connection_id option" where
  "sa_pref_addr_cid (ClientArgs _ _) = None"
| "sa_pref_addr_cid (ServerArgs _ cid _) = cid"

fun sa_path_validated :: "side_args \<Rightarrow> bool" where
  "sa_path_validated (ClientArgs _ _) = True"
| "sa_path_validated (ServerArgs _ _ validated) = validated"

fun sa_side :: "side_args \<Rightarrow> connection_side" where
  "sa_side (ClientArgs token name) = ClientSide token name []"
| "sa_side (ServerArgs config _ _) = ServerSide config"

definition connection_new ::
    "('s, 'c) env \<Rightarrow> transport_config \<Rightarrow> connection_id \<Rightarrow> connection_id \<Rightarrow> connection_id \<Rightarrow> socket_addr \<Rightarrow> 's \<Rightarrow> nat \<Rightarrow> nat option \<Rightarrow>
       nat \<Rightarrow> nat \<Rightarrow> bool \<Rightarrow> side_args \<Rightarrow> ('s, 'c) connection option" where
  "connection_new ev config init_cid loc_cid rem_cid remote crypto cid_len cid_lifetime now version allow_mtud args = do {
     let side = cs_side (sa_side args);
     streams \<leftarrow> streams_new side (tc_max_concurrent_uni_streams config) (tc_max_concurrent_bidi_streams config)
       (tc_send_window config) (tc_receive_window config) (tc_stream_receive_window config);
     let spin = (tc_allow_spin config \<and> ev_random ev 1 0 8 < 7);
     let draws = (if tc_allow_spin config then 2 else 1);
     pnf \<leftarrow> pf_new (ev_random ev draws);
     let this = \<lparr>cn_config = config, cn_rng = draws + 1, cn_crypto = crypto, cn_handshake_cid = loc_cid,
       cn_rem_handshake_cid = rem_cid,
       cn_path = path_new (ev_float ev) (ev_controller ev) remote allow_mtud None 0 now config, cn_path_counter = 0,
       cn_allow_mtud = allow_mtud, cn_prev_path = None,
       cn_state = StHandshake \<lparr>hs_rem_cid_set = (side = Server), hs_expected_token = [], hs_client_hello = None\<rparr>,
       cn_side = sa_side args, cn_zero_rtt_enabled = False, cn_zero_rtt_crypto = None, cn_key_phase = False,
       cn_key_phase_size = ev_random ev 0 10 1000, cn_peer_params = tp_default, cn_orig_rem_cid = rem_cid,
       cn_initial_dst_cid = init_cid, cn_retry_src_cid = None, cn_events = [], cn_endpoint_events = [],
       cn_spin_enabled = spin, cn_spin = False,
       cn_spaces = (\<lambda>_. space_new now)(SInitial := (space_new now)
         \<lparr>sp_crypto := Some (ss_initial_keys (ev_session ev) init_cid side crypto)\<rparr>),
       cn_highest_space = SInitial, cn_prev_crypto = None, cn_next_crypto = None, cn_accepted_0rtt = False,
       cn_permit_idle_reset = True,
       cn_idle_timeout = (case tc_max_idle_timeout config of
          None \<Rightarrow> None | Some ms \<Rightarrow> if ms = 0 then None else Some (ms * 1000000)),
       cn_timers = timers_default, cn_authentication_failures = 0, cn_error = None, cn_packet_number_filter = pnf,
       cn_path_responses = [], cn_close = False, cn_ack_frequency = ack_frequency_new (get_max_ack_delay tp_default),
       cn_pto_count = 0, cn_receiving_ecn = False, cn_total_authed_packets = 0, cn_app_limited = False,
       cn_streams = streams, cn_rem_cids = cq_new rem_cid,
       cn_local_cid_state = cid_state_new (ev_checked_add ev) cid_len cid_lifetime now
         (if sa_pref_addr_cid args \<noteq> None then 2 else 1),
       cn_datagrams = dg_default, cn_version = version\<rparr>;
     let this1 = (if sa_path_validated args then on_path_validated this else this);
     if side = Client then do { this2 \<leftarrow> write_crypto ev this1; init_0rtt ev this2 } else Some this1 }"

section \<open>A connection of a server\<close>

text \<open>Keys that leave a packet as it is and a session that never has anything to say.\<close>

definition example_header_key :: header_key where
  "example_header_key = \<lparr>hk_encrypt = (\<lambda>_ b. b), hk_decrypt = (\<lambda>_ b. b), hk_sample_size = 16\<rparr>"

definition example_packet_key :: packet_key where
  "example_packet_key = \<lparr>pk_encrypt = (\<lambda>_ b _. b), pk_decrypt = (\<lambda>_ _ b. Some b), pk_tag_len = 16,
     pk_confidentiality_limit = 2 ^ 23, pk_integrity_limit = 2 ^ 52\<rparr>"

definition example_keys :: keys where
  "example_keys = \<lparr>ks_header = \<lparr>kp_local = example_header_key, kp_remote = example_header_key\<rparr>,
     ks_packet = \<lparr>kp_local = example_packet_key, kp_remote = example_packet_key\<rparr>\<rparr>"

definition example_session :: "unit session" where
  "example_session = \<lparr>ss_initial_keys = (\<lambda>_ _ _. example_keys), ss_early_crypto = (\<lambda>_. None), ss_early_data_accepted = (\<lambda>_. None),
     ss_is_handshaking = (\<lambda>_. True), ss_read_handshake = (\<lambda>_ s. (Inr False, s)), ss_transport_parameters = (\<lambda>_. Inr None),
     ss_write_handshake = (\<lambda>s. (None, [], s)), ss_next_1rtt_keys = (\<lambda>s. (Some (ks_packet example_keys), s)),
     ss_is_valid_retry = (\<lambda>_ _ _ _. True)\<rparr>"

definition example_env :: "(unit, new_reno) env" where
  "example_env = \<lparr>ev_controller = new_reno_controller (new_reno_config_default (\<lambda>w. w div 2)), ev_float = example_float,
     ev_session = example_session, ev_random = (\<lambda>_ lo _. lo), ev_checked_add = (\<lambda>a b. Some (a + b))\<rparr>"

definition example_transport :: transport_config where
  "example_transport = \<lparr>tc_packet_threshold = 3, tc_initial_rtt = 333000000, tc_initial_mtu = 1200, tc_min_mtu = 1200,
     tc_mtu_discovery_config = None, tc_max_outgoing_bytes_per_second = None, tc_persistent_congestion_threshold = 3,
     tc_keep_alive_interval = None, tc_max_idle_timeout = Some 30000, tc_datagram_receive_buffer_size = None,
     tc_datagram_send_buffer_size = 1048576, tc_ack_frequency_config = None, tc_crypto_buffer_size = 16384,
     tc_send_fairness = True, tc_pad_to_mtu = False, tc_enable_segmentation_offload = True,
     tc_max_concurrent_bidi_streams = 0, tc_max_concurrent_uni_streams = 0, tc_stream_receive_window = 1250000,
     tc_receive_window = 4611686018427387903, tc_send_window = 10000000, tc_allow_spin = False\<rparr>"

definition example_server :: "(unit, new_reno) connection" where
  "example_server = the (connection_new example_env example_transport [1] [2] [3] ([10, 0, 0, 1], 4433) () 8 None 0 1 False
     (ServerArgs \<lparr>sc_migration = True, sc_has_preferred_address = False, sc_validation_tokens_sent = 0\<rparr> None True))"

lemma example_server_fields [simp]:
  "cn_config example_server = example_transport"
  "cn_spaces example_server SHandshake = space_new 0"
  "cn_spaces example_server SInitial = (space_new 0)\<lparr>sp_crypto := Some example_keys\<rparr>"
  "cn_spaces example_server SData = space_new 0"
  "cn_endpoint_events example_server = []" "cn_prev_path example_server = None" "cn_rem_cids example_server = cq_new [3]" "cn_timers example_server = timers_default"
  "cn_pto_count example_server = 0" "cn_side example_server = ServerSide \<lparr>sc_migration = True, sc_has_preferred_address = False, sc_validation_tokens_sent = 0\<rparr>"
  "cn_packet_number_filter example_server = \<lparr>pf_next_skipped_packet_number = 0, pf_prev_skipped_packet_number = None, pf_exponent = 6\<rparr>"
  "cn_ack_frequency example_server = ack_frequency_new (get_max_ack_delay tp_default)" "pd_generation (cn_path example_server) = 0" "pd_validated (cn_path example_server)"
  "pd_rtt (cn_path example_server) = rtt_new 333000000" "in_flight_mtu_probe (pd_mtud (cn_path example_server)) = None"
  "cn_state example_server = StHandshake \<lparr>hs_rem_cid_set = True, hs_expected_token = [], hs_client_hello = None\<rparr>"
  by (simp_all add: example_server_def connection_new_def example_transport_def example_env_def example_session_def streams_new_def pf_new_def
      random_range_def saturating_pow2_def on_path_validated_def with_path_def with_space_def path_new_def md_disabled_def
      md_with_state_def in_flight_mtu_probe_def space_new_def retransmits_default_def Let_def)

end
