(* ===== verification/Key_Update.thy ===== *)
theory Key_Update
  imports Recovery Handshaking
begin

text \<open>
  \<open>quic-proto/src/connection/packet_crypto.rs\<close> and the key updates of \<open>quic-proto/src/connection/mod.rs\<close>: removing header
  protection, choosing the keys of a packet and the changes of key phase. The keys of a connection are shown to run through
  the generations the session hands out, in step with the peer's.
\<close>

section \<open>Headers\<close>

definition is_protected :: "header \<Rightarrow> bool" where
  "is_protected h = (case h of HRetry _ _ _ \<Rightarrow> False | HVersionNegotiate _ _ _ \<Rightarrow> False | _ \<Rightarrow> True)"

definition header_number :: "header \<Rightarrow> packet_number option" where
  "header_number h =
     (case h of
        HInitial i \<Rightarrow> Some (ih_number i)
      | HLong _ _ _ number _ \<Rightarrow> Some number
      | HShort _ _ _ number \<Rightarrow> Some number
      | _ \<Rightarrow> None)"

definition header_key_phase :: "header \<Rightarrow> bool" where
  "header_key_phase h = (case h of HShort _ key_phase _ _ \<Rightarrow> key_phase | _ \<Rightarrow> False)"

definition header_is_0rtt :: "header \<Rightarrow> bool" where
  "header_is_0rtt h = (case h of HLong ty _ _ _ _ \<Rightarrow> ty = ZeroRtt | _ \<Rightarrow> False)"

definition partial_is_0rtt :: "partial_decode \<Rightarrow> bool" where
  "partial_is_0rtt pd = (case pd_header pd of PLong ty _ _ _ _ \<Rightarrow> ty = ZeroRtt | _ \<Rightarrow> False)"

section \<open>Header protection\<close>

record unprotect_result =
  ur_packet :: "packet option"
  ur_stateless_reset :: bool

text \<open>The packets without a space are not protected and need no key; this one is handed over in its place and never applied.\<close>

definition no_header_key :: header_key where
  "no_header_key = \<lparr>hk_encrypt = (\<lambda>_ b. b), hk_decrypt = (\<lambda>_ b. b), hk_sample_size = 0\<rparr>"

definition unprotect_header ::
    "partial_decode \<Rightarrow> (space_id \<Rightarrow> keys packet_space) \<Rightarrow> zero_rtt_crypto option \<Rightarrow> bytes option \<Rightarrow> unprotect_result option" where
  "unprotect_header pd spaces zero_rtt stateless_reset_token =
     (let header_crypto =
            (if partial_is_0rtt pd then map_option zr_header zero_rtt
             else
               (case protected_space (pd_header pd) of
                  Some space \<Rightarrow> map_option (\<lambda>ks. kp_remote (ks_header ks)) (sp_crypto (spaces space))
                | None \<Rightarrow> Some no_header_key)) in
      case header_crypto of
        None \<Rightarrow> None
      | Some hk \<Rightarrow>
          let packet = pd_buf pd;
              stateless_reset = (RESET_TOKEN_SIZE + 5 \<le> length packet \<and>
                stateless_reset_token = Some (drop (length packet - RESET_TOKEN_SIZE) packet)) in
          (case partial_decode_finish pd hk of
             Inr p \<Rightarrow> Some \<lparr>ur_packet = Some p, ur_stateless_reset = stateless_reset\<rparr>
           | Inl _ \<Rightarrow> if stateless_reset then Some \<lparr>ur_packet = None, ur_stateless_reset = True\<rparr> else None))"

section \<open>Packet protection\<close>

record decrypt_result =
  dr_number :: nat
  dr_outgoing_key_update_acked :: bool
  dr_incoming_key_update :: bool

text \<open>
  The keys for a packet and whether they are those of a key update by the peer; \<open>None\<close> is the panic of unwrapping
  keys that are not there.
\<close>

definition packet_crypto ::
    "header \<Rightarrow> nat \<Rightarrow> (space_id \<Rightarrow> keys packet_space) \<Rightarrow> zero_rtt_crypto option \<Rightarrow> bool \<Rightarrow> prev_crypto option \<Rightarrow>
       packet_key key_pair option \<Rightarrow> (packet_key \<times> bool) option" where
  "packet_crypto h number spaces zero_rtt conn_key_phase prev next_keys =
     (if header_is_0rtt h then map_option (\<lambda>z. (zr_packet z, False)) zero_rtt
      else if header_key_phase h = conn_key_phase \<or> header_space h \<noteq> SData
      then map_option (\<lambda>ks. (kp_remote (ks_packet ks), False)) (sp_crypto (spaces (header_space h)))
      else
        (case prev of
           Some p \<Rightarrow>
             if (case pv_end_packet p of None \<Rightarrow> True | Some (pn, _) \<Rightarrow> number < pn)
             then Some (kp_remote (pv_crypto p), False)
             else map_option (\<lambda>ks. (kp_remote ks, True)) next_keys
         | None \<Rightarrow> map_option (\<lambda>ks. (kp_remote ks, True)) next_keys))"

text \<open>The packet is decrypted in place: the result has the packet with the plain text.\<close>

definition decrypt_packet_body ::
    "packet \<Rightarrow> (space_id \<Rightarrow> keys packet_space) \<Rightarrow> zero_rtt_crypto option \<Rightarrow> bool \<Rightarrow> prev_crypto option \<Rightarrow>
       packet_key key_pair option \<Rightarrow> (transport_error option + (decrypt_result \<times> packet) option) option" where
  "decrypt_packet_body packet spaces zero_rtt conn_key_phase prev next_keys =
     (let h = pkt_header packet; rx_packet = sp_rx_packet (spaces (header_space h)) in
      if \<not> is_protected h then Some (Inr None)
      else
        (case header_number h of
           None \<Rightarrow> Some (Inl None)
         | Some pn \<Rightarrow>
             let number = pn_expand pn (rx_packet + 1) in
             (case packet_crypto h number spaces zero_rtt conn_key_phase prev next_keys of
                None \<Rightarrow> None
              | Some (crypto, crypto_update) \<Rightarrow>
                  (case pk_decrypt crypto number (pkt_header_data packet) (pkt_payload packet) of
                     None \<Rightarrow> Some (Inl None)
                   | Some plain \<Rightarrow>
                       let packet1 = packet\<lparr>pkt_payload := plain\<rparr> in
                       if \<not> reserved_bits_valid packet1 then Some (Inl (Some (te_new PROTOCOL_VIOLATION ''reserved bits set'')))
                       else
                         let acked = (case prev of None \<Rightarrow> False
                               | Some p \<Rightarrow> pv_end_packet p = None \<and> header_key_phase h = conn_key_phase) in
                         if crypto_update \<and> (number \<le> rx_packet \<or> (case prev of None \<Rightarrow> False | Some p \<Rightarrow> pv_update_unacked p))
                         then Some (Inl (Some (te_new KEY_UPDATE_ERROR '''')))
                         else Some (Inr (Some (\<lparr>dr_number = number, dr_outgoing_key_update_acked = acked,
                                dr_incoming_key_update = crypto_update\<rparr>, packet1)))))))"

section \<open>Key updates\<close>

definition set_key_discard_timer :: "nat \<Rightarrow> space_id \<Rightarrow> ('s, 'c) connection \<Rightarrow> ('s, 'c) connection option" where
  "set_key_discard_timer now space c = do {
     start \<leftarrow> (if cn_zero_rtt_crypto c \<noteq> None then Some now
       else do { p \<leftarrow> cn_prev_crypto c; (_, t) \<leftarrow> pv_end_packet p; Some t });
     Some (set_timer KeyDiscard (start + pto space c * 3) c) }"

definition KEY_UPDATE_MARGIN :: nat where "KEY_UPDATE_MARGIN = 10000"

definition update_keys :: "('s, 'c) env \<Rightarrow> (nat \<times> nat) option \<Rightarrow> bool \<Rightarrow> ('s, 'c) connection \<Rightarrow> ('s, 'c) connection option" where
  "update_keys ev end_packet remote c =
     (let (new, session) = ss_next_1rtt_keys (ev_session ev) (cn_crypto c) in do {
        new_keys \<leftarrow> new;
        current \<leftarrow> sp_crypto (cn_spaces c SData);
        next_keys \<leftarrow> cn_next_crypto c;
        let c1 = c\<lparr>cn_crypto := session,
          cn_key_phase_size := saturating_sub (pk_confidentiality_limit (kp_local new_keys)) KEY_UPDATE_MARGIN,
          cn_next_crypto := Some new_keys\<rparr>;
        let c2 = with_space SData (\<lambda>sp. sp\<lparr>sp_crypto := Some (current\<lparr>ks_packet := next_keys\<rparr>), sp_sent_with_keys := 0\<rparr>) c1;
        Some (c2\<lparr>cn_prev_crypto := Some \<lparr>pv_crypto = ks_packet current, pv_end_packet = end_packet, pv_update_unacked = remote\<rparr>,
          cn_key_phase := \<not> cn_key_phase c2\<rparr>) })"

definition force_key_update :: "('s, 'c) env \<Rightarrow> ('s, 'c) connection \<Rightarrow> ('s, 'c) connection option" where
  "force_key_update ev c =
     (if \<not> is_established (cn_state c) then Some c
      else if cn_prev_crypto c \<noteq> None then Some c
      else update_keys ev None False c)"

definition decrypt_packet ::
    "('s, 'c) env \<Rightarrow> nat \<Rightarrow> packet \<Rightarrow> ('s, 'c) connection \<Rightarrow>
       ((transport_error option + nat option) \<times> packet \<times> ('s, 'c) connection) option" where
  "decrypt_packet ev now packet c = do {
     r \<leftarrow> decrypt_packet_body packet (cn_spaces c) (cn_zero_rtt_crypto c) (cn_key_phase c) (cn_prev_crypto c) (cn_next_crypto c);
     (case r of
        Inl e \<Rightarrow> Some (Inl e, packet, c)
      | Inr None \<Rightarrow> Some (Inr None, packet, c)
      | Inr (Some (d, packet1)) \<Rightarrow> do {
          c1 \<leftarrow> (case cn_prev_crypto c of
             Some p \<Rightarrow>
               if dr_outgoing_key_update_acked d
               then set_key_discard_timer now (header_space (pkt_header packet))
                 (c\<lparr>cn_prev_crypto := Some (p\<lparr>pv_end_packet := Some (dr_number d, now)\<rparr>)\<rparr>)
               else Some c
           | None \<Rightarrow> Some c);
          c2 \<leftarrow> (if dr_incoming_key_update d
             then do {
               c' \<leftarrow> update_keys ev (Some (dr_number d, now)) True c1;
               set_key_discard_timer now (header_space (pkt_header packet)) c' }
             else Some c1);
          Some (Inr (Some (dr_number d)), packet1, c2) }) }"

section \<open>Generations of keys\<close>

text \<open>The session hands out the keys of one generation after the other; \<open>gen s\<close> is the next one.\<close>

definition key_schedule :: "'s session \<Rightarrow> (nat \<Rightarrow> packet_key key_pair) \<Rightarrow> ('s \<Rightarrow> nat) \<Rightarrow> bool" where
  "key_schedule ss K gen \<longleftrightarrow> (\<forall>s. fst (ss_next_1rtt_keys ss s) = Some (K (gen s)) \<and> gen (snd (ss_next_1rtt_keys ss s)) = gen s + 1)"

definition at_generation :: "(nat \<Rightarrow> packet_key key_pair) \<Rightarrow> ('s \<Rightarrow> nat) \<Rightarrow> nat \<Rightarrow> ('s, 'c) connection \<Rightarrow> bool" where
  "at_generation K gen r c \<longleftrightarrow>
     map_option ks_packet (sp_crypto (cn_spaces c SData)) = Some (K r) \<and> cn_next_crypto c = Some (K (r + 1)) \<and>
     gen (cn_crypto c) = r + 2 \<and> cn_key_phase c = odd r \<and>
     (case cn_prev_crypto c of None \<Rightarrow> True | Some p \<Rightarrow> 0 < r \<and> pv_crypto p = K (r - 1))"

text \<open>Which generations the next packet may have, by its number and what is known about the last key update.\<close>

definition update_expected :: "nat \<Rightarrow> ('s, 'c) connection \<Rightarrow> bool" where
  "update_expected n c \<longleftrightarrow> sp_rx_packet (cn_spaces c SData) < n \<and>
     (case cn_prev_crypto c of None \<Rightarrow> True
      | Some p \<Rightarrow> \<not> pv_update_unacked p \<and> (\<exists>pn t. pv_end_packet p = Some (pn, t) \<and> pn \<le> n))"

definition before_update :: "nat \<Rightarrow> ('s, 'c) connection \<Rightarrow> bool" where
  "before_update n c \<longleftrightarrow>
     (case cn_prev_crypto c of None \<Rightarrow> False
      | Some p \<Rightarrow> (case pv_end_packet p of None \<Rightarrow> True | Some (pn, _) \<Rightarrow> n < pn))"

lemma update_keys_generation:
  assumes ks: "key_schedule (ev_session ev) K gen" and at: "at_generation K gen r c"
  shows "\<exists>c'. update_keys ev e b c = Some c' \<and> at_generation K gen (r + 1) c' \<and>
    (\<exists>q. cn_prev_crypto c' = Some q \<and> pv_end_packet q = e) \<and> cn_zero_rtt_crypto c' = cn_zero_rtt_crypto c"
proof -
  obtain s' where s': "ss_next_1rtt_keys (ev_session ev) (cn_crypto c) = (Some (K (r + 2)), s')" "gen s' = r + 3"
  proof -
    have g: "gen (cn_crypto c) = r + 2" using at by (simp add: at_generation_def)
    have "fst (ss_next_1rtt_keys (ev_session ev) (cn_crypto c)) = Some (K (r + 2))"
      "gen (snd (ss_next_1rtt_keys (ev_session ev) (cn_crypto c))) = r + 3"
      using ks by (simp_all add: key_schedule_def g)
    then show ?thesis using that by (metis prod.collapse)
  qed
  obtain cur where cur: "sp_crypto (cn_spaces c SData) = Some cur" "ks_packet cur = K r"
    using at by (auto simp: at_generation_def)
  show ?thesis
    using at s' cur by (auto simp: update_keys_def at_generation_def with_space_def Let_def)
qed

lemma key_discard_timer_set:
  assumes "cn_prev_crypto c = Some q" "pv_end_packet q = Some (n, t)"
  shows "\<exists>c'. set_key_discard_timer now s c = Some c' \<and> (at_generation K gen r c' = at_generation K gen r c)"
  using assms by (auto simp: set_key_discard_timer_def set_timer_def at_generation_def)

text \<open>The packets of the application carry the parity of their keys' generation.\<close>

definition sealed_with :: "(nat \<Rightarrow> packet_key key_pair) \<Rightarrow> nat \<Rightarrow> nat \<Rightarrow> packet \<Rightarrow> bytes \<Rightarrow> ('s, 'c) connection \<Rightarrow> bool" where
  "sealed_with K g n p plain c \<longleftrightarrow>
     (\<exists>spin dst pn. pkt_header p = HShort spin (odd g) dst pn \<and> pn_expand pn (sp_rx_packet (cn_spaces c SData) + 1) = n) \<and>
     reserved_bits_valid p \<and> pk_decrypt (kp_remote (K g)) n (pkt_header_data p) (pkt_payload p) = Some plain"

lemma packet_crypto_generation:
  assumes at: "at_generation K gen r c" and h: "h = HShort spin (odd g) dst pn"
    and g: "g = r \<or> g = r + 1 \<and> update_expected n c \<or> g + 1 = r \<and> before_update n c"
  shows "packet_crypto h n (cn_spaces c) (cn_zero_rtt_crypto c) (cn_key_phase c) (cn_prev_crypto c) (cn_next_crypto c) =
    Some (kp_remote (K g), g = r + 1)"
proof -
  obtain cur where cur: "sp_crypto (cn_spaces c SData) = Some cur" "ks_packet cur = K r" using at by (auto simp: at_generation_def)
  from g consider "g = r" | "g = r + 1" "update_expected n c" | "g + 1 = r" "before_update n c" by blast
  then show ?thesis
  proof cases
    case 1
    then show ?thesis using at cur by (simp add: h packet_crypto_def header_is_0rtt_def header_key_phase_def at_generation_def)
  next
    case 2
    then show ?thesis using at
      by (auto simp: h packet_crypto_def header_is_0rtt_def header_key_phase_def at_generation_def update_expected_def split: option.splits)
  next
    case 3
    then show ?thesis using at
      by (auto simp: h packet_crypto_def header_is_0rtt_def header_key_phase_def at_generation_def before_update_def split: option.splits)
  qed
qed

definition admissible :: "nat \<Rightarrow> nat \<Rightarrow> nat \<Rightarrow> ('s, 'c) connection \<Rightarrow> bool" where
  "admissible g r n c \<longleftrightarrow> g = r \<or> g = r + 1 \<and> update_expected n c \<or> g + 1 = r \<and> before_update n c"

lemma decrypt_body_generation:
  assumes at: "at_generation K gen r c" and p: "sealed_with K g n p plain c" and g: "admissible g r n c"
  shows "decrypt_packet_body p (cn_spaces c) (cn_zero_rtt_crypto c) (cn_key_phase c) (cn_prev_crypto c) (cn_next_crypto c) =
    Some (Inr (Some (\<lparr>dr_number = n,
      dr_outgoing_key_update_acked = (g = r \<and> (case cn_prev_crypto c of None \<Rightarrow> False | Some q \<Rightarrow> pv_end_packet q = None)),
      dr_incoming_key_update = (g = r + 1)\<rparr>, p\<lparr>pkt_payload := plain\<rparr>)))"
proof -
  obtain spin dst pn where h: "pkt_header p = HShort spin (odd g) dst pn" "pn_expand pn (sp_rx_packet (cn_spaces c SData) + 1) = n"
    and v: "reserved_bits_valid (p\<lparr>pkt_payload := plain\<rparr>)" "pk_decrypt (kp_remote (K g)) n (pkt_header_data p) (pkt_payload p) = Some plain"
    using p by (auto simp: sealed_with_def reserved_bits_valid_def)
  note crypto = packet_crypto_generation [OF at h(1) g [unfolded admissible_def]]
  have ph: "(odd g = cn_key_phase c) = (g = r)" using at g by (auto simp: at_generation_def admissible_def)
  have err: "\<not> (g = r + 1 \<and> (n \<le> sp_rx_packet (cn_spaces c SData) \<or> (case cn_prev_crypto c of None \<Rightarrow> False | Some q \<Rightarrow> pv_update_unacked q)))"
    using g by (auto simp: admissible_def update_expected_def split: option.splits)
  have "is_protected (pkt_header p)" "header_number (pkt_header p) = Some pn" "header_space (pkt_header p) = SData"
    "header_key_phase (pkt_header p) = odd g"
    by (simp_all add: h is_protected_def header_number_def header_key_phase_def)
  then show ?thesis
    using crypto err v ph h(2) unfolding decrypt_packet_body_def Let_def by (auto split: option.splits)
qed

lemma decrypt_packet_generation:
  assumes ks: "key_schedule (ev_session ev) K gen" and at: "at_generation K gen r c"
    and p: "sealed_with K g n p plain c" and g: "admissible g r n c"
  shows "\<exists>c'. decrypt_packet ev now p c = Some (Inr (Some n), p\<lparr>pkt_payload := plain\<rparr>, c') \<and> at_generation K gen (max r g) c'"
proof (cases "g = r + 1")
  case True
  obtain c1 q where c1: "update_keys ev (Some (n, now)) True c = Some c1" "at_generation K gen (r + 1) c1"
    "cn_prev_crypto c1 = Some q" "pv_end_packet q = Some (n, now)"
    using update_keys_generation [OF ks at] by blast
  obtain c2 where c2: "set_key_discard_timer now (header_space (pkt_header p)) c1 = Some c2" "at_generation K gen (r + 1) c2"
    using key_discard_timer_set [OF c1(3,4), of now "header_space (pkt_header p)" K gen "r + 1"] c1(2) by blast
  show ?thesis
    using c1 c2 True by (auto simp: decrypt_packet_def decrypt_body_generation [OF at p g] max_def split: option.splits)
next
  case False
  then have mx: "max r g = r" using g by (auto simp: admissible_def)
  show ?thesis
  proof (cases "g = r \<and> (case cn_prev_crypto c of None \<Rightarrow> False | Some q \<Rightarrow> pv_end_packet q = None)")
    case True
    then obtain q where q: "cn_prev_crypto c = Some q" "pv_end_packet q = None" by (auto split: option.splits)
    define c1 where "c1 = c\<lparr>cn_prev_crypto := Some (q\<lparr>pv_end_packet := Some (n, now)\<rparr>)\<rparr>"
    have "at_generation K gen r c1" using at q by (simp add: c1_def at_generation_def)
    then obtain c2 where c2: "set_key_discard_timer now (header_space (pkt_header p)) c1 = Some c2" "at_generation K gen r c2"
      using key_discard_timer_set [of c1 _ n now now "header_space (pkt_header p)" K gen r] by (auto simp: c1_def)
    show ?thesis
      unfolding decrypt_packet_def decrypt_body_generation [OF at p g] using c2 True q by (simp add: c1_def)
  next
    case no: False
    then show ?thesis
      using at False by (auto simp: decrypt_packet_def decrypt_body_generation [OF at p g] mx split: option.splits)
  qed
qed

lemma accepted_sealed:
  assumes at: "at_generation K gen r c" and h: "pkt_header p = HShort spin phase dst pn"
    and d: "decrypt_packet ev now p c = Some (Inr (Some n), p', c')"
  shows "\<exists>g. odd g = phase \<and> admissible g r n c \<and> sealed_with K g n p (pkt_payload p') c"
proof -
  let ?rx = "sp_rx_packet (cn_spaces c SData)" and ?prev = "cn_prev_crypto c"
  obtain dr where body: "decrypt_packet_body p (cn_spaces c) (cn_zero_rtt_crypto c) (cn_key_phase c) ?prev (cn_next_crypto c) = Some (Inr (Some (dr, p')))"
    and n: "dr_number dr = n"
  proof -
    obtain x where x: "decrypt_packet_body p (cn_spaces c) (cn_zero_rtt_crypto c) (cn_key_phase c) ?prev (cn_next_crypto c) = Some x"
      using d by (auto simp: decrypt_packet_def bind_eq_Some_conv)
    obtain dr q where q: "x = Inr (Some (dr, q))"
      using d unfolding decrypt_packet_def x by (cases x rule: sum.exhaust; cases "projr x") auto
    show ?thesis using that [of dr] d unfolding decrypt_packet_def x q by (auto simp: bind_eq_Some_conv x q)
  qed
  have hd: "is_protected (pkt_header p)" "header_number (pkt_header p) = Some pn" "header_space (pkt_header p) = SData"
    by (simp_all add: h is_protected_def header_number_def)
  obtain k u where crypto: "packet_crypto (pkt_header p) n (cn_spaces c) (cn_zero_rtt_crypto c) (cn_key_phase c) ?prev (cn_next_crypto c) = Some (k, u)"
    and num: "pn_expand pn (?rx + 1) = n" and plain: "pk_decrypt k n (pkt_header_data p) (pkt_payload p) = Some (pkt_payload p')"
    and valid: "reserved_bits_valid p'" "p' = p\<lparr>pkt_payload := pkt_payload p'\<rparr>"
    and upd: "u \<longrightarrow> ?rx < n \<and> (case ?prev of None \<Rightarrow> True | Some q \<Rightarrow> \<not> pv_update_unacked q)"
    using body n unfolding decrypt_packet_body_def Let_def hd
    by (auto split: option.splits if_splits)
  have same: "reserved_bits_valid (p\<lparr>pkt_payload := b\<rparr>) = reserved_bits_valid p" for b by (simp add: reserved_bits_valid_def)
  have res: "reserved_bits_valid p" using valid(1) unfolding valid(2) [THEN arg_cong [of _ _ reserved_bits_valid]] same .
  have hp: "header_is_0rtt (pkt_header p) = False" "header_key_phase (pkt_header p) = phase" by (simp_all add: h header_is_0rtt_def header_key_phase_def)
  note crypto = crypto [unfolded packet_crypto_def hp hd(3) if_False]
  obtain cur where cur: "sp_crypto (cn_spaces c SData) = Some cur" "ks_packet cur = K r" "cn_next_crypto c = Some (K (r + 1))" "cn_key_phase c = odd r"
    using at by (auto simp: at_generation_def)
  have "\<exists>g. odd g = phase \<and> admissible g r n c \<and> k = kp_remote (K g)"
  proof (cases "phase = odd r")
    case True
    then show ?thesis using crypto cur by (auto simp: admissible_def)
  next
    case False
    show ?thesis
    proof (cases "before_update n c")
      case True
      then obtain q where q: "?prev = Some q" "case pv_end_packet q of None \<Rightarrow> True | Some (pn, _) \<Rightarrow> n < pn"
        by (auto simp: before_update_def split: option.splits)
      then have "0 < r" "k = kp_remote (K (r - 1))" using crypto cur False at by (auto simp: at_generation_def)
      then show ?thesis using True False by (intro exI [of _ "r - 1"]) (auto simp: admissible_def)
    next
      case past: False
      then have u: "k = kp_remote (K (r + 1))" "u" using crypto cur False by (auto simp: before_update_def split: option.splits)
      then have "update_expected n c" using upd past by (auto simp: update_expected_def before_update_def split: option.splits)
      then show ?thesis using u False by (intro exI [of _ "r + 1"]) (auto simp: admissible_def)
    qed
  qed
  then show ?thesis using num plain res h by (auto simp: sealed_with_def)
qed

text \<open>
  C6: The keys of a connection stay in step with those of the peer. The session hands out the keys of successive generations,
  whose parity is the key phase of a packet. A packet of the application that is authentic under the current keys is accepted,
  one under the next keys too, unless its number is not new or the last key update is still being confirmed, and one under
  the previous keys if it was sent before the update; nothing panics and the connection is then at the later of the two
  generations. Conversely every packet that is accepted is authentic under the keys of one of these three generations.
\<close>

theorem key_phases_follow_peer:
  assumes "key_schedule (ev_session ev) K gen" "at_generation K gen r c" "pkt_header p = HShort spin phase dst pn"
  shows "(\<forall>g n plain. sealed_with K g n p plain c \<longrightarrow> admissible g r n c \<longrightarrow>
      (\<exists>c'. decrypt_packet ev now p c = Some (Inr (Some n), p\<lparr>pkt_payload := plain\<rparr>, c') \<and> at_generation K gen (max r g) c')) \<and>
    (\<forall>n p' c'. decrypt_packet ev now p c = Some (Inr (Some n), p', c') \<longrightarrow>
      (\<exists>g. odd g = phase \<and> admissible g r n c \<and> sealed_with K g n p (pkt_payload p') c \<and> at_generation K gen (max r g) c'))"
proof (intro conjI allI impI)
  fix g n plain assume "sealed_with K g n p plain c" "admissible g r n c"
  then show "\<exists>c'. decrypt_packet ev now p c = Some (Inr (Some n), p\<lparr>pkt_payload := plain\<rparr>, c') \<and> at_generation K gen (max r g) c'"
    by (rule decrypt_packet_generation [OF assms(1,2)])
next
  fix n p' c' assume d: "decrypt_packet ev now p c = Some (Inr (Some n), p', c')"
  obtain g where g: "odd g = phase" "admissible g r n c" "sealed_with K g n p (pkt_payload p') c"
    using accepted_sealed [OF assms(2,3) d] by blast
  then show "\<exists>g. odd g = phase \<and> admissible g r n c \<and> sealed_with K g n p (pkt_payload p') c \<and> at_generation K gen (max r g) c'"
    using decrypt_packet_generation [OF assms(1,2) g(3,2), of now] d by auto
qed

text \<open>A session that counts, with keys that mark the packets with their generation.\<close>

definition counting_keys :: "nat \<Rightarrow> packet_key key_pair" where
  "counting_keys g = (let k = example_packet_key\<lparr>pk_decrypt := (\<lambda>_ _ b. if b \<noteq> [] \<and> hd b = of_nat g then Some (tl b) else None)\<rparr> in
     \<lparr>kp_local = k, kp_remote = k\<rparr>)"

definition counting_session :: "nat session" where
  "counting_session = \<lparr>ss_initial_keys = (\<lambda>_ _ _. example_keys), ss_early_crypto = (\<lambda>_. None), ss_early_data_accepted = (\<lambda>_. None),
     ss_is_handshaking = (\<lambda>_. False), ss_read_handshake = (\<lambda>_ s. (Inr False, s)), ss_transport_parameters = (\<lambda>_. Inr None),
     ss_write_handshake = (\<lambda>s. (None, [], s)), ss_next_1rtt_keys = (\<lambda>s. (Some (counting_keys s), s + 1)),
     ss_is_valid_retry = (\<lambda>_ _ _ _. True)\<rparr>"

definition counting_env :: "(nat, new_reno) env" where
  "counting_env = \<lparr>ev_controller = ev_controller example_env, ev_float = example_float, ev_session = counting_session,
     ev_random = (\<lambda>_ lo _. lo), ev_checked_add = (\<lambda>a b. Some (a + b))\<rparr>"

definition counting_server :: "(nat, new_reno) connection" where
  "counting_server = (with_space SData (\<lambda>sp. sp\<lparr>sp_crypto := Some (example_keys\<lparr>ks_packet := counting_keys 0\<rparr>)\<rparr>)
     (the (connection_new counting_env example_transport [1] [2] [3] ([10, 0, 0, 1], 4433) 2 8 None 0 1 False
       (ServerArgs \<lparr>sc_migration = True, sc_has_preferred_address = False, sc_validation_tokens_sent = 0\<rparr> None True))))
     \<lparr>cn_next_crypto := Some (counting_keys 1)\<rparr>"

lemma counting_server_fields:
  "cn_spaces counting_server SData = (space_new 0)\<lparr>sp_crypto := Some (example_keys\<lparr>ks_packet := counting_keys 0\<rparr>)\<rparr>"
  "cn_next_crypto counting_server = Some (counting_keys 1)" "cn_crypto counting_server = 2" "\<not> cn_key_phase counting_server"
  "cn_prev_crypto counting_server = None"
  by (simp_all add: counting_server_def connection_new_def example_transport_def counting_env_def counting_session_def streams_new_def pf_new_def
      random_range_def saturating_pow2_def on_path_validated_def with_path_def with_space_def path_new_def
      space_new_def retransmits_default_def Let_def)

definition updating_packet :: packet where
  "updating_packet = \<lparr>pkt_header = HShort False True [2] (U8 5), pkt_header_data = [0x44, 2, 5], pkt_payload = [1, 7]\<rparr>"

theorem key_phases_follow_peer_witness:
  "\<exists>c'. decrypt_packet counting_env 9 updating_packet counting_server = Some (Inr (Some 5), updating_packet\<lparr>pkt_payload := [7]\<rparr>, c') \<and>
     at_generation counting_keys (\<lambda>s. s) 1 c'"
proof -
  have ks: "key_schedule (ev_session counting_env) counting_keys (\<lambda>s. s)" by (simp add: key_schedule_def counting_env_def counting_session_def)
  have at: "at_generation counting_keys (\<lambda>s. s) 0 counting_server" by (simp add: at_generation_def counting_server_fields)
  have "pn_expand (U8 5) 1 = 5" by code_simp
  then have s: "sealed_with counting_keys 1 5 updating_packet [7] counting_server"
    by (simp add: sealed_with_def updating_packet_def counting_server_fields space_new_def reserved_bits_valid_def header_bits counting_keys_def Let_def) (rule exI [of _ False], simp)
  have a: "admissible 1 0 5 counting_server" by (simp add: admissible_def update_expected_def counting_server_fields space_new_def)
  have h: "pkt_header updating_packet = HShort False True [2] (U8 5)" by (simp add: updating_packet_def)
  show ?thesis using conjunct1 [OF key_phases_follow_peer [OF ks at h, of 9]] s a by fastforce
qed

end
