(* ===== verification/Recovery_Inv.thy ===== *)
theory Recovery_Inv
  imports Recovery Handshaking
begin

text \<open>
  The accounting of bytes in flight through acknowledgements, losses and discarded spaces, the exact set of packets
  declared lost and the arming of the loss detection timer.
\<close>

section \<open>What is outstanding on a path\<close>

definition weight :: "(sent_packet \<Rightarrow> nat) \<Rightarrow> nat \<Rightarrow> (nat \<times> sent_packet) list \<Rightarrow> nat" where
  "weight w g m = sum_list (map (\<lambda>e. if sk_path_generation (snd e) = g then w (snd e) else 0) m)"

definition outstanding :: "(sent_packet \<Rightarrow> nat) \<Rightarrow> nat \<Rightarrow> (space_id \<Rightarrow> keys packet_space) \<Rightarrow> nat" where
  "outstanding w g sps = weight w g (sp_sent_packets (sps SInitial)) + weight w g (sp_sent_packets (sps SHandshake)) +
     weight w g (sp_sent_packets (sps SData))"

abbreviation eliciting :: "sent_packet \<Rightarrow> nat" where
  "eliciting p \<equiv> of_bool (sk_ack_eliciting p)"

text \<open>The counters of a path exceed what is outstanding on it by a fixed amount.\<close>

definition balanced :: "nat \<times> nat \<Rightarrow> (space_id \<Rightarrow> keys packet_space) \<Rightarrow> 'c path_data \<Rightarrow> bool" where
  "balanced e sps p \<longleftrightarrow> if_bytes (pd_in_flight p) = outstanding sk_size (pd_generation p) sps + fst e \<and>
     if_ack_eliciting (pd_in_flight p) = outstanding eliciting (pd_generation p) sps + snd e"

definition prev_ok :: "(space_id \<Rightarrow> keys packet_space) \<Rightarrow> nat \<Rightarrow> (connection_id \<times> 'c path_data) option \<Rightarrow> bool" where
  "prev_ok sps g prev \<longleftrightarrow> (case prev of None \<Rightarrow> True | Some (_, p) \<Rightarrow> (\<exists>e. balanced e sps p) \<and> pd_generation p \<noteq> g)"

definition accounted :: "nat \<times> nat \<Rightarrow> ('s, 'c) connection \<Rightarrow> bool" where
  "accounted e c \<longleftrightarrow> (\<forall>s. sp_inv (cn_spaces c s)) \<and> balanced e (cn_spaces c) (cn_path c) \<and>
     prev_ok (cn_spaces c) (pd_generation (cn_path c)) (cn_prev_path c)"

lemma outstanding_update:
  "outstanding w g (sps(s := sp)) + weight w g (sp_sent_packets (sps s)) = outstanding w g sps + weight w g (sp_sent_packets sp)"
  by (cases s) (simp_all add: outstanding_def)

lemma weight_remove:
  assumes "bm_ok m" "map_of m n = Some p"
  shows "weight w g m = weight w g (bm_remove n m) + (if sk_path_generation p = g then w p else 0)"
  using bm_remove_split [OF assms] by (auto simp: weight_def)

lemma outstanding_take:
  assumes "bm_ok (sp_sent_packets (sps s))" "map_of (sp_sent_packets (sps s)) n = Some p"
    "sp_sent_packets sp = bm_remove n (sp_sent_packets (sps s))"
  shows "outstanding w g sps = outstanding w g (sps(s := sp)) + (if sk_path_generation p = g then w p else 0)"
  using outstanding_update [of w g sps s sp] weight_remove [OF assms(1,2), of w g] by (simp add: assms(3))

lemma balanced_take:
  assumes "bm_ok (sp_sent_packets (sps s))" "map_of (sp_sent_packets (sps s)) n = Some p"
    "sp_sent_packets sp = bm_remove n (sp_sent_packets (sps s))" "balanced e sps path"
  shows "balanced e (sps(s := sp)) (snd (path_remove_in_flight p path))"
    "sk_path_generation p \<noteq> pd_generation path \<Longrightarrow> balanced e (sps(s := sp)) path"
  using assms(4) outstanding_take [of sps s n p sp, OF assms(1-3)]
  by (auto simp: balanced_def path_remove_in_flight_def in_flight_remove_def)

text \<open>What the accounting depends on.\<close>

definition flight_view where
  "flight_view c =
     (\<lambda>s. (sp_sent_packets (cn_spaces c s), sp_largest_ack_eliciting_sent (cn_spaces c s),
           sp_unacked_non_ack_eliciting_tail (cn_spaces c s), sp_next_packet_number (cn_spaces c s)),
      pd_in_flight (cn_path c), pd_generation (cn_path c),
      map_option (\<lambda>(cid, p). (pd_in_flight p, pd_generation p)) (cn_prev_path c))"

lemma flight_view_accounted:
  fixes c c' :: "('s, 'c) connection"
  assumes "flight_view c = flight_view c'"
  shows "accounted e c = accounted e c'"
proof -
  have s: "sp_sent_packets (cn_spaces c s) = sp_sent_packets (cn_spaces c' s)" "sp_inv (cn_spaces c s) = sp_inv (cn_spaces c' s)" for s
    using assms by (auto simp: flight_view_def fun_eq_iff sp_inv_def)
  have w: "outstanding w g (cn_spaces c) = outstanding w g (cn_spaces c')" for w g by (simp add: outstanding_def s)
  have b: "balanced e (cn_spaces c) p = balanced e (cn_spaces c') p" for e and p :: "'c path_data" by (simp add: balanced_def w)
  have p: "pd_in_flight (cn_path c) = pd_in_flight (cn_path c')" "pd_generation (cn_path c) = pd_generation (cn_path c')"
    using assms by (simp_all add: flight_view_def)
  have pb: "balanced e (cn_spaces c') (cn_path c) = balanced e (cn_spaces c') (cn_path c')" by (simp add: balanced_def p)
  have "prev_ok (cn_spaces c') g (cn_prev_path c) = prev_ok (cn_spaces c') g (cn_prev_path c')" for g
    using assms by (auto simp: flight_view_def prev_ok_def balanced_def split: option.splits)
  moreover have "prev_ok (cn_spaces c) g pr = prev_ok (cn_spaces c') g pr" for g and pr :: "(connection_id \<times> 'c path_data) option"
    by (auto simp: prev_ok_def b split: option.splits)
  ultimately show ?thesis by (simp add: accounted_def s b p pb)
qed

lemma with_space_simps [simp]:
  "cn_spaces (with_space s f c) = (cn_spaces c)(s := f (cn_spaces c s))"
  "cn_path (with_space s f c) = cn_path c" "cn_prev_path (with_space s f c) = cn_prev_path c"
  "cn_state (with_space s f c) = cn_state c" "cn_streams (with_space s f c) = cn_streams c"
  "cn_rem_cids (with_space s f c) = cn_rem_cids c" "cn_side (with_space s f c) = cn_side c"
  "cn_timers (with_space s f c) = cn_timers c" "cn_config (with_space s f c) = cn_config c"
  by (simp_all add: with_space_def)

lemma with_path_simps [simp]:
  "cn_path (with_path g c) = g (cn_path c)" "cn_spaces (with_path g c) = cn_spaces c"
  "cn_prev_path (with_path g c) = cn_prev_path c" "cn_state (with_path g c) = cn_state c"
  "cn_streams (with_path g c) = cn_streams c" "cn_rem_cids (with_path g c) = cn_rem_cids c"
  "cn_side (with_path g c) = cn_side c" "cn_timers (with_path g c) = cn_timers c" "cn_config (with_path g c) = cn_config c"
  by (simp_all add: with_path_def)

lemma accounted_take:
  assumes "accounted e c" "map_of (sp_sent_packets (cn_spaces c s)) n = Some p"
  shows "\<exists>sp. space_take n (cn_spaces c s) = Some (Some p, sp) \<and>
    sp_sent_packets sp = bm_remove n (sp_sent_packets (cn_spaces c s)) \<and>
    accounted e (remove_in_flight p (with_space s (\<lambda>_. sp) c))"
proof -
  have inv: "sp_inv (cn_spaces c s)" using assms(1) by (simp add: accounted_def)
  then have ok: "bm_ok (sp_sent_packets (cn_spaces c s))" by (simp add: sp_inv_def flight_inv_def)
  obtain sp where sp: "space_take n (cn_spaces c s) = Some (Some p, sp)" "sp_inv sp"
    "sp_sent_packets sp = bm_remove n (sp_sent_packets (cn_spaces c s))"
    using space_take_inv [OF inv, of n] assms(2) by (auto split: option.splits)
  let ?sps = "(cn_spaces c)(s := sp)"
  have cur: "balanced e (cn_spaces c) (cn_path c)" and prev: "prev_ok (cn_spaces c) (pd_generation (cn_path c)) (cn_prev_path c)"
    and all: "\<forall>s. sp_inv (cn_spaces c s)" using assms(1) by (simp_all add: accounted_def)
  note take = balanced_take [of "cn_spaces c" s n p sp, OF ok assms(2) sp(3)]
  have all': "\<forall>t. sp_inv (?sps t)" using all sp(2) by simp
  have gen: "pd_generation (snd (path_remove_in_flight p q)) = pd_generation q" for q :: "'b path_data"
    by (simp add: path_remove_in_flight_def)
  have "accounted e (remove_in_flight p (with_space s (\<lambda>_. sp) c))"
  proof (cases "sk_path_generation p = pd_generation (cn_path c)")
    case True
    then have "remove_in_flight p (with_space s (\<lambda>_. sp) c) = (with_space s (\<lambda>_. sp) c)\<lparr>cn_path := snd (path_remove_in_flight p (cn_path c))\<rparr>"
      by (simp add: remove_in_flight_def path_remove_in_flight_def)
    moreover have "prev_ok ?sps (pd_generation (cn_path c)) (cn_prev_path c)"
      using prev take(2) True unfolding prev_ok_def by (fastforce split: option.splits)
    ultimately show ?thesis using all' take(1) [OF cur] by (simp add: accounted_def gen)
  next
    case False
    have rm: "remove_in_flight p (with_space s (\<lambda>_. sp) c) = (with_space s (\<lambda>_. sp) c)
        \<lparr>cn_prev_path := map_option (\<lambda>(cid, q). (cid, snd (path_remove_in_flight p q))) (cn_prev_path c)\<rparr>"
      using False by (simp add: remove_in_flight_def path_remove_in_flight_def with_space_def split: option.splits)
    have "prev_ok ?sps (pd_generation (cn_path c)) (map_option (\<lambda>(cid, q). (cid, snd (path_remove_in_flight p q))) (cn_prev_path c))"
      using prev take(1) gen unfolding prev_ok_def by (fastforce split: option.splits)
    then show ?thesis using all' take(2) [OF cur False] by (simp add: rm accounted_def)
  qed
  then show ?thesis using sp by blast
qed

lemma flight_view_update [simp]:
  "flight_view (c\<lparr>cn_timers := t\<rparr>) = flight_view c" "flight_view (c\<lparr>cn_streams := s\<rparr>) = flight_view c"
  "flight_view (c\<lparr>cn_datagrams := d\<rparr>) = flight_view c" "flight_view (c\<lparr>cn_ack_frequency := a\<rparr>) = flight_view c"
  "flight_view (c\<lparr>cn_pto_count := n\<rparr>) = flight_view c" "flight_view (c\<lparr>cn_events := es\<rparr>) = flight_view c"
  "flight_view (c\<lparr>cn_side := sd\<rparr>) = flight_view c"
  by (simp_all add: flight_view_def)

lemma flight_view_path [simp]:
  "pd_in_flight (f (cn_path c)) = pd_in_flight (cn_path c) \<Longrightarrow> pd_generation (f (cn_path c)) = pd_generation (cn_path c) \<Longrightarrow>
   flight_view (with_path f c) = flight_view c"
  by (simp add: flight_view_def)

lemma flight_view_space:
  "sp_sent_packets (f (cn_spaces c s)) = sp_sent_packets (cn_spaces c s) \<Longrightarrow>
   sp_largest_ack_eliciting_sent (f (cn_spaces c s)) = sp_largest_ack_eliciting_sent (cn_spaces c s) \<Longrightarrow>
   sp_unacked_non_ack_eliciting_tail (f (cn_spaces c s)) = sp_unacked_non_ack_eliciting_tail (cn_spaces c s) \<Longrightarrow>
   sp_next_packet_number (f (cn_spaces c s)) = sp_next_packet_number (cn_spaces c s) \<Longrightarrow>
   flight_view (with_space s f c) = flight_view c"
  by (auto simp: flight_view_def)

lemma flight_view_timers [simp]:
  "flight_view (set_timer t x c) = flight_view c" "flight_view (stop_timer t c) = flight_view c"
  "flight_view (push_event ev c) = flight_view c" "flight_view (set_loss_detection_timer now c) = flight_view c"
  by (simp_all add: set_timer_def stop_timer_def push_event_def set_loss_detection_timer_def Let_def split: option.splits prod.splits)

lemma timers_keep [simp]:
  "cn_spaces (set_timer t x c) = cn_spaces c" "cn_spaces (stop_timer t c) = cn_spaces c"
  "cn_spaces (set_loss_detection_timer now c) = cn_spaces c" "cn_path (set_loss_detection_timer now c) = cn_path c"
  "cn_streams (set_loss_detection_timer now c) = cn_streams c" "cn_rem_cids (set_loss_detection_timer now c) = cn_rem_cids c"
  "cn_state (set_loss_detection_timer now c) = cn_state c"
  by (simp_all add: set_timer_def stop_timer_def set_loss_detection_timer_def Let_def split: option.splits prod.splits)

lemma remove_in_flight_keep [simp]:
  "cn_spaces (remove_in_flight p c) = cn_spaces c" "cn_streams (remove_in_flight p c) = cn_streams c"
  "cn_rem_cids (remove_in_flight p c) = cn_rem_cids c" "cn_state (remove_in_flight p c) = cn_state c"
  "cn_timers (remove_in_flight p c) = cn_timers c"
  "pd_mtud (cn_path (remove_in_flight p c)) = pd_mtud (cn_path c)" "pd_rtt (cn_path (remove_in_flight p c)) = pd_rtt (cn_path c)"
  by (simp_all add: remove_in_flight_def path_remove_in_flight_def split: option.splits prod.splits)

section \<open>The scan for lost packets\<close>

fun opt_min :: "nat list \<Rightarrow> nat option" where
  "opt_min [] = None"
| "opt_min (x # xs) = Some (Min (set (x # xs)))"

definition to_lose :: "loss_params \<Rightarrow> nat \<times> sent_packet \<Rightarrow> bool" where
  "to_lose lo e \<longleftrightarrow> is_lost lo (fst e) (snd e) \<and> Some (fst e) \<noteq> lo_mtu_probe lo"

lemma opt_min_snoc: "opt_min (xs @ [x]) = Some (case opt_min xs of None \<Rightarrow> x | Some y \<Rightarrow> min y x)"
proof (cases xs)
  case (Cons a as)
  then show ?thesis using Min_Un [of "set (a # as)" "{x}"] by (simp del: Min_insert add: insert_commute)
qed simp

lemma scan_result:
  fixes l :: "(nat \<times> sent_packet) list"
  defines "r \<equiv> \<lambda>lo. foldl (scan_packet lo) loss_scan_start l"
  shows "ls_lost (r lo) = map fst (filter (to_lose lo) l)"
    "ls_mtu_probe (r lo) = (if \<exists>e \<in> set l. is_lost lo (fst e) (snd e) \<and> Some (fst e) = lo_mtu_probe lo then lo_mtu_probe lo else None)"
    "ls_size (r lo) = sum_list (map (\<lambda>e. sk_size (snd e)) (filter (to_lose lo) l))"
    "ls_loss_time (r lo) = opt_min (map (\<lambda>e. sk_time_sent (snd e) + lo_loss_delay lo) (filter (\<lambda>e. \<not> is_lost lo (fst e) (snd e)) l))"
  unfolding r_def
proof (induction l rule: rev_induct)
  case Nil
  { case 1 then show ?case by (simp add: loss_scan_start_def) }
  { case 2 then show ?case by (simp add: loss_scan_start_def) }
  { case 3 then show ?case by (simp add: loss_scan_start_def) }
  { case 4 then show ?case by (simp add: loss_scan_start_def) }
next
  case (snoc e l)
  let ?s = "foldl (scan_packet lo) loss_scan_start l"
  have step: "ls_lost (scan_packet lo ?s e) = (if to_lose lo e then ls_lost ?s @ [fst e] else ls_lost ?s)"
    "ls_mtu_probe (scan_packet lo ?s e) = (if is_lost lo (fst e) (snd e) \<and> Some (fst e) = lo_mtu_probe lo then lo_mtu_probe lo else ls_mtu_probe ?s)"
    "ls_size (scan_packet lo ?s e) = (if to_lose lo e then ls_size ?s + sk_size (snd e) else ls_size ?s)"
    "ls_loss_time (scan_packet lo ?s e) = (if is_lost lo (fst e) (snd e) then ls_loss_time ?s else
       Some (case ls_loss_time ?s of None \<Rightarrow> sk_time_sent (snd e) + lo_loss_delay lo | Some x \<Rightarrow> min x (sk_time_sent (snd e) + lo_loss_delay lo)))"
    by (auto simp: scan_packet_def to_lose_def Let_def split: option.splits)
  { case 1 then show ?case using step snoc by simp }
  { case 2 then show ?case using step snoc by auto }
  { case 3 then show ?case using step snoc by simp }
  { case 4 then show ?case using step snoc by (simp add: opt_min_snoc) }
qed

section \<open>Losing packets\<close>

text \<open>The packets \<open>ns\<close> of a space have been lost between two states.\<close>

definition lost_between :: "space_id \<Rightarrow> (nat \<times> sent_packet) list \<Rightarrow> nat list \<Rightarrow> ('s, 'c) connection \<Rightarrow> ('s, 'c) connection \<Rightarrow> bool" where
  "lost_between s sent ns c c' \<longleftrightarrow>
     sp_sent_packets (cn_spaces c' s) = filter (\<lambda>e. fst e \<notin> set ns) (sp_sent_packets (cn_spaces c s)) \<and>
     fst ` set (sp_lost_packets (cn_spaces c' s)) = fst ` set (sp_lost_packets (cn_spaces c s)) \<union> set ns \<and>
     sp_pending (cn_spaces c' s) = foldl retransmits_or_thin (sp_pending (cn_spaces c s)) (map (\<lambda>n. sk_retransmits (the (map_of sent n))) ns) \<and>
     cn_streams c' = foldl (\<lambda>s f. streams_retransmit f s) (cn_streams c) (concat (map (\<lambda>n. sk_stream_frames (the (map_of sent n))) ns)) \<and>
     (\<forall>t. t \<noteq> s \<longrightarrow> cn_spaces c' t = cn_spaces c t) \<and>
     sp_loss_time (cn_spaces c' s) = sp_loss_time (cn_spaces c s) \<and>
     sp_largest_acked_packet (cn_spaces c' s) = sp_largest_acked_packet (cn_spaces c s) \<and>
     sp_time_of_last_ack_eliciting_packet (cn_spaces c' s) = sp_time_of_last_ack_eliciting_packet (cn_spaces c s) \<and>
     in_flight_mtu_probe (pd_mtud (cn_path c')) \<in> {in_flight_mtu_probe (pd_mtud (cn_path c)), None} \<and>
     pd_rtt (cn_path c') = pd_rtt (cn_path c) \<and> cn_rem_cids c' = cn_rem_cids c \<and> cn_state c' = cn_state c"

lemma lost_between_Nil: "lost_between s sent [] c c"
  by (simp add: lost_between_def)

lemma lost_between_Cons:
  assumes "lost_between s sent [n] c c1" "lost_between s sent ns c1 c2"
  shows "lost_between s sent (n # ns) c c2"
  using assms by (auto simp: lost_between_def)

lemma space_take_keeps:
  assumes "space_take n sp = Some (r, sp')"
  shows "sp_lost_packets sp' = sp_lost_packets sp" "sp_pending sp' = sp_pending sp" "sp_loss_time sp' = sp_loss_time sp"
    "sp_largest_acked_packet sp' = sp_largest_acked_packet sp"
    "sp_time_of_last_ack_eliciting_packet sp' = sp_time_of_last_ack_eliciting_packet sp"
    "sp_pending_acks sp' = sp_pending_acks sp" "sp_crypto sp' = sp_crypto sp"
    "sp_largest_acked_packet_sent sp' = sp_largest_acked_packet_sent sp" "sp_next_packet_number sp' = sp_next_packet_number sp"
  using assms by (auto simp: space_take_def Let_def split: option.splits if_splits)

lemma lose_packet_step:
  assumes "accounted e c" "map_of (sp_sent_packets (cn_spaces c s)) n = Some p" "map_of sent n = Some p"
  shows "\<exists>c'. lose_packet s n c = Some c' \<and> accounted e c' \<and> lost_between s sent [n] c c'"
proof -
  obtain sp where sp: "space_take n (cn_spaces c s) = Some (Some p, sp)"
    "sp_sent_packets sp = bm_remove n (sp_sent_packets (cn_spaces c s))" "accounted e (remove_in_flight p (with_space s (\<lambda>_. sp) c))"
    using accounted_take [OF assms(1,2)] by blast
  note keeps = space_take_keeps [OF sp(1)]
  let ?c1 = "remove_in_flight p (with_space s (\<lambda>_. sp) c)"
  obtain c' where c': "lose_packet s n c = Some c'" by (simp add: lose_packet_def sp(1))
  then have c'': "the (lose_packet s n c) = c'" by simp
  have "flight_view c' = flight_view ?c1"
    using c' by (auto simp: lose_packet_def sp(1) flight_view_space)
  then have "accounted e c'" using sp(3) flight_view_accounted by blast
  moreover have "lost_between s sent [n] c c'"
    unfolding lost_between_def c'' [symmetric]
    by (simp add: lose_packet_def sp keeps assms(3) bm_remove_def bm_insert_keys md_on_non_probe_lost_def in_flight_mtu_probe_def)
  ultimately show ?thesis using c' by blast
qed

lemma lose_packets:
  assumes "accounted e c" "distinct ns" "\<forall>n \<in> set ns. map_of (sp_sent_packets (cn_spaces c s)) n \<noteq> None"
    "\<forall>n \<in> set ns. map_of (sp_sent_packets (cn_spaces c s)) n = map_of sent n"
  shows "\<exists>c'. ofold (lose_packet s) ns c = Some c' \<and> accounted e c' \<and> lost_between s sent ns c c'"
  using assms
proof (induction ns arbitrary: c)
  case Nil
  then show ?case using lost_between_Nil by fastforce
next
  case (Cons n ns)
  obtain p where p: "map_of (sp_sent_packets (cn_spaces c s)) n = Some p" using Cons.prems(3) by auto
  then have "map_of sent n = Some p" using Cons.prems(4) by auto
  then obtain c1 where c1: "lose_packet s n c = Some c1" "accounted e c1" "lost_between s sent [n] c c1"
    using lose_packet_step [OF Cons.prems(1) p] by blast
  have "sp_sent_packets (cn_spaces c1 s) = bm_remove n (sp_sent_packets (cn_spaces c s))"
    using c1(3) by (simp add: lost_between_def bm_remove_def)
  then have m: "map_of (sp_sent_packets (cn_spaces c1 s)) k = map_of (sp_sent_packets (cn_spaces c s)) k" if "k \<in> set ns" for k
    using that Cons.prems(2) by auto
  obtain c2 where "ofold (lose_packet s) ns c1 = Some c2" "accounted e c2" "lost_between s sent ns c1 c2"
    using Cons.IH [OF c1(2)] Cons.prems(2-4) m by auto
  then show ?case using c1 lost_between_Cons by fastforce
qed

lemma black_hole_probe:
  "md_black_hole_detected now m = (found, m') \<Longrightarrow> in_flight_mtu_probe m' \<in> {in_flight_mtu_probe m, None}"
  by (auto simp: md_black_hole_detected_def in_flight_mtu_probe_def em_on_black_hole_detected_def Let_def split: prod.splits if_splits option.splits)

lemma check_black_hole_ok:
  assumes "cq_active (cn_rem_cids c) \<noteq> None"
  shows "\<exists>c'. check_black_hole ev now c = Some c' \<and> flight_view c' = flight_view c \<and> lost_between s sent [] c c'"
proof -
  obtain cid where cid: "cq_active (cn_rem_cids c) = Some cid" using assms by blast
  obtain found m where m: "md_black_hole_detected now (pd_mtud (cn_path c)) = (found, m)" by (meson surj_pair)
  note probe = black_hole_probe [OF m]
  define c2 where "c2 = with_path (\<lambda>p. p\<lparr>pd_congestion := ctl_on_mtu_update (ev_controller ev) (md_current_mtu m) (pd_congestion p)\<rparr>)
    (with_path (\<lambda>p. p\<lparr>pd_mtud := m\<rparr>) c)"
  obtain ov where ov: "predict_1rtt_overhead None c2 = Some ov" by (simp add: predict_1rtt_overhead_def c2_def cid)
  have c2: "flight_view c2 = flight_view c" "lost_between s sent [] c c2"
    "lost_between s sent [] c (with_path (\<lambda>p. p\<lparr>pd_mtud := m\<rparr>) c)"
    using probe by (simp_all add: c2_def lost_between_def)
  have d: "lost_between s sent [] c (c2\<lparr>cn_datagrams := d\<rparr>)" "lost_between s sent [] c (push_event e (c2\<lparr>cn_datagrams := d\<rparr>))" for d e
    using c2(2) by (simp_all add: lost_between_def push_event_def)
  show ?thesis
  proof (cases found)
    case False
    then show ?thesis using c2(3) by (simp add: check_black_hole_def m)
  next
    case True
    then have "check_black_hole ev now c = (case dg_max_size (md_current_mtu m) ov (tp_max_datagram_frame_size (cn_peer_params c2)) of
             None \<Rightarrow> Some c2
           | Some max_datagram_size \<Rightarrow>
               let (dropped, d) = dg_drop_oversized max_datagram_size (cn_datagrams c2) in
               if dropped \<and> dg_send_blocked d
               then Some (push_event DatagramsUnblocked (c2\<lparr>cn_datagrams := d\<lparr>dg_send_blocked := False\<rparr>\<rparr>))
               else Some (c2\<lparr>cn_datagrams := d\<rparr>))"
      unfolding check_black_hole_def m Let_def prod.case c2_def [symmetric] ov by simp
    then show ?thesis using c2(1,2) d by (auto split: option.splits prod.splits)
  qed
qed

lemma on_packets_lost_ok:
  assumes "accounted e c" "cq_active (cn_rem_cids c) \<noteq> None" "distinct (ls_lost r)"
    "\<forall>n \<in> set (ls_lost r). map_of (sp_sent_packets (cn_spaces c s)) n \<noteq> None"
  shows "\<exists>c'. on_packets_lost ev now s r c = Some c' \<and> accounted e c' \<and> lost_between s (sp_sent_packets (cn_spaces c s)) (ls_lost r) c c'"
proof (cases "ls_lost r = []")
  case True
  then show ?thesis using assms(1) lost_between_Nil by (simp add: on_packets_lost_def)
next
  case False
  let ?sent = "sp_sent_packets (cn_spaces c s)"
  obtain p where p: "map_of ?sent (last (ls_lost r)) = Some p" using assms(4) last_in_set [OF False] by auto
  obtain c1 where c1: "ofold (lose_packet s) (ls_lost r) c = Some c1" "accounted e c1" "lost_between s ?sent (ls_lost r) c c1"
    using lose_packets [OF assms(1,3,4), of ?sent] by auto
  have "cq_active (cn_rem_cids c1) \<noteq> None" using c1(3) assms(2) by (simp add: lost_between_def)
  then obtain c2 where c2: "check_black_hole ev now c1 = Some c2" "flight_view c2 = flight_view c1" "lost_between s ?sent [] c1 c2"
    using check_black_hole_ok [of c1 ev now s ?sent] by blast
  have ok: "accounted e c2" using c1(2) flight_view_accounted [OF c2(2)] by simp
  have lost: "lost_between s ?sent (ls_lost r) c c2" using c1(3) c2(3) by (auto simp: lost_between_def)
  define f where "f = (\<lambda>(p' :: sent_packet) (p :: 'b path_data). p\<lparr>pd_congestion := ctl_on_congestion_event (ev_controller ev) now (sk_time_sent p')
                 (ls_persistent r) False (ls_size r) (pd_congestion p)\<rparr>)"
  have "accounted e (with_path (f q) c2) \<and> lost_between s ?sent (ls_lost r) c (with_path (f q) c2)" for q
    using ok lost flight_view_accounted [of "with_path (f q) c2" c2 e] by (simp add: f_def lost_between_def)
  from this [of p] show ?thesis using False ok lost by (auto simp: on_packets_lost_def p c1(1) c2(1) f_def)
qed

section \<open>Loss detection\<close>

definition probe_ok :: "('s, 'c) connection \<Rightarrow> bool" where
  "probe_ok c \<longleftrightarrow> (\<forall>n. in_flight_mtu_probe (pd_mtud (cn_path c)) = Some n \<longrightarrow> map_of (sp_sent_packets (cn_spaces c SData)) n \<noteq> None)"

definition recovery_ok :: "nat \<times> nat \<Rightarrow> ('s, 'c) connection \<Rightarrow> bool" where
  "recovery_ok e c \<longleftrightarrow> accounted e c \<and> cq_active (cn_rem_cids c) \<noteq> None \<and> probe_ok c \<and>
     (\<forall>s. sp_loss_time (cn_spaces c s) \<noteq> None \<longrightarrow> sp_largest_acked_packet (cn_spaces c s) \<noteq> None)"

text \<open>The packets that are overdue once a larger number is acknowledged.\<close>

definition overdue :: "loss_params \<Rightarrow> nat \<times> sent_packet \<Rightarrow> bool" where
  "overdue lo e \<longleftrightarrow> fst e < lo_largest_acked lo \<and> is_lost lo (fst e) (snd e)"

lemma accounted_bm_ok: "accounted e c \<Longrightarrow> bm_ok (sp_sent_packets (cn_spaces c s))"
  by (simp add: accounted_def sp_inv_def flight_inv_def)

lemma map_fst_infos:
  assumes "bm_ok m"
  shows "map (\<lambda>n. f (the (map_of m n))) (map fst (filter P m)) = map (\<lambda>x. f (snd x)) (filter P m)"
  using assms by (auto simp: bm_lookup_iff intro!: arg_cong [where f = f]) (metis bm_lookup_iff option.sel prod.collapse)

lemma bm_filter_keys:
  assumes "bm_ok m"
  shows "filter (\<lambda>x. fst x \<notin> fst ` set (filter P m)) m = filter (\<lambda>x. \<not> P x) m"
proof (rule filter_cong [OF refl])
  fix x assume x: "x \<in> set m"
  have "y = x" if "y \<in> set m" "fst y = fst x" for y
    using bm_ok_unique [OF assms, of "fst x" "snd y" "snd x"] x that by (metis prod.collapse)
  then show "(fst x \<notin> fst ` set (filter P m)) = (\<not> P x)" using x by (auto simp del: split_paired_All)
qed

lemma on_mtu_probe_lost_ok:
  assumes "accounted e c" "ls_mtu_probe r = Some n" "map_of (sp_sent_packets (cn_spaces c SData)) n \<noteq> None"
  shows "\<exists>c'. on_mtu_probe_lost r c = Some c' \<and> accounted e c' \<and> in_flight_mtu_probe (pd_mtud (cn_path c')) = None \<and>
    sp_sent_packets (cn_spaces c' SData) = filter (\<lambda>e. fst e \<noteq> n) (sp_sent_packets (cn_spaces c SData)) \<and>
    (\<forall>t. t \<noteq> SData \<longrightarrow> cn_spaces c' t = cn_spaces c t) \<and> sp_pending (cn_spaces c' SData) = sp_pending (cn_spaces c SData) \<and>
    sp_loss_time (cn_spaces c' SData) = sp_loss_time (cn_spaces c SData) \<and>
    sp_largest_acked_packet (cn_spaces c' SData) = sp_largest_acked_packet (cn_spaces c SData) \<and>
    sp_lost_packets (cn_spaces c' SData) = sp_lost_packets (cn_spaces c SData) \<and>
    cn_streams c' = cn_streams c \<and> cn_rem_cids c' = cn_rem_cids c"
proof -
  obtain p where p: "map_of (sp_sent_packets (cn_spaces c SData)) n = Some p" using assms(3) by blast
  obtain sp where sp: "space_take n (cn_spaces c SData) = Some (Some p, sp)"
    "sp_sent_packets sp = bm_remove n (sp_sent_packets (cn_spaces c SData))" "accounted e (remove_in_flight p (with_space SData (\<lambda>_. sp) c))"
    using accounted_take [OF assms(1) p] by blast
  let ?c' = "with_path (\<lambda>p. p\<lparr>pd_mtud := md_on_probe_lost (pd_mtud p)\<rparr>) (remove_in_flight p (with_space SData (\<lambda>_. sp) c))"
  have "accounted e ?c'" using sp(3) flight_view_accounted [of ?c' "remove_in_flight p (with_space SData (\<lambda>_. sp) c)"] by simp
  moreover have "in_flight_mtu_probe (md_on_probe_lost m) = None" for m
    by (simp add: in_flight_mtu_probe_def md_on_probe_lost_def em_on_probe_lost_def split: option.splits mtu_phase.splits)
  ultimately show ?thesis using space_take_keeps [OF sp(1)] by (simp add: on_mtu_probe_lost_def assms(2) sp(1,2) bm_remove_def)
qed

lemma drain_lost_packets_keeps:
  assumes "c' = drain_lost_packets now s (with_space s (\<lambda>sp. sp\<lparr>sp_loss_time := t\<rparr>) c)"
  shows "flight_view c' = flight_view c" "sp_sent_packets (cn_spaces c' u) = sp_sent_packets (cn_spaces c u)"
    "sp_pending (cn_spaces c' u) = sp_pending (cn_spaces c u)" "cn_streams c' = cn_streams c"
    "cn_rem_cids c' = cn_rem_cids c" "cn_path c' = cn_path c" "sp_loss_time (cn_spaces c' s) = t"
    "u \<noteq> s \<Longrightarrow> cn_spaces c' u = cn_spaces c u"
    "sp_largest_acked_packet (cn_spaces c' u) = sp_largest_acked_packet (cn_spaces c u)"
  by (simp_all add: assms drain_lost_packets_def flight_view_space Let_def)

lemma opt_min_Some: "opt_min xs = Some t \<Longrightarrow> t \<in> set xs"
proof (cases xs)
  case (Cons a as)
  assume "opt_min xs = Some t"
  then show ?thesis using Min_in [of "set xs"] by (simp add: Cons del: Min_insert)
qed simp

lemma detect_lost_ok:
  fixes c :: "('s, 'c) connection"
  assumes ok: "recovery_ok e c" and L: "sp_largest_acked_packet (cn_spaces c s) = Some L"
    and probe: "s = SData \<or> (\<forall>n. in_flight_mtu_probe (pd_mtud (cn_path c)) = Some n \<longrightarrow> map_of (sp_sent_packets (cn_spaces c s)) n = None)"
  shows "let lo = loss_params ev now s due_to_ack L c; sent = sp_sent_packets (cn_spaces c s); lost = filter (to_lose lo) (filter (\<lambda>x. fst x < L) sent) in
    \<exists>c'. detect_lost_packets ev now s due_to_ack c = Some c' \<and> recovery_ok e c' \<and>
      sp_sent_packets (cn_spaces c' s) = filter (\<lambda>x. \<not> overdue lo x) sent \<and>
      sp_pending (cn_spaces c' s) = foldl retransmits_or_thin (sp_pending (cn_spaces c s)) (map (\<lambda>x. sk_retransmits (snd x)) lost) \<and>
      cn_streams c' = foldl (\<lambda>st f. streams_retransmit f st) (cn_streams c) (concat (map (\<lambda>x. sk_stream_frames (snd x)) lost)) \<and>
      sp_loss_time (cn_spaces c' s) =
        opt_min (map (\<lambda>x. sk_time_sent (snd x) + lo_loss_delay lo) (filter (\<lambda>x. fst x < L \<and> \<not> overdue lo x) sent)) \<and>
      (\<forall>t. sp_loss_time (cn_spaces c' s) = Some t \<longrightarrow> now < t) \<and>
      (\<forall>t. t \<noteq> s \<longrightarrow> cn_spaces c' t = cn_spaces c t)"
proof -
  define lo where "lo = loss_params ev now s due_to_ack L c"
  define sent where "sent = sp_sent_packets (cn_spaces c s)"
  define below where "below = filter (\<lambda>x. fst x < L) sent"
  define lost where "lost = filter (to_lose lo) below"
  define r where "r = foldl (scan_packet lo) loss_scan_start below"
  define c1 where "c1 = drain_lost_packets now s (with_space s (\<lambda>sp. sp\<lparr>sp_loss_time := ls_loss_time r\<rparr>) c)"
  have lo: "lo_largest_acked lo = L" "lo_now lo = now" "lo_mtu_probe lo = in_flight_mtu_probe (pd_mtud (cn_path c))"
    by (simp_all add: lo_def loss_params_def)
  note r = scan_result [of lo below, folded r_def]
  note c1 = drain_lost_packets_keeps [OF c1_def]
  have acc: "accounted e c" "cq_active (cn_rem_cids c) \<noteq> None" and pok: "probe_ok c"
    and lt: "\<And>s. sp_loss_time (cn_spaces c s) \<noteq> None \<longrightarrow> sp_largest_acked_packet (cn_spaces c s) \<noteq> None"
    using ok by (auto simp: recovery_ok_def)
  have bm: "bm_ok sent" using accounted_bm_ok [OF acc(1)] by (simp add: sent_def)
  have acc1: "accounted e c1" using acc(1) flight_view_accounted [OF c1(1)] by simp
  have sent1: "sp_sent_packets (cn_spaces c1 s) = sent" by (simp add: c1 sent_def)
  have lost_fst: "ls_lost r = map fst lost" by (simp add: r lost_def)
  have dist: "distinct (map fst sent)" using bm by (simp add: bm_ok_def strict_sorted_iff)
  obtain c2 where c2: "on_packets_lost ev now s r c1 = Some c2" "accounted e c2" "lost_between s sent (map fst lost) c1 c2"
    using on_packets_lost_ok [OF acc1, of r s ev now] acc(2) dist bm
    unfolding sent1 lost_fst by (fastforce simp: c1 lost_def below_def distinct_map_filter bm_lookup_iff)
  have info: "map (\<lambda>n. f (the (map_of sent n))) (map fst lost) = map (\<lambda>x. f (snd x)) lost" for f :: "sent_packet \<Rightarrow> 'd"
    using map_fst_infos [OF bm, of f "\<lambda>x. to_lose lo x \<and> fst x < L"] by (simp add: lost_def below_def conj_commute)
  have keep: "sp_sent_packets (cn_spaces c2 s) = filter (\<lambda>x. fst x \<notin> fst ` set lost) sent"
    "sp_pending (cn_spaces c2 s) = foldl retransmits_or_thin (sp_pending (cn_spaces c s)) (map (\<lambda>x. sk_retransmits (snd x)) lost)"
    "cn_streams c2 = foldl (\<lambda>st f. streams_retransmit f st) (cn_streams c) (concat (map (\<lambda>x. sk_stream_frames (snd x)) lost))"
    "\<And>t. t \<noteq> s \<Longrightarrow> cn_spaces c2 t = cn_spaces c t" "sp_loss_time (cn_spaces c2 s) = ls_loss_time r"
    "in_flight_mtu_probe (pd_mtud (cn_path c2)) \<in> {lo_mtu_probe lo, None}" "cn_rem_cids c2 = cn_rem_cids c"
    "sp_largest_acked_packet (cn_spaces c2 s) = Some L"
    using c2(3) [unfolded lost_between_def info] L sent1 by (simp_all add: c1 lo)
  have rest: "filter (\<lambda>x. fst x \<notin> fst ` set lost) sent = filter (\<lambda>x. \<not> (fst x < L \<and> to_lose lo x)) sent"
    using bm_filter_keys [OF bm, of "\<lambda>x. fst x < L \<and> to_lose lo x"] by (simp add: lost_def below_def conj_commute)
  have time: "sp_loss_time (cn_spaces c2 s) = opt_min (map (\<lambda>x. sk_time_sent (snd x) + lo_loss_delay lo) (filter (\<lambda>x. fst x < L \<and> \<not> overdue lo x) sent))"
    unfolding keep(5) r(4) below_def by (auto simp: overdue_def lo intro!: arg_cong [where f = opt_min] map_cong filter_cong)
  have future: "now < t" if "sp_loss_time (cn_spaces c2 s) = Some t" for t
    using opt_min_Some [OF that [unfolded time]] by (auto simp: overdue_def lo is_lost_def)
  have run: "detect_lost_packets ev now s due_to_ack c = on_mtu_probe_lost r c2"
    unfolding detect_lost_packets_def L by (simp add: Let_def lo_def [symmetric] sent_def [symmetric] below_def [symmetric] r_def [symmetric] c1_def [symmetric] c2(1))
  have "\<exists>c'. on_mtu_probe_lost r c2 = Some c' \<and> accounted e c' \<and> probe_ok c' \<and> cn_rem_cids c' = cn_rem_cids c \<and>
      sp_sent_packets (cn_spaces c' s) = filter (\<lambda>x. \<not> overdue lo x) sent \<and> sp_pending (cn_spaces c' s) = sp_pending (cn_spaces c2 s) \<and>
      cn_streams c' = cn_streams c2 \<and> sp_loss_time (cn_spaces c' s) = sp_loss_time (cn_spaces c2 s) \<and>
      sp_largest_acked_packet (cn_spaces c' s) = Some L \<and> (\<forall>t. t \<noteq> s \<longrightarrow> cn_spaces c' t = cn_spaces c t)"
  proof (cases "ls_mtu_probe r")
    case None
    then have np: "\<not> (is_lost lo (fst x) (snd x) \<and> Some (fst x) = lo_mtu_probe lo)" if "x \<in> set below" for x
      using that r(2) by (auto split: if_splits)
    have "filter (\<lambda>x. \<not> (fst x < L \<and> to_lose lo x)) sent = filter (\<lambda>x. \<not> overdue lo x) sent"
      using np by (fastforce simp: overdue_def lo to_lose_def below_def intro!: filter_cong)
    moreover have "probe_ok c2"
      unfolding probe_ok_def
    proof (intro allI impI)
      fix n assume "in_flight_mtu_probe (pd_mtud (cn_path c2)) = Some n"
      then have n: "lo_mtu_probe lo = Some n" using keep(6) by auto
      then have look: "map_of (sp_sent_packets (cn_spaces c SData)) n \<noteq> None" using pok lo(3) by (simp add: probe_ok_def)
      show "map_of (sp_sent_packets (cn_spaces c2 SData)) n \<noteq> None"
      proof (cases "s = SData")
        case True
        then obtain p where "(n, p) \<in> set sent" using look map_of_SomeD by (fastforce simp: sent_def)
        then have "(n, p) \<in> set (sp_sent_packets (cn_spaces c2 s))" using n by (simp add: keep(1) rest to_lose_def)
        then show ?thesis using True by (auto dest: weak_map_of_SomeI)
      qed (use look keep(4) in simp)
    qed
    ultimately show ?thesis using None c2(2) keep rest by (simp add: on_mtu_probe_lost_def)
  next
    case (Some n)
    then obtain x where x: "x \<in> set below" "fst x = n" "is_lost lo n (snd x)" "lo_mtu_probe lo = Some n"
      using r(2) by (auto split: if_splits)
    have s: "s = SData" using probe x(1,2,4) lo(3) by (force simp: below_def sent_def map_of_eq_None_iff)
    have "(n, snd x) \<in> set (sp_sent_packets (cn_spaces c2 SData))"
      using x s keep(1) rest by (auto simp: below_def to_lose_def)
    then have look: "map_of (sp_sent_packets (cn_spaces c2 SData)) n \<noteq> None" by (auto dest: weak_map_of_SomeI)
    have same: "snd y = snd x" if "y \<in> set sent" "fst y = n" for y
      using bm_ok_unique [OF bm, of n "snd y" "snd x"] that x(1,2) by (cases x; cases y) (auto simp: below_def)
    have "filter (\<lambda>x. fst x \<noteq> n) (filter (\<lambda>x. \<not> (fst x < L \<and> to_lose lo x)) sent) = filter (\<lambda>x. \<not> overdue lo x) sent"
      unfolding filter_filter
    proof (rule filter_cong [OF refl])
      fix y assume "y \<in> set sent"
      then show "(\<not> (fst y < L \<and> to_lose lo y) \<and> fst y \<noteq> n) = (\<not> overdue lo y)"
        by (cases "fst y = n") (use same [of y] x in \<open>simp_all add: overdue_def lo to_lose_def below_def\<close>)
    qed
    then show ?thesis using on_mtu_probe_lost_ok [OF c2(2) Some look] keep rest s by (auto simp: probe_ok_def)
  qed
  then obtain c' where c': "on_mtu_probe_lost r c2 = Some c'" "accounted e c'" "probe_ok c'" "cn_rem_cids c' = cn_rem_cids c"
      "sp_sent_packets (cn_spaces c' s) = filter (\<lambda>x. \<not> overdue lo x) sent" "sp_pending (cn_spaces c' s) = sp_pending (cn_spaces c2 s)"
      "cn_streams c' = cn_streams c2" "sp_loss_time (cn_spaces c' s) = sp_loss_time (cn_spaces c2 s)"
      "sp_largest_acked_packet (cn_spaces c' s) = Some L" "\<forall>t. t \<noteq> s \<longrightarrow> cn_spaces c' t = cn_spaces c t"
    by blast
  have "recovery_ok e c'" using c' acc(2) lt by (auto simp: recovery_ok_def) (metis option.distinct(1))
  then show ?thesis unfolding Let_def lo_def [symmetric] sent_def [symmetric] below_def [symmetric] lost_def [symmetric] run
    using c' keep time future by auto
qed

section \<open>Acknowledgements\<close>

text \<open>What the invariant depends on.\<close>

definition recovery_view where
  "recovery_view c = (flight_view c, cn_rem_cids c, in_flight_mtu_probe (pd_mtud (cn_path c)),
     \<lambda>s. (sp_loss_time (cn_spaces c s), sp_largest_acked_packet (cn_spaces c s)))"

lemma recovery_view_ok:
  fixes c c' :: "('s, 'c) connection"
  assumes "recovery_view c = recovery_view c'"
  shows "recovery_ok e c = recovery_ok e c'"
proof -
  have v: "flight_view c = flight_view c'" "cn_rem_cids c = cn_rem_cids c'"
    "in_flight_mtu_probe (pd_mtud (cn_path c)) = in_flight_mtu_probe (pd_mtud (cn_path c'))"
    "sp_loss_time (cn_spaces c s) = sp_loss_time (cn_spaces c' s)"
    "sp_largest_acked_packet (cn_spaces c s) = sp_largest_acked_packet (cn_spaces c' s)" for s
    using assms by (auto simp: recovery_view_def fun_eq_iff)
  have "sp_sent_packets (cn_spaces c s) = sp_sent_packets (cn_spaces c' s)" for s
    using v(1) by (auto simp: flight_view_def fun_eq_iff)
  then show ?thesis using flight_view_accounted [OF v(1)] v by (simp add: recovery_ok_def probe_ok_def)
qed

lemma newly_acked_set:
  assumes "newly_acked s f sent acc ranges = Inr acked" "rs_inv acc" "\<forall>n \<in> set sent. n < u64_max"
  shows "rs_inv acked \<and> rs_set acked = rs_set acc \<union> {n \<in> set sent. \<exists>(lo, hi) \<in> set ranges. lo \<le> n \<and> n \<le> hi}"
  using assms
proof (induction s f sent acc ranges rule: newly_acked.induct)
  case (2 s f sent acc lo hi ranges)
  have ins: "rs_inv (foldl (\<lambda>rs n. fst (ars_insert_one n rs)) acc ns) \<and>
      rs_set (foldl (\<lambda>rs n. fst (ars_insert_one n rs)) acc ns) = rs_set acc \<union> set ns"
    if "rs_inv acc" "\<forall>n \<in> set ns. n < u64_max" for acc ns
    using that by (induction ns arbitrary: acc) (auto simp: ars_insert_one_def ars.insert_inv ars.insert_set wrapping_add_def)
  define acc' where "acc' = foldl (\<lambda>rs n. fst (ars_insert_one n rs)) acc (filter (\<lambda>n. lo \<le> n \<and> n \<le> hi) sent)"
  have lt: "\<forall>n \<in> set (filter (\<lambda>n. lo \<le> n \<and> n \<le> hi) sent). n < u64_max" using "2.prems"(3) by auto
  have acc': "rs_inv acc'" "rs_set acc' = rs_set acc \<union> {n \<in> set sent. lo \<le> n \<and> n \<le> hi}"
    using ins [of acc "filter (\<lambda>n. lo \<le> n \<and> n \<le> hi) sent", OF "2.prems"(2) lt] by (simp_all add: acc'_def)
  obtain u where u: "pf_check_ack s lo hi f = Inr u" using "2.prems"(1) by (auto split: sum.splits)
  have "newly_acked s f sent acc' ranges = Inr acked" using "2.prems"(1) by (simp add: u acc'_def)
  then have "rs_inv acked \<and> rs_set acked = rs_set acc' \<union> {n \<in> set sent. \<exists>(lo, hi) \<in> set ranges. lo \<le> n \<and> n \<le> hi}"
    using "2.IH" [OF u] acc'(1) "2.prems"(3) by (simp add: acc'_def)
  then show ?case using acc'(2) by auto
qed auto

lemma ars_elts_sorted: "rs_inv rs \<Longrightarrow> sorted_wrt (<) (ars_elts rs)"
proof (induction rs)
  case (Cons x rs)
  obtain a b where x: "x = (a, b)" by (cases x)
  have "ars_elts (x # rs) = [a..<b] @ ars_elts rs" by (simp add: ars_elts_def x)
  moreover have "\<forall>m \<in> {a..<b}. \<forall>n \<in> rs_set rs. m < n" using Cons.prems by (fastforce simp: x rs_set_def)
  ultimately show ?case using Cons x ars_elts_set [of rs] by (auto simp: sorted_wrt_append)
qed (simp add: ars_elts_def)

text \<open>The packets \<open>ns\<close> of a space have been acknowledged between two states.\<close>

definition acked_between :: "space_id \<Rightarrow> nat list \<Rightarrow> ('s, 'c) connection \<Rightarrow> ('s, 'c) connection \<Rightarrow> bool" where
  "acked_between s ns c c' \<longleftrightarrow>
     sp_sent_packets (cn_spaces c' s) = filter (\<lambda>e. fst e \<notin> set ns) (sp_sent_packets (cn_spaces c s)) \<and>
     (\<forall>t. t \<noteq> s \<longrightarrow> cn_spaces c' t = cn_spaces c t) \<and>
     sp_loss_time (cn_spaces c' s) = sp_loss_time (cn_spaces c s) \<and>
     sp_largest_acked_packet (cn_spaces c' s) = sp_largest_acked_packet (cn_spaces c s) \<and>
     in_flight_mtu_probe (pd_mtud (cn_path c')) \<in> {in_flight_mtu_probe (pd_mtud (cn_path c)), None} \<and>
     (s = SData \<longrightarrow> (\<forall>n \<in> set ns. map_of (sp_sent_packets (cn_spaces c s)) n \<noteq> None \<longrightarrow> in_flight_mtu_probe (pd_mtud (cn_path c')) \<noteq> Some n)) \<and>
     cn_rem_cids c' = cn_rem_cids c \<and> cn_state c' = cn_state c"

lemma md_on_acked_probe:
  assumes "md_on_acked s n len m = (u, m')"
  shows "in_flight_mtu_probe m' \<in> {in_flight_mtu_probe m, None}" "s = SData \<Longrightarrow> in_flight_mtu_probe m' \<noteq> Some n"
  using assms by (auto simp: md_on_acked_def em_on_probe_acked_def in_flight_mtu_probe_def Let_def
      split: if_splits option.splits prod.splits mtu_phase.splits)

lemma flight_view_remove:
  fixes c c' :: "('s, 'c) connection"
  assumes "flight_view c = flight_view c'"
  shows "flight_view (remove_in_flight p c) = flight_view (remove_in_flight p c')"
  using assms by (auto simp: flight_view_def remove_in_flight_def path_remove_in_flight_def split: option.splits prod.splits if_splits)

lemma ack_packet_step:
  assumes "accounted e c" "map_of (sp_sent_packets (cn_spaces c s)) n = Some p" "ack_streams p (cn_streams c) = Some st"
  shows "\<exists>c'. ack_packet ev now s n (el, c) = Some (el \<or> sk_ack_eliciting p, c') \<and> accounted e c' \<and> acked_between s [n] c c' \<and> cn_streams c' = st"
proof -
  obtain sp where sp: "space_take n (cn_spaces c s) = Some (Some p, sp)"
    "sp_sent_packets sp = bm_remove n (sp_sent_packets (cn_spaces c s))" "accounted e (remove_in_flight p (with_space s (\<lambda>_. sp) c))"
    using accounted_take [OF assms(1,2)] by blast
  note keeps = space_take_keeps [OF sp(1)]
  obtain u m where m: "md_on_acked s n (sk_size p) (pd_mtud (cn_path c)) = (u, m)" by (meson surj_pair)
  define c1 where "c1 = with_space s (\<lambda>_. case sk_largest_acked p of None \<Rightarrow> sp
     | Some acked \<Rightarrow> sp\<lparr>sp_pending_acks := subtract_below acked (sp_pending_acks sp)\<rparr>) c"
  define c2 where "c2 = with_path (\<lambda>p. p\<lparr>pd_mtud := m\<rparr>) c1"
  define c3 where "c3 = (if u then with_path (\<lambda>p. p\<lparr>pd_congestion := ctl_on_mtu_update (ev_controller ev) (md_current_mtu m) (pd_congestion p)\<rparr>) c2 else c2)"
  define c4 where "c4 = c3\<lparr>cn_ack_frequency := ack_frequency_on_acked n (cn_ack_frequency c3)\<rparr>"
  define c5 where "c5 = remove_in_flight p c4"
  define c6 where "c6 = (if sk_ack_eliciting p \<and> pd_challenge (cn_path c5) = None
     then with_path (\<lambda>q. q\<lparr>pd_congestion := ctl_on_ack (ev_controller ev) now (sk_time_sent p) (sk_size p)
                       (cn_app_limited c5) (pd_rtt q) (pd_congestion q)\<rparr>) c5 else c5)"
  have view: "flight_view c4 = flight_view (with_space s (\<lambda>_. sp) c)"
    by (auto simp: c4_def c3_def c2_def c1_def flight_view_def split: option.splits)
  have "flight_view (c6\<lparr>cn_streams := st\<rparr>) = flight_view c5" by (simp add: c6_def)
  also have "\<dots> = flight_view (remove_in_flight p (with_space s (\<lambda>_. sp) c))"
    unfolding c5_def by (rule flight_view_remove [OF view])
  finally have acc: "accounted e (c6\<lparr>cn_streams := st\<rparr>)" using sp(3) flight_view_accounted by blast
  have run: "ack_packet ev now s n (el, c) = Some (el \<or> sk_ack_eliciting p, c6\<lparr>cn_streams := st\<rparr>)"
  proof -
    have "cn_streams c6 = cn_streams c" by (simp add: c6_def c5_def c4_def c3_def c2_def c1_def)
    then have "on_packet_acked ev now p c4 = Some (c6\<lparr>cn_streams := st\<rparr>)"
      using assms(3) by (simp add: on_packet_acked_def c5_def [symmetric] c6_def [symmetric] Let_def)
    moreover have "pd_mtud (cn_path c1) = pd_mtud (cn_path c)" by (simp add: c1_def)
    ultimately show ?thesis
      unfolding ack_packet_def
      by (cases u) (simp_all add: sp(1) c1_def [symmetric] m c2_def [symmetric] c3_def c4_def Let_def)
  qed
  have "acked_between s [n] c (c6\<lparr>cn_streams := st\<rparr>)"
    using md_on_acked_probe [OF m] keeps sp(2)
    by (auto simp: acked_between_def c6_def c5_def c4_def c3_def c2_def c1_def bm_remove_def split: option.splits)
  then show ?thesis using run acc by simp
qed

lemma acked_between_Cons:
  assumes "acked_between s [n] c c1" "acked_between s ns c1 c2" "n \<notin> set ns"
  shows "acked_between s (n # ns) c c2"
proof -
  have sent: "sp_sent_packets (cn_spaces c1 s) = bm_remove n (sp_sent_packets (cn_spaces c s))"
    using assms(1) by (simp add: acked_between_def bm_remove_def)
  then have m: "map_of (sp_sent_packets (cn_spaces c1 s)) k = map_of (sp_sent_packets (cn_spaces c s)) k" if "k \<in> set ns" for k
    using that assms(3) by auto
  have "sp_sent_packets (cn_spaces c2 s) = filter (\<lambda>e. fst e \<notin> set (n # ns)) (sp_sent_packets (cn_spaces c s))"
    using assms(1,2) by (auto simp: acked_between_def conj_commute intro: filter_cong)
  then show ?thesis using assms m unfolding acked_between_def by auto
qed

lemma ack_packets:
  assumes "accounted e c" "distinct ns" "\<forall>n \<in> set ns. map_of (sp_sent_packets (cn_spaces c s)) n \<noteq> None"
    "ofold ack_streams (List.map_filter (map_of (sp_sent_packets (cn_spaces c s))) ns) (cn_streams c) = Some st"
  shows "\<exists>el' c'. ofold (ack_packet ev now s) ns (el, c) = Some (el', c') \<and> accounted e c' \<and> acked_between s ns c c' \<and> cn_streams c' = st"
  using assms
proof (induction ns arbitrary: c el)
  case Nil
  then show ?case by (auto simp: acked_between_def)
next
  case (Cons n ns)
  obtain p where p: "map_of (sp_sent_packets (cn_spaces c s)) n = Some p" using Cons.prems(3) by auto
  obtain st1 where st1: "ack_streams p (cn_streams c) = Some st1"
    "ofold ack_streams (List.map_filter (map_of (sp_sent_packets (cn_spaces c s))) ns) st1 = Some st"
    using Cons.prems(4) by (auto simp: p bind_eq_Some_conv)
  obtain c1 where c1: "ack_packet ev now s n (el, c) = Some (el \<or> sk_ack_eliciting p, c1)" "accounted e c1"
    "acked_between s [n] c c1" "cn_streams c1 = st1"
    using ack_packet_step [OF Cons.prems(1) p st1(1)] by blast
  have "sp_sent_packets (cn_spaces c1 s) = bm_remove n (sp_sent_packets (cn_spaces c s))"
    using c1(3) by (simp add: acked_between_def bm_remove_def)
  then have m: "map_of (sp_sent_packets (cn_spaces c1 s)) k = map_of (sp_sent_packets (cn_spaces c s)) k" if "k \<in> set ns" for k
    using that Cons.prems(2) by auto
  have "List.map_filter (map_of (sp_sent_packets (cn_spaces c1 s))) ns = List.map_filter (map_of (sp_sent_packets (cn_spaces c s))) ns"
    using m by (auto simp: List.map_filter_def intro!: map_cong filter_cong)
  then obtain el' c2 where "ofold (ack_packet ev now s) ns (el \<or> sk_ack_eliciting p, c1) = Some (el', c2)" "accounted e c2"
    "acked_between s ns c1 c2" "cn_streams c2 = st"
    using Cons.IH [OF c1(2), of "el \<or> sk_ack_eliciting p"] Cons.prems(2,3) st1(2) m c1(4) by auto
  then show ?case using c1 acked_between_Cons [OF c1(3)] Cons.prems(2) by auto
qed

text \<open>The steps of the handler that leave the books alone.\<close>

lemma process_ecn_view: "recovery_view (process_ecn ev now s k ecn t c) = recovery_view c \<and> cn_streams (process_ecn ev now s k ecn t c) = cn_streams c"
proof -
  obtain r sp where r: "detect_ecn k ecn (cn_spaces c s) = (r, sp)" by (meson surj_pair)
  then have "sp_sent_packets sp = sp_sent_packets (cn_spaces c s)" "sp_largest_ack_eliciting_sent sp = sp_largest_ack_eliciting_sent (cn_spaces c s)"
    "sp_unacked_non_ack_eliciting_tail sp = sp_unacked_non_ack_eliciting_tail (cn_spaces c s)"
    "sp_next_packet_number sp = sp_next_packet_number (cn_spaces c s)" "sp_loss_time sp = sp_loss_time (cn_spaces c s)"
    "sp_largest_acked_packet sp = sp_largest_acked_packet (cn_spaces c s)"
    by (auto simp: detect_ecn_def Let_def split: if_splits option.splits)
  then show ?thesis by (cases r) (auto simp: process_ecn_def r recovery_view_def flight_view_def Let_def split: bool.splits)
qed

lemma sample_rtt_view: "recovery_view (sample_rtt now s d c) = recovery_view c \<and> cn_streams (sample_rtt now s d c) = cn_streams c"
  by (auto simp: sample_rtt_def recovery_view_def flight_view_def Let_def)

lemma set_timer_view: "recovery_view (set_loss_detection_timer now c) = recovery_view c \<and> cn_streams (set_loss_detection_timer now c) = cn_streams c"
  by (auto simp: set_loss_detection_timer_def set_timer_def stop_timer_def recovery_view_def flight_view_def split: option.splits)

lemma detect_spurious_view:
  "recovery_view (snd (detect_spurious_loss ranges s c)) = recovery_view c \<and> cn_streams (snd (detect_spurious_loss ranges s c)) = cn_streams c"
  by (auto simp: detect_spurious_loss_def recovery_view_def flight_view_def Let_def)

lemma note_largest_ok:
  assumes "recovery_ok e c"
  shows "recovery_ok e (with_space s (note_largest_acked L) c)"
proof -
  have "flight_view (with_space s (note_largest_acked L) c) = flight_view c"
    by (auto simp: flight_view_def note_largest_acked_def)
  from flight_view_accounted [OF this, of e] show ?thesis
    using assms by (auto simp: recovery_ok_def probe_ok_def note_largest_acked_def)
qed

definition in_ranges :: "urange list \<Rightarrow> nat \<times> sent_packet \<Rightarrow> bool" where
  "in_ranges ranges x \<longleftrightarrow> (\<exists>(lo, hi) \<in> set ranges. lo \<le> fst x \<and> fst x \<le> hi)"

lemma newly_acked_elts:
  assumes "newly_acked s f (map fst sent) [] ranges = Inr acked" "bm_ok sent" "\<forall>x \<in> set sent. fst x < u64_max"
  shows "ars_elts acked = map fst (filter (in_ranges ranges) sent)"
proof -
  have "rs_inv acked" "rs_set acked = {n \<in> fst ` set sent. \<exists>(lo, hi) \<in> set ranges. lo \<le> n \<and> n \<le> hi}"
    using newly_acked_set [OF assms(1)] assms(3) by auto
  then have "sorted_wrt (<) (ars_elts acked)" "set (ars_elts acked) = set (map fst (filter (in_ranges ranges) sent))"
    using ars_elts_sorted by (auto simp: ars_elts_set in_ranges_def)
  moreover have "sorted_wrt (<) (map fst (filter (in_ranges ranges) sent))"
    using assms(2) by (auto simp: bm_ok_def sorted_wrt_map intro: sorted_wrt_filter)
  ultimately show ?thesis by (meson strict_sorted_equal)
qed

lemma acked_recovery_ok:
  fixes c c' :: "('s, 'c) connection"
  assumes "recovery_ok e c" "accounted e c'" "acked_between s ns c c'" "set ns \<subseteq> fst ` set (sp_sent_packets (cn_spaces c s))"
  shows "recovery_ok e c'"
proof -
  have sent: "sp_sent_packets (cn_spaces c' s) = filter (\<lambda>e. fst e \<notin> set ns) (sp_sent_packets (cn_spaces c s))"
    using assms(3) by (simp add: acked_between_def)
  have known: "map_of (sp_sent_packets (cn_spaces c s)) n \<noteq> None" if "n \<in> set ns" for n
    using that assms(4) by (auto simp: map_of_eq_None_iff)
  have left: "map_of (filter (\<lambda>e. fst e \<notin> set ns) m) n \<noteq> None" if "map_of m n \<noteq> None" "n \<notin> set ns" for n and m :: "(nat \<times> sent_packet) list"
    using that by (auto simp: map_of_eq_None_iff)
  have "probe_ok c'"
    using assms(1,3) known left sent unfolding recovery_ok_def probe_ok_def acked_between_def by (cases "s = SData") auto
  moreover have "sp_loss_time (cn_spaces c' t) \<noteq> None \<longrightarrow> sp_largest_acked_packet (cn_spaces c' t) \<noteq> None" for t
    using assms(1,3) by (cases "t = s") (auto simp: acked_between_def recovery_ok_def)
  ultimately show ?thesis using assms by (simp add: recovery_ok_def acked_between_def)
qed

text \<open>The first half of the handler: the largest number is noted and the frame checked against the skipped numbers.\<close>

definition ack_noted :: "('s, 'c) env \<Rightarrow> space_id \<Rightarrow> ack \<Rightarrow> urange list \<Rightarrow> ('s, 'c) connection \<Rightarrow> ('s, 'c) connection" where
  "ack_noted ev s a ranges c =
     (let c1 = (if (case sp_largest_acked_packet (cn_spaces c s) of None \<Rightarrow> True | Some pn \<Rightarrow> pn < ack_largest a)
                then with_space s (note_largest_acked (ack_largest a)) c else c);
          (spurious, c2) = detect_spurious_loss ranges s c1 in
      if spurious then with_path (\<lambda>p. p\<lparr>pd_congestion := ctl_on_spurious_congestion_event (ev_controller ev) (pd_congestion p)\<rparr>) c2 else c2)"

definition largest_after :: "ack \<Rightarrow> 'k packet_space \<Rightarrow> nat" where
  "largest_after a sp = (case sp_largest_acked_packet sp of None \<Rightarrow> ack_largest a | Some pn \<Rightarrow> max pn (ack_largest a))"

lemma ack_noted:
  fixes c :: "('s, 'c) connection"
  assumes "recovery_ok e c"
  shows "recovery_ok e (ack_noted ev s a ranges c)" "flight_view (ack_noted ev s a ranges c) = flight_view c"
    "cn_streams (ack_noted ev s a ranges c) = cn_streams c" "cn_packet_number_filter (ack_noted ev s a ranges c) = cn_packet_number_filter c"
    "pd_mtud (cn_path (ack_noted ev s a ranges c)) = pd_mtud (cn_path c)"
    "sp_largest_acked_packet (cn_spaces (ack_noted ev s a ranges c) s) = Some (largest_after a (cn_spaces c s))"
proof -
  let ?new = "case sp_largest_acked_packet (cn_spaces c s) of None \<Rightarrow> True | Some pn \<Rightarrow> pn < ack_largest a"
  define c1 where "c1 = (if ?new then with_space s (note_largest_acked (ack_largest a)) c else c)"
  obtain sp c2 where c2: "detect_spurious_loss ranges s c1 = (sp, c2)" by (meson surj_pair)
  have c1: "recovery_ok e c1" "flight_view c1 = flight_view c" "sp_largest_acked_packet (cn_spaces c1 s) = Some (largest_after a (cn_spaces c s))"
    "cn_streams c1 = cn_streams c" "cn_packet_number_filter c1 = cn_packet_number_filter c" "pd_mtud (cn_path c1) = pd_mtud (cn_path c)"
    using assms note_largest_ok [OF assms, of s "ack_largest a"]
    by (auto simp: c1_def flight_view_def note_largest_acked_def largest_after_def with_space_def split: option.splits)
  have v: "recovery_view c2 = recovery_view c1" using detect_spurious_view [of ranges s c1] by (simp add: c2)
  have w: "recovery_view (ack_noted ev s a ranges c) = recovery_view c2"
    unfolding ack_noted_def c1_def [symmetric] Let_def c2 by (simp add: recovery_view_def flight_view_def)
  show "recovery_ok e (ack_noted ev s a ranges c)" using c1(1) recovery_view_ok [OF v] recovery_view_ok [OF w] by blast
  show "flight_view (ack_noted ev s a ranges c) = flight_view c" using v w c1(2) by (simp add: recovery_view_def)
  show "sp_largest_acked_packet (cn_spaces (ack_noted ev s a ranges c) s) = Some (largest_after a (cn_spaces c s))"
    using v w c1(3) by (auto simp: recovery_view_def fun_eq_iff)
  have "cn_streams c2 = cn_streams c1" "cn_packet_number_filter c2 = cn_packet_number_filter c1" "pd_mtud (cn_path c2) = pd_mtud (cn_path c1)"
    using c2 by (auto simp: detect_spurious_loss_def Let_def with_space_def split: if_splits)
  then show "cn_streams (ack_noted ev s a ranges c) = cn_streams c" "cn_packet_number_filter (ack_noted ev s a ranges c) = cn_packet_number_filter c"
    "pd_mtud (cn_path (ack_noted ev s a ranges c)) = pd_mtud (cn_path c)"
    unfolding ack_noted_def c1_def [symmetric] Let_def c2 using c1 by (simp_all add: with_path_def)
qed

text \<open>The second half: the losses the acknowledgement shows and what follows them.\<close>

definition ack_finished :: "('s, 'c) env \<Rightarrow> nat \<Rightarrow> space_id \<Rightarrow> ack \<Rightarrow> bool \<Rightarrow> nat \<Rightarrow> ('s, 'c) connection \<Rightarrow> ('s, 'c) connection" where
  "ack_finished ev now s a new_largest k c7 =
     (let c8 = (if peer_completed_address_validation c7 then c7\<lparr>cn_pto_count := 0\<rparr> else c7);
          c9 = (if pd_sending_ecn (cn_path c8) then
                  (case ack_ecn a of
                     Some ecn \<Rightarrow>
                       if new_largest then process_ecn ev now s k ecn (sp_largest_acked_packet_sent (cn_spaces c8 s)) c8 else c8
                   | None \<Rightarrow> with_path (\<lambda>p. p\<lparr>pd_sending_ecn := False\<rparr>) c8)
                  else c8) in
      set_loss_detection_timer now c9)"

lemma ack_finished_view:
  "recovery_view (ack_finished ev now s a new k c) = recovery_view c" "cn_streams (ack_finished ev now s a new k c) = cn_streams c"
proof -
  define c8 where "c8 = (if peer_completed_address_validation c then c\<lparr>cn_pto_count := 0\<rparr> else c)"
  have c8: "recovery_view c8 = recovery_view c" "cn_streams c8 = cn_streams c" by (simp_all add: c8_def recovery_view_def flight_view_def)
  have off: "recovery_view (with_path (\<lambda>p. p\<lparr>pd_sending_ecn := False\<rparr>) c8) = recovery_view c8" by (simp add: recovery_view_def flight_view_def)
  show "recovery_view (ack_finished ev now s a new k c) = recovery_view c" "cn_streams (ack_finished ev now s a new k c) = cn_streams c"
    unfolding ack_finished_def c8_def [symmetric] Let_def
    by (auto simp: set_timer_view process_ecn_view c8 off split: option.splits)
qed

lemma on_ack_received_eq:
  assumes "ack_largest a < sp_next_packet_number (cn_spaces c s)" "ack_ranges a = Some ranges"
  shows "on_ack_received ev now s a c =
    (let new = (case sp_largest_acked_packet (cn_spaces c s) of None \<Rightarrow> True | Some pn \<Rightarrow> pn < ack_largest a);
         c3 = ack_noted ev s a ranges c in
     case newly_acked s (cn_packet_number_filter c3) (map fst (sp_sent_packets (cn_spaces c3 s))) [] ranges of
       Inl e \<Rightarrow> Some (Inl e, c3)
     | Inr acked \<Rightarrow>
         if acked = [] then Some (Inr (), c3)
         else do {
           (el, c4) \<leftarrow> ofold (ack_packet ev now s) (ars_elts acked) (False, c3);
           let c5 = with_path (\<lambda>p. p\<lparr>pd_congestion := ctl_on_end_acks (ev_controller ev) now (if_bytes (pd_in_flight p))
              (cn_app_limited c4) (sp_largest_acked_packet (cn_spaces c4 s)) (pd_congestion p)\<rparr>) c4;
           c7 \<leftarrow> detect_lost_packets ev now s True (if new \<and> el then sample_rtt now s (ack_delay a) c5 else c5);
           Some (Inr (), ack_finished ev now s a new (length acked) c7) })"
proof -
  have le: "\<not> sp_next_packet_number (cn_spaces c s) \<le> ack_largest a" using assms(1) by simp
  show ?thesis
    unfolding on_ack_received_def ack_noted_def ack_finished_def Let_def split_def
    by (simp only: le assms(2) if_False bind.bind_lunit)
qed

lemma map_filter_lookup: "\<forall>x \<in> set xs. m (fst x) = Some (snd x) \<Longrightarrow> List.map_filter m (map fst xs) = map snd xs"
  by (induction xs) simp_all

lemma detect_lost_between:
  fixes c :: "('s, 'c) connection"
  assumes "recovery_ok e c" "sp_largest_acked_packet (cn_spaces c s) = Some L"
    "s = SData \<or> (\<forall>n. in_flight_mtu_probe (pd_mtud (cn_path c)) = Some n \<longrightarrow> map_of (sp_sent_packets (cn_spaces c s)) n = None)"
  obtains c' where "detect_lost_packets ev now s d c = Some c'" "recovery_ok e c'"
    "set (sp_sent_packets (cn_spaces c' s)) \<subseteq> set (sp_sent_packets (cn_spaces c s))"
    "\<forall>x \<in> set (sp_sent_packets (cn_spaces c s)). L \<le> fst x \<longrightarrow> x \<in> set (sp_sent_packets (cn_spaces c' s))"
proof -
  obtain c' where "detect_lost_packets ev now s d c = Some c'" "recovery_ok e c'"
    "sp_sent_packets (cn_spaces c' s) = filter (\<lambda>x. \<not> overdue (loss_params ev now s d L c) x) (sp_sent_packets (cn_spaces c s))"
    using detect_lost_ok [OF assms, of ev now d] unfolding Let_def by blast
  then show ?thesis using that [of c'] by (auto simp: overdue_def loss_params_def)
qed

lemma ack_received_ok:
  fixes c :: "('s, 'c) connection"
  assumes ok: "recovery_ok e c" and pn: "sp_next_packet_number (cn_spaces c s) \<le> u64_max"
    and probe: "s = SData \<or> (\<forall>n. in_flight_mtu_probe (pd_mtud (cn_path c)) = Some n \<longrightarrow> map_of (sp_sent_packets (cn_spaces c s)) n = None)"
    and ranges: "ack_ranges a = Some ranges" and largest: "ack_largest a < sp_next_packet_number (cn_spaces c s)"
    and skip: "newly_acked s (cn_packet_number_filter c) (map fst (sp_sent_packets (cn_spaces c s))) [] ranges = Inr acked"
    and st: "ofold ack_streams (map snd (filter (in_ranges ranges) (sp_sent_packets (cn_spaces c s)))) (cn_streams c) = Some st"
  shows "\<exists>c'. on_ack_received ev now s a c = Some (Inr (), c') \<and> recovery_ok e c' \<and>
      (\<forall>x \<in> set (sp_sent_packets (cn_spaces c' s)). x \<in> set (sp_sent_packets (cn_spaces c s)) \<and> \<not> in_ranges ranges x) \<and>
      (\<forall>x \<in> set (sp_sent_packets (cn_spaces c s)). \<not> in_ranges ranges x \<longrightarrow> largest_after a (cn_spaces c s) \<le> fst x \<longrightarrow>
         x \<in> set (sp_sent_packets (cn_spaces c' s)))"
proof -
  let ?sent = "sp_sent_packets (cn_spaces c s)"
  define new where "new = (case sp_largest_acked_packet (cn_spaces c s) of None \<Rightarrow> True | Some pn \<Rightarrow> pn < ack_largest a)"
  define c3 where "c3 = ack_noted ev s a ranges c"
  note c3 = ack_noted [OF ok, of ev s a ranges, folded c3_def]
  have inv: "sp_inv (cn_spaces c s)" using ok by (simp add: recovery_ok_def accounted_def)
  have bm: "bm_ok ?sent" and lt: "\<forall>x \<in> set ?sent. fst x < u64_max"
    using inv pn by (auto simp: sp_inv_def flight_inv_def dest!: bspec)
  have sent3: "sp_sent_packets (cn_spaces c3 s) = ?sent" using c3(2) by (auto simp: flight_view_def fun_eq_iff)
  have elts: "ars_elts acked = map fst (filter (in_ranges ranges) ?sent)" by (rule newly_acked_elts [OF skip bm lt])
  have infos: "List.map_filter (map_of ?sent) (map fst (filter (in_ranges ranges) ?sent)) = map snd (filter (in_ranges ranges) ?sent)"
    by (rule map_filter_lookup) (use bm in \<open>auto simp: bm_lookup_iff\<close>)
  have sub: "set (ars_elts acked) \<subseteq> fst ` set ?sent" by (auto simp: elts)
  have dist: "distinct (ars_elts acked)" using bm by (auto simp: elts bm_ok_def strict_sorted_iff intro: distinct_map_filter)
  have known: "\<forall>n \<in> set (ars_elts acked). map_of (sp_sent_packets (cn_spaces c3 s)) n \<noteq> None"
    using sub by (auto simp: sent3 map_of_eq_None_iff)
  have acc3: "accounted e c3" using c3(1) by (simp add: recovery_ok_def)
  have st3: "ofold ack_streams (List.map_filter (map_of (sp_sent_packets (cn_spaces c3 s))) (ars_elts acked)) (cn_streams c3) = Some st"
    using st by (simp add: sent3 c3(3) elts infos)
  obtain el c4 where c4: "ofold (ack_packet ev now s) (ars_elts acked) (False, c3) = Some (el, c4)" "accounted e c4" "acked_between s (ars_elts acked) c3 c4"
    using ack_packets [OF acc3 dist known st3, of ev now False] by blast
  have rec4: "recovery_ok e c4" using acked_recovery_ok [OF c3(1) c4(2,3)] sub sent3 by simp
  have sent4: "set (sp_sent_packets (cn_spaces c4 s)) = {x \<in> set ?sent. \<not> in_ranges ranges x}"
    using c4(3) by (auto simp: acked_between_def sent3 elts in_ranges_def)
  define c5 where "c5 = with_path (\<lambda>p. p\<lparr>pd_congestion := ctl_on_end_acks (ev_controller ev) now (if_bytes (pd_in_flight p))
              (cn_app_limited c4) (sp_largest_acked_packet (cn_spaces c4 s)) (pd_congestion p)\<rparr>) c4"
  define c6 where "c6 = (if new \<and> el then sample_rtt now s (ack_delay a) c5 else c5)"
  have "recovery_view c5 = recovery_view c4" by (simp add: c5_def recovery_view_def flight_view_def)
  then have v6: "recovery_view c6 = recovery_view c4" by (simp add: c6_def sample_rtt_view)
  have c6: "recovery_ok e c6" "sp_sent_packets (cn_spaces c6 s) = sp_sent_packets (cn_spaces c4 s)"
    "sp_largest_acked_packet (cn_spaces c6 s) = Some (largest_after a (cn_spaces c s))"
    "in_flight_mtu_probe (pd_mtud (cn_path c6)) = in_flight_mtu_probe (pd_mtud (cn_path c4))"
    using rec4 recovery_view_ok [OF v6] v6 c4(3) c3(6) by (auto simp: recovery_view_def flight_view_def fun_eq_iff acked_between_def)
  have "in_flight_mtu_probe (pd_mtud (cn_path c4)) \<in> {in_flight_mtu_probe (pd_mtud (cn_path c)), None}"
    using c4(3) by (simp add: acked_between_def c3(5))
  moreover have "map_of (sp_sent_packets (cn_spaces c4 s)) n = None" if "map_of ?sent n = None" for n
    using that sent4 by (auto simp: map_of_eq_None_iff)
  ultimately have "s = SData \<or> (\<forall>n. in_flight_mtu_probe (pd_mtud (cn_path c6)) = Some n \<longrightarrow> map_of (sp_sent_packets (cn_spaces c6 s)) n = None)"
    using probe unfolding c6(2,4) by auto
  then obtain c7 where c7: "detect_lost_packets ev now s True c6 = Some c7" "recovery_ok e c7"
    "set (sp_sent_packets (cn_spaces c7 s)) \<subseteq> set (sp_sent_packets (cn_spaces c6 s))"
    "\<forall>x \<in> set (sp_sent_packets (cn_spaces c6 s)). largest_after a (cn_spaces c s) \<le> fst x \<longrightarrow> x \<in> set (sp_sent_packets (cn_spaces c7 s))"
    using detect_lost_between [OF c6(1,3)] by metis
  define c' where "c' = (if acked = [] then c3 else ack_finished ev now s a new (length acked) c7)"
  have run: "on_ack_received ev now s a c = Some (Inr (), c')"
    unfolding on_ack_received_eq [OF largest ranges, of ev now] Let_def new_def [symmetric] c3_def [symmetric]
    using c7(1) by (cases "new \<and> el") (auto simp: sent3 c3(4) skip c4(1) c5_def [symmetric] c6_def c'_def)
  have fin: "sp_sent_packets (cn_spaces (ack_finished ev now s a new k c7) s) = sp_sent_packets (cn_spaces c7 s)" for k
    using ack_finished_view(1) [of ev now s a new k c7] by (auto simp: recovery_view_def flight_view_def fun_eq_iff)
  have rec: "recovery_ok e c'"
    using c3(1) c7(2) recovery_view_ok [OF ack_finished_view(1) [of ev now s a new "length acked" c7], of e] by (simp add: c'_def)
  have none: "\<not> in_ranges ranges x" if "acked = []" "x \<in> set ?sent" for x
    using that elts by (auto simp: ars_elts_def filter_empty_conv)
  show ?thesis using run rec c7(3,4) sent4 none by (auto simp: c'_def fin sent3 c6(2))
qed

section \<open>Arming the timer\<close>

text \<open>The deadline a probe timeout gives the packets of a space.\<close>

definition pto_deadline :: "('s, 'c) connection \<Rightarrow> space_id \<Rightarrow> nat option" where
  "pto_deadline c s =
     (if has_in_flight (cn_spaces c s) \<and> \<not> (s = SData \<and> is_handshake (cn_state c))
      then map_option (\<lambda>t. t + pto s c * 2 ^ min (cn_pto_count c) MAX_BACKOFF_EXPONENT) (sp_time_of_last_ack_eliciting_packet (cn_spaces c s))
      else None)"

definition due_by :: "(nat \<times> space_id) option \<Rightarrow> nat \<Rightarrow> bool" where
  "due_by r t \<longleftrightarrow> (case r of None \<Rightarrow> False | Some x \<Rightarrow> fst x \<le> t)"

lemma due_by_Some [simp]: "due_by (Some (u, s)) t \<longleftrightarrow> u \<le> t"
  by (simp add: due_by_def)

lemma pto_loop_earlier:
  "t0 \<le> t \<Longrightarrow> due_by (pto_loop c b d (Some (t0, s0)) spaces) t"
proof (induction spaces arbitrary: d t0 s0)
  case (Cons s spaces)
  have IH: "due_by (pto_loop c b d (Some (u, r)) spaces) t" if "u \<le> t" for d u r
    using that Cons.IH by blast
  have lt: "u < t0 \<Longrightarrow> u \<le> t" for u using Cons.prems by simp
  show ?case using Cons.prems by (auto simp: Let_def IH lt not_less split: option.splits)
qed simp

lemma pto_loop_deadline:
  assumes "has_in_flight (cn_spaces c s)" "sp_time_of_last_ack_eliciting_packet (cn_spaces c s) = Some l" "s = SData \<longrightarrow> \<not> is_handshake (cn_state c)"
  shows "due_by (pto_loop c b d result (s # spaces)) (l + (d + (if s = SData then max_ack_delay_for_pto (cn_ack_frequency c) * b else 0)))"
  using assms by (cases result) (auto simp: Let_def not_less intro: pto_loop_earlier)

lemma pto_time_deadline:
  assumes some: "if_ack_eliciting (pd_in_flight (cn_path c)) \<noteq> 0" and d: "pto_deadline c s = Some d"
  shows "due_by (pto_time_and_space now c) d"
proof -
  define b where "b = (2::nat) ^ min (cn_pto_count c) MAX_BACKOFF_EXPONENT"
  define r where "r = pto_base (pd_rtt (cn_path c)) * b"
  obtain l where l: "has_in_flight (cn_spaces c s)" "s = SData \<longrightarrow> \<not> is_handshake (cn_state c)"
    "sp_time_of_last_ack_eliciting_packet (cn_spaces c s) = Some l" "d = l + pto s c * b"
    using d by (auto simp: pto_deadline_def b_def split: if_splits)
  have "d = l + (r + (if s = SData then max_ack_delay_for_pto (cn_ack_frequency c) * b else 0))"
    by (simp add: l(4) pto_def r_def algebra_simps)
  then have step: "due_by (pto_loop c b r result (s # spaces)) d" for result spaces
    using pto_loop_deadline [OF l(1,3,2)] by metis
  have skip: "\<exists>result'. pto_loop c b r result (q # spaces) = pto_loop c b r result' spaces" if "q \<noteq> SData" for q result spaces
    using that by (auto simp: Let_def split: option.splits)
  have "due_by (pto_loop c b r None all_spaces) d"
  proof (cases s)
    case SInitial
    then show ?thesis using step by (simp only: all_spaces_def)
  next
    case SHandshake
    obtain result where "pto_loop c b r None all_spaces = pto_loop c b r result [SHandshake, SData]"
      unfolding all_spaces_def using skip [of SInitial None "[SHandshake, SData]"] by auto
    then show ?thesis using step [of result "[SData]"] SHandshake by simp
  next
    case SData
    obtain result where r1: "pto_loop c b r None all_spaces = pto_loop c b r result [SHandshake, SData]"
      unfolding all_spaces_def using skip [of SInitial None "[SHandshake, SData]"] by auto
    obtain result' where "pto_loop c b r result [SHandshake, SData] = pto_loop c b r result' [SData]"
      using skip [of SHandshake result "[SData]"] by auto
    then show ?thesis using step [of result' "[]"] SData r1 by simp
  qed
  then show ?thesis using some by (simp add: pto_time_and_space_def b_def [symmetric] r_def [symmetric] Let_def)
qed

lemma min_by_time_le: "x \<in> set xs \<Longrightarrow> due_by (min_by_time xs) (fst x)"
  by (induction xs) (auto simp: due_by_def split: option.splits)

abbreviation loss_times :: "('s, 'c) connection \<Rightarrow> (nat \<times> space_id) list" where
  "loss_times c \<equiv> List.map_filter (\<lambda>space. map_option (\<lambda>t. (t, space)) (sp_loss_time (cn_spaces c space))) all_spaces"

lemma loss_times_set: "(l, r) \<in> set (loss_times c) \<longleftrightarrow> sp_loss_time (cn_spaces c r) = Some l"
proof -
  have "r \<in> set all_spaces" by (cases r) (simp_all add: all_spaces_def)
  then show ?thesis by (auto simp: List.map_filter_def image_iff simp del: list.set)
qed

lemma min_by_time_in: "min_by_time xs = Some y \<Longrightarrow> y \<in> set xs"
  by (induction xs arbitrary: y) (auto split: option.splits if_splits)

lemma timer_armed:
  assumes op: "\<not> is_closed (cn_state c)" and free: "\<not> anti_amplification_blocked 1 (cn_path c)"
    and some: "if_ack_eliciting (pd_in_flight (cn_path c)) \<noteq> 0" and d: "pto_deadline c s = Some d"
  shows "\<exists>t. timer_get LossDetection (cn_timers (set_loss_detection_timer now c)) = Some t \<and>
    (\<forall>r l. sp_loss_time (cn_spaces c r) = Some l \<longrightarrow> t \<le> l) \<and> ((\<forall>r. sp_loss_time (cn_spaces c r) = None) \<longrightarrow> t \<le> d)"
proof (cases "loss_time_and_space c")
  case None
  have "sp_loss_time (cn_spaces c r) = None" for r
  proof (rule ccontr)
    assume "sp_loss_time (cn_spaces c r) \<noteq> None"
    then obtain l where "(l, r) \<in> set (loss_times c)" by (auto simp: loss_times_set)
    from min_by_time_le [OF this] None show False by (simp add: loss_time_and_space_def due_by_def)
  qed
  moreover obtain t s' where "pto_time_and_space now c = Some (t, s')" "t \<le> d" using pto_time_deadline [OF some d, of now] by (auto simp: due_by_def split: option.splits)
  ultimately show ?thesis
    using None op free some by (simp add: set_loss_detection_timer_def set_timer_def timer_get_def timer_set_def)
next
  case (Some ts)
  obtain t s' where t: "ts = (t, s')" by (cases ts)
  have "t \<le> l" if "sp_loss_time (cn_spaces c r) = Some l" for r l
  proof -
    have "(l, r) \<in> set (loss_times c)" using that by (simp add: loss_times_set)
    from min_by_time_le [OF this] Some t show ?thesis by (simp add: loss_time_and_space_def)
  qed
  moreover have "sp_loss_time (cn_spaces c s') = Some t"
    using Some t min_by_time_in [of "loss_times c"] by (simp add: loss_time_and_space_def loss_times_set)
  ultimately show ?thesis
    using Some t op by (auto simp: set_loss_detection_timer_def set_timer_def timer_get_def timer_set_def)
qed

section \<open>Recovery as a whole\<close>

text \<open>Three packets of a server are outstanding.\<close>

definition example_flight :: "nat option \<Rightarrow> (unit, new_reno) connection" where
  "example_flight acked = with_path (\<lambda>p. p\<lparr>pd_in_flight := \<lparr>if_bytes = 3600, if_ack_eliciting = 3\<rparr>\<rparr>)
     (with_space SData (\<lambda>sp. sp\<lparr>sp_sent_packets := [(0, example_packet True), (2, example_packet True), (4, example_packet True)],
        sp_next_packet_number := 6, sp_largest_ack_eliciting_sent := 4, sp_largest_acked_packet := acked,
        sp_time_of_last_ack_eliciting_packet := Some 7\<rparr>) (example_server\<lparr>cn_state := StEstablished\<rparr>))"

lemma example_flight_ok: "recovery_ok (0, 0) (example_flight acked)"
proof -
  have sp: "sp_inv (space_new 0 :: keys packet_space)" by (simp add: sp_inv_def flight_inv_def space_new_def tail_of_def)
  have "\<forall>s. sp_inv (cn_spaces (example_flight acked) s)"
  proof
    fix s show "sp_inv (cn_spaces (example_flight acked) s)"
    proof (cases s)
      case SInitial
      then show ?thesis using sp by (simp add: example_flight_def sp_inv_def)
    next
      case SHandshake
      then show ?thesis using sp by (simp add: example_flight_def)
    next
      case SData
      then show ?thesis by (simp add: example_flight_def sp_inv_def flight_inv_def space_new_def tail_of_def example_packet_def)
    qed
  qed
  moreover have "balanced (0, 0) (cn_spaces (example_flight acked)) (cn_path (example_flight acked))"
    by (simp add: example_flight_def balanced_def outstanding_def weight_def example_packet_def space_new_def)
  moreover have "cq_active (cn_rem_cids (example_flight acked)) = Some [3]" 
    by (simp add: example_flight_def cq_new_def cq_active_def CID_QUEUE_LEN_def)
  moreover have "sp_loss_time (cn_spaces (example_flight acked) s) = None" for s
    by (cases s) (simp_all add: example_flight_def space_new_def)
  ultimately show ?thesis
    by (simp add: recovery_ok_def accounted_def prev_ok_def probe_ok_def example_flight_def)
qed





text \<open>
  C5: As long as something is outstanding the timer runs. While a connection is open, the path's address does not limit what
  it may send and an ack-eliciting packet is in flight, setting the loss detection timer arms it: no later than any
  loss time that is pending, and with none pending no later than the probe timeout of any space with packets in flight,
  except for application data during the handshake.
\<close>

theorem loss_timer_runs:
  assumes "\<not> is_closed (cn_state c)" "\<not> anti_amplification_blocked 1 (cn_path c)"
    "if_ack_eliciting (pd_in_flight (cn_path c)) \<noteq> 0" "pto_deadline c s = Some d"
  shows "\<exists>t. timer_get LossDetection (cn_timers (set_loss_detection_timer now c)) = Some t \<and>
    (\<forall>r l. sp_loss_time (cn_spaces c r) = Some l \<longrightarrow> t \<le> l) \<and> ((\<forall>r. sp_loss_time (cn_spaces c r) = None) \<longrightarrow> t \<le> d)"
  by (rule timer_armed [OF assms])

theorem loss_timer_runs_witness:
  "\<exists>t. timer_get LossDetection (cn_timers (set_loss_detection_timer 9 (example_flight None))) = Some t \<and> t \<le> 7 + pto SData (example_flight None)"
proof -
  let ?c = "example_flight None"
  have c: "\<not> is_closed (cn_state ?c)" "\<not> anti_amplification_blocked 1 (cn_path ?c)" "if_ack_eliciting (pd_in_flight (cn_path ?c)) \<noteq> 0"
    by (simp_all add: example_flight_def anti_amplification_blocked_def)
  have l: "sp_loss_time (cn_spaces ?c r) = None" for r
    by (cases r) (simp_all add: example_flight_def space_new_def)
  have flight: "sp_sent_packets (cn_spaces ?c SData) = [(0, example_packet True), (2, example_packet True), (4, example_packet True)]"
    "sp_time_of_last_ack_eliciting_packet (cn_spaces ?c SData) = Some 7" "cn_state ?c = StEstablished" "cn_pto_count ?c = 0"
    by (simp_all add: example_flight_def with_path_def with_space_def)
  have "pto_deadline ?c SData = Some (7 + pto SData ?c)"
    by (simp add: pto_deadline_def flight has_in_flight_def example_packet_def)
  then show ?thesis using loss_timer_runs [OF c, of SData "7 + pto SData ?c" 9] l by auto
qed

end
