(* ===== verification/Lifecycle.thy ===== *)
theory Lifecycle
  imports Key_Update Recovery_Inv
begin

text \<open>
  \<open>quic-proto/src/connection/mod.rs\<close>: closing a connection, the timers that drive it and what an authentic packet changes
  besides its payload. The properties are about the life of a connection: it is drained exactly once, and always when its
  closing period is over.
\<close>

section \<open>Closing\<close>

definition close_common :: "('s, 'c) connection \<Rightarrow> ('s, 'c) connection" where
  "close_common c = c\<lparr>cn_timers := foldl (\<lambda>tt t. timer_stop t tt) (cn_timers c) timer_values\<rparr>"

definition set_close_timer :: "nat \<Rightarrow> ('s, 'c) connection \<Rightarrow> ('s, 'c) connection" where
  "set_close_timer now c = set_timer CloseTimer (now + 3 * pto (cn_highest_space c) c) c"

definition close_inner :: "nat \<Rightarrow> close \<Rightarrow> ('s, 'c) connection \<Rightarrow> ('s, 'c) connection" where
  "close_inner now reason c =
     (if is_closed (cn_state c) then c
      else (set_close_timer now (close_common c))\<lparr>cn_close := True, cn_state := StClosed reason\<rparr>)"

definition conn_close :: "nat \<Rightarrow> nat \<Rightarrow> bytes \<Rightarrow> ('s, 'c) connection \<Rightarrow> ('s, 'c) connection" where
  "conn_close now error_code reason c = close_inner now (Application \<lparr>ac_error_code = error_code, ac_reason = reason\<rparr>) c"

definition kill :: "connection_error \<Rightarrow> ('s, 'c) connection \<Rightarrow> ('s, 'c) connection" where
  "kill reason c = push_endpoint_event EvDrained ((close_common c)\<lparr>cn_error := Some reason, cn_state := StDrained\<rparr>)"

section \<open>Keeping the connection alive\<close>

definition ping :: "('s, 'c) connection \<Rightarrow> ('s, 'c) connection" where
  "ping c = with_space (cn_highest_space c) (\<lambda>sp. sp\<lparr>sp_ping_pending := True\<rparr>) c"

definition immediate_ack :: "('s, 'c) connection \<Rightarrow> ('s, 'c) connection" where
  "immediate_ack c = with_space (cn_highest_space c) (\<lambda>sp. sp\<lparr>sp_immediate_ack_pending := True\<rparr>) c"

definition reset_idle_timeout :: "nat \<Rightarrow> space_id \<Rightarrow> ('s, 'c) connection \<Rightarrow> ('s, 'c) connection" where
  "reset_idle_timeout now space c =
     (case cn_idle_timeout c of
        None \<Rightarrow> c
      | Some timeout \<Rightarrow>
          if is_closed (cn_state c) then stop_timer Idle c
          else set_timer Idle (now + max timeout (3 * pto space c)) c)"

definition reset_keep_alive :: "nat \<Rightarrow> ('s, 'c) connection \<Rightarrow> ('s, 'c) connection" where
  "reset_keep_alive now c =
     (case tc_keep_alive_interval (cn_config c) of
        Some interval \<Rightarrow> if is_established (cn_state c) then set_timer KeepAlive (now + interval) c else c
      | None \<Rightarrow> c)"

definition reset_cid_retirement :: "('s, 'c) connection \<Rightarrow> ('s, 'c) connection" where
  "reset_cid_retirement c = (case next_timeout (cn_local_cid_state c) of Some t \<Rightarrow> set_timer PushNewCid t c | None \<Rightarrow> c)"

section \<open>Connection ids\<close>

text \<open>\<open>handle_event\<close> for the ids the endpoint has made.\<close>

definition handle_new_identifiers ::
    "('s, 'c) env \<Rightarrow> issued_cid list \<Rightarrow> nat \<Rightarrow> ('s, 'c) connection \<Rightarrow> ('s, 'c) connection" where
  "handle_new_identifiers ev ids now c =
     (let c1 = c\<lparr>cn_local_cid_state := new_cids (ev_checked_add ev) (map ic_sequence ids) now (cn_local_cid_state c)\<rparr>;
          c2 = with_space SData (\<lambda>sp. sp\<lparr>sp_pending := (sp_pending sp)\<lparr>rt_new_cids := rt_new_cids (sp_pending sp) @ rev ids\<rparr>\<rparr>) c1 in
      if (case timer_get PushNewCid (cn_timers c2) of None \<Rightarrow> True | Some x \<Rightarrow> x \<le> now) then reset_cid_retirement c2 else c2)"

definition set_reset_token :: "bytes \<Rightarrow> ('s, 'c) connection \<Rightarrow> ('s, 'c) connection" where
  "set_reset_token reset_token c =
     (push_endpoint_event (EvResetToken (pd_remote (cn_path c)) reset_token) c)
       \<lparr>cn_peer_params := (cn_peer_params c)\<lparr>tp_stateless_reset_token := Some reset_token\<rparr>\<rparr>"

definition update_rem_cid :: "('s, 'c) connection \<Rightarrow> ('s, 'c) connection option" where
  "update_rem_cid c = do {
     (r, q) \<leftarrow> cq_next (cn_rem_cids c);
     (case r of
        None \<Rightarrow> Some c
      | Some (reset_token, (a, b)) \<Rightarrow>
          Some (set_reset_token reset_token
            (with_space SData (\<lambda>sp. sp\<lparr>sp_pending := (sp_pending sp)\<lparr>rt_retire_cids := rt_retire_cids (sp_pending sp) @ [a..<b]\<rparr>\<rparr>)
              (c\<lparr>cn_rem_cids := q\<rparr>)))) }"

definition local_address_changed :: "('s, 'c) connection \<Rightarrow> ('s, 'c) connection option" where
  "local_address_changed c = map_option ping (update_rem_cid c)"

section \<open>Migration\<close>

definition migrate :: "('s, 'c) env \<Rightarrow> nat \<Rightarrow> socket_addr \<Rightarrow> ('s, 'c) connection \<Rightarrow> ('s, 'c) connection option" where
  "migrate ev now remote c =
     (let c1 = c\<lparr>cn_path_counter := wrapping_add (cn_path_counter c) 1\<rparr>;
          p = (if length (fst remote) = 4 \<and> fst remote = fst (pd_remote (cn_path c1))
               then path_from_previous (ev_float ev) (ev_controller ev) remote (cn_path c1) (cn_path_counter c1) now
               else path_new (ev_float ev) (ev_controller ev) remote (cn_allow_mtud c1)
                 (Some (min (tp_max_udp_payload_size (cn_peer_params c1)) 65535)) (cn_path_counter c1) now (cn_config c1));
          (challenge, c2) = draw ev 0 (2 ^ 64) c1;
          prev_pto = pto SData c2;
          prev = cn_path c2;
          c3 = c2\<lparr>cn_path := p\<lparr>pd_challenge := Some challenge, pd_challenge_pending := True\<rparr>\<rparr> in do {
        c4 \<leftarrow> (if pd_challenge prev = None
          then do {
            cid \<leftarrow> cq_active (cn_rem_cids c3);
            let (challenge', c3') = draw ev 0 (2 ^ 64) c3;
            Some (c3'\<lparr>cn_prev_path := Some (cid, prev\<lparr>pd_challenge := Some challenge', pd_challenge_pending := True\<rparr>)\<rparr>) }
          else Some c3);
        Some (set_timer PathValidation (now + 3 * max (pto SData c4) prev_pto) c4) })"

section \<open>Authentic packets\<close>

definition on_packet_authenticated ::
    "nat \<Rightarrow> space_id \<Rightarrow> ecn_codepoint option \<Rightarrow> nat option \<Rightarrow> bool \<Rightarrow> bool \<Rightarrow> ('s, 'c) connection \<Rightarrow> ('s, 'c) connection option" where
  "on_packet_authenticated now space ecn packet spin is_1rtt c =
     (let c1 = reset_idle_timeout now space (reset_keep_alive now (c\<lparr>cn_total_authed_packets := cn_total_authed_packets c + 1\<rparr>));
          c2 = c1\<lparr>cn_permit_idle_reset := True, cn_receiving_ecn := cn_receiving_ecn c1 \<or> ecn \<noteq> None\<rparr>;
          c3 = (case ecn of
                  None \<Rightarrow> c2
                | Some x \<Rightarrow> with_space space (\<lambda>sp. sp\<lparr>sp_ecn_counters := ecn_counts_add (sp_ecn_counters sp) x,
                    sp_pending_acks := (if x = Ce then set_immediate_ack_required (sp_pending_acks sp) else sp_pending_acks sp)\<rparr>) c2) in
      case packet of
        None \<Rightarrow> Some c3
      | Some n \<Rightarrow> do {
          let server = (cs_side (cn_side c3) = Server);
          let c4 = (if server \<and> sp_crypto (cn_spaces c3 SInitial) \<noteq> None \<and> space = SHandshake
                    then discard_space now SInitial c3 else c3);
          c5 \<leftarrow> (if server \<and> cn_zero_rtt_crypto c4 \<noteq> None \<and> is_1rtt then set_key_discard_timer now space c4 else Some c4);
          let c6 = with_space space (\<lambda>sp. sp\<lparr>sp_pending_acks := pa_insert_one n now (sp_pending_acks sp)\<rparr>) c5;
          Some (if sp_rx_packet (cn_spaces c6 space) \<le> n
                then (with_space space (\<lambda>sp. sp\<lparr>sp_rx_packet := n\<rparr>) c6)\<lparr>cn_spin := (cs_side (cn_side c6) = Client) \<noteq> spin\<rparr>
                else c6) })"

section \<open>Timeouts\<close>

definition on_timeout :: "('s, 'c) env \<Rightarrow> nat \<Rightarrow> timer \<Rightarrow> ('s, 'c) connection \<Rightarrow> ('s, 'c) connection option" where
  "on_timeout ev now timer c =
     (case timer of
        CloseTimer \<Rightarrow> Some (push_endpoint_event EvDrained (c\<lparr>cn_state := StDrained\<rparr>))
      | Idle \<Rightarrow> Some (kill TimedOut c)
      | KeepAlive \<Rightarrow> Some (ping c)
      | LossDetection \<Rightarrow> on_loss_detection_timeout ev now c
      | KeyDiscard \<Rightarrow> Some (c\<lparr>cn_zero_rtt_crypto := None, cn_prev_crypto := None\<rparr>)
      | PathValidation \<Rightarrow>
          let c1 = (case cn_prev_path c of Some (_, prev) \<Rightarrow> c\<lparr>cn_prev_path := None, cn_path := prev\<rparr> | None \<Rightarrow> c) in
          Some (with_path (\<lambda>p. p\<lparr>pd_challenge := None, pd_challenge_pending := False\<rparr>) c1)
      | Pacing \<Rightarrow> Some c
      | PushNewCid \<Rightarrow>
          let (more, s) = on_cid_timeout (cn_local_cid_state c); c1 = c\<lparr>cn_local_cid_state := s\<rparr> in
          Some (if is_closed (cn_state c1) then c1 else push_endpoint_event (EvNeedIdentifiers now (if more then 1 else 0)) c1)
      | MaxAckDelay \<Rightarrow>
          Some (with_space SData (\<lambda>sp. sp\<lparr>sp_pending_acks := on_max_ack_delay_timeout (sp_pending_acks sp)\<rparr>) c))"

definition expire :: "('s, 'c) env \<Rightarrow> nat \<Rightarrow> timer \<Rightarrow> ('s, 'c) connection \<Rightarrow> ('s, 'c) connection option" where
  "expire ev now timer c =
     (if timer_is_expired timer now (cn_timers c) then on_timeout ev now timer (stop_timer timer c) else Some c)"

definition handle_timeout :: "('s, 'c) env \<Rightarrow> nat \<Rightarrow> ('s, 'c) connection \<Rightarrow> ('s, 'c) connection option" where
  "handle_timeout ev now c = ofold (expire ev now) timer_values c"

section \<open>The end of packet processing\<close>

text \<open>The state an error of packet processing leads to; \<open>None\<close> is unreachable code.\<close>

definition error_state :: "connection_error \<Rightarrow> conn_state option" where
  "error_state e =
     (case e of
        ApplicationClosed reason \<Rightarrow> Some (StClosed (Application reason))
      | ConnectionClosed reason \<Rightarrow> Some (StClosed (Connection reason))
      | ResetByPeer \<Rightarrow> Some StDrained
      | TransportErr err \<Rightarrow>
          if te_code err = AEAD_LIMIT_REACHED then Some StDrained
          else Some (StClosed (Connection \<lparr>cc_error_code = te_code err, cc_frame_type = te_frame err, cc_reason = map of_char (te_reason err)\<rparr>))
      | VersionMismatch \<Rightarrow> Some StDraining
      | TimedOut \<Rightarrow> None
      | LocallyClosed \<Rightarrow> None
      | CidsExhausted \<Rightarrow> None)"

text \<open>What \<open>handle_packet\<close> does with the result of a packet, given the state before it.\<close>

definition packet_finished ::
    "nat \<Rightarrow> socket_addr \<Rightarrow> conn_state \<Rightarrow> connection_error + unit \<Rightarrow> ('s, 'c) connection \<Rightarrow> ('s, 'c) connection option" where
  "packet_finished now remote was result c = do {
     c1 \<leftarrow> (case result of
        Inr _ \<Rightarrow> Some c
      | Inl e \<Rightarrow> do { s \<leftarrow> error_state e; Some (c\<lparr>cn_error := Some e, cn_state := s\<rparr>) });
     let c2 = (if \<not> is_closed was \<and> is_closed (cn_state c1)
               then let c' = close_common c1 in if is_drained (cn_state c') then c' else set_close_timer now c'
               else c1);
     let c3 = (if \<not> is_drained was \<and> is_drained (cn_state c2)
               then stop_timer CloseTimer (push_endpoint_event EvDrained c2) else c2);
     Some (case cn_state c3 of StClosed _ \<Rightarrow> c3\<lparr>cn_close := (remote = pd_remote (cn_path c3))\<rparr> | _ \<Rightarrow> c3) }"

section \<open>What loss detection leaves alone\<close>

definition life_view :: "('s, 'c) connection \<Rightarrow> conn_state \<times> endpoint_event list \<times> timer_table" where
  "life_view c = (cn_state c, cn_endpoint_events c, (cn_timers c)(LossDetection := None))"

lemma life_view_simps [simp]:
  "life_view (with_space s f c) = life_view c" "life_view (with_path g c) = life_view c" "life_view (push_event e c) = life_view c"
  "life_view (c\<lparr>cn_streams := x\<rparr>) = life_view c" "life_view (c\<lparr>cn_datagrams := d\<rparr>) = life_view c"
  "life_view (c\<lparr>cn_path := p\<rparr>) = life_view c" "life_view (c\<lparr>cn_prev_path := q\<rparr>) = life_view c"
  "life_view (c\<lparr>cn_pto_count := n\<rparr>) = life_view c" "life_view (c\<lparr>cn_side := d'\<rparr>) = life_view c"
  by (simp_all add: life_view_def with_space_def with_path_def push_event_def)

lemma remove_in_flight_life [simp]: "life_view (remove_in_flight p c) = life_view c"
  by (auto simp: remove_in_flight_def Let_def split: prod.splits option.splits)

lemma set_loss_timer_life [simp]: "life_view (set_loss_detection_timer now c) = life_view c"
  by (auto simp: set_loss_detection_timer_def set_timer_def stop_timer_def timer_set_def timer_stop_def life_view_def split: option.splits)

lemma lose_packet_life: "lose_packet s n c = Some c' \<Longrightarrow> life_view c' = life_view c"
  by (auto simp: lose_packet_def bind_eq_Some_conv Let_def)

lemma lose_packets_life: "ofold (lose_packet s) ns c = Some c' \<Longrightarrow> life_view c' = life_view c"
  by (induction ns arbitrary: c) (auto simp: bind_eq_Some_conv dest!: lose_packet_life)

lemma check_black_hole_life: "check_black_hole ev now c = Some c' \<Longrightarrow> life_view c' = life_view c"
  unfolding check_black_hole_def Let_def split_def
  by (auto simp: bind_eq_Some_conv split: if_splits option.splits)

lemma on_packets_lost_life: "on_packets_lost ev now s r c = Some c' \<Longrightarrow> life_view c' = life_view c"
  by (auto simp: on_packets_lost_def bind_eq_Some_conv Let_def dest!: lose_packets_life check_black_hole_life
      split: if_splits option.splits)

lemma on_mtu_probe_lost_life: "on_mtu_probe_lost r c = Some c' \<Longrightarrow> life_view c' = life_view c"
  by (auto simp: on_mtu_probe_lost_def bind_eq_Some_conv Let_def split: option.splits)

lemma detect_lost_life: "detect_lost_packets ev now s d c = Some c' \<Longrightarrow> life_view c' = life_view c"
  by (auto simp: detect_lost_packets_def bind_eq_Some_conv Let_def drain_lost_packets_def dest!: on_packets_lost_life on_mtu_probe_lost_life)

lemma loss_timeout_life: "on_loss_detection_timeout ev now c = Some c' \<Longrightarrow> life_view c' = life_view c"
  by (auto simp: on_loss_detection_timeout_def Let_def dest!: detect_lost_life split: option.splits prod.splits)

section \<open>The life of a connection\<close>

text \<open>
  The processing of a packet's frames: the connection may be established or start draining, the timers that end its life are
  left to \<open>packet_finished\<close>, and the endpoint hears nothing about it being drained.
\<close>

definition processed :: "('s, 'c) connection \<Rightarrow> ('s, 'c) connection \<Rightarrow> bool" where
  "processed c c' \<longleftrightarrow>
     (\<exists>es. cn_endpoint_events c' = cn_endpoint_events c @ es \<and> EvDrained \<notin> set es) \<and>
     (\<forall>t \<in> {CloseTimer, Idle, LossDetection}. is_closed (cn_state c) \<or> t = CloseTimer \<longrightarrow> cn_timers c' t = cn_timers c t) \<and>
     (cn_state c' = cn_state c \<or> cn_state c' = StDraining \<and> \<not> is_drained (cn_state c) \<or> \<not> is_closed (cn_state c) \<and> \<not> is_closed (cn_state c'))"

text \<open>The runs of a connection, with the number of times the endpoint was told that it is drained.\<close>

inductive lifetime :: "('s, 'c) env \<Rightarrow> ('s, 'c) connection \<Rightarrow> nat \<Rightarrow> bool" for ev where
  opened: "\<not> is_closed (cn_state c) \<Longrightarrow> cn_endpoint_events c = [] \<Longrightarrow> timer_get CloseTimer (cn_timers c) = None \<Longrightarrow> lifetime ev c 0"
| closes: "lifetime ev c k \<Longrightarrow> lifetime ev (conn_close now code reason c) k"
| times_out: "lifetime ev c k \<Longrightarrow> handle_timeout ev now c = Some c' \<Longrightarrow> lifetime ev c' k"
| new_identifiers: "lifetime ev c k \<Longrightarrow> lifetime ev (handle_new_identifiers ev ids now c) k"
| authenticated: "lifetime ev c k \<Longrightarrow> \<not> is_closed (cn_state c) \<Longrightarrow> on_packet_authenticated now s ecn n spin b c = Some c' \<Longrightarrow> lifetime ev c' k"
| packet: "lifetime ev c k \<Longrightarrow> processed c c1 \<Longrightarrow> is_drained (cn_state c) \<longrightarrow> r = Inr () \<Longrightarrow>
    packet_finished now remote (cn_state c) r c1 = Some c' \<Longrightarrow> lifetime ev c' k"
| decrypts: "lifetime ev c k \<Longrightarrow> decrypt_packet ev now p c = Some (r', p', c') \<Longrightarrow> lifetime ev c' k"
| key_update: "lifetime ev c k \<Longrightarrow> force_key_update ev c = Some c' \<Longrightarrow> lifetime ev c' k"
| migrates: "lifetime ev c k \<Longrightarrow> migrate ev now remote c = Some c' \<Longrightarrow> lifetime ev c' k"
| address: "lifetime ev c k \<Longrightarrow> local_address_changed c = Some c' \<Longrightarrow> lifetime ev c' k"
| polled: "lifetime ev c k \<Longrightarrow> cn_endpoint_events c = e # es \<Longrightarrow> lifetime ev (c\<lparr>cn_endpoint_events := es\<rparr>) (k + of_bool (e = EvDrained))"

definition life_ok :: "nat \<Rightarrow> ('s, 'c) connection \<Rightarrow> bool" where
  "life_ok k c \<longleftrightarrow> k + count_list (cn_endpoint_events c) EvDrained = of_bool (is_drained (cn_state c)) \<and>
     (cn_timers c CloseTimer \<noteq> None \<longleftrightarrow> is_closed (cn_state c) \<and> \<not> is_drained (cn_state c)) \<and>
     (is_closed (cn_state c) \<longrightarrow> cn_timers c Idle = None \<and> cn_timers c LossDetection = None)"

lemma drained_closed [simp]: "is_drained s \<Longrightarrow> is_closed s"
  by (cases s) (simp_all add: is_drained_def)

lemma stop_timers: "foldl (\<lambda>tt t. timer_stop t tt) tt ts t = (if t \<in> set ts then None else tt t)"
  by (induction ts arbitrary: tt) (auto simp: timer_stop_def)

lemma all_timers: "t \<in> set timer_values"
  by (cases t) (simp_all add: timer_values_def)

lemma close_common_timers [simp]: "cn_timers (close_common c) = (\<lambda>_. None)"
  by (auto simp: close_common_def stop_timers all_timers)

lemma close_common_simps [simp]: "cn_state (close_common c) = cn_state c" "cn_endpoint_events (close_common c) = cn_endpoint_events c"
  by (simp_all add: close_common_def)

lemma close_inner_life: "life_ok k c \<Longrightarrow> life_ok k (close_inner now reason c)"
  by (auto simp: close_inner_def life_ok_def set_close_timer_def set_timer_def timer_set_def is_drained_def)

lemma life_ok_cong:
  assumes "life_ok k c" "cn_state c' = cn_state c" "cn_endpoint_events c' = cn_endpoint_events c @ es" "EvDrained \<notin> set es"
    "\<And>t. t \<in> {CloseTimer, Idle, LossDetection} \<Longrightarrow> is_closed (cn_state c) \<or> t = CloseTimer \<Longrightarrow> cn_timers c' t = cn_timers c t"
  shows "life_ok k c'"
  using assms by (auto simp: life_ok_def count_list_0_iff)

lemma life_ok_view: "life_ok k c \<Longrightarrow> life_view c' = life_view c \<Longrightarrow> \<not> is_closed (cn_state c) \<Longrightarrow> life_ok k c'"
  by (auto simp: life_ok_def life_view_def fun_eq_iff) (metis timer.distinct)+

lemma timer_fields [simp]:
  "cn_state (set_timer t x c) = cn_state c" "cn_endpoint_events (set_timer t x c) = cn_endpoint_events c"
  "cn_timers (set_timer t x c) = (cn_timers c)(t := Some x)"
  "cn_state (stop_timer t c) = cn_state c" "cn_endpoint_events (stop_timer t c) = cn_endpoint_events c"
  "cn_timers (stop_timer t c) = (cn_timers c)(t := None)"
  by (simp_all add: set_timer_def stop_timer_def timer_set_def timer_stop_def)

lemma with_fields [simp]:
  "cn_endpoint_events (with_space s f c) = cn_endpoint_events c" "cn_endpoint_events (with_path g c) = cn_endpoint_events c"
  "cn_endpoint_events (push_endpoint_event e c) = cn_endpoint_events c @ [e]" "cn_state (push_endpoint_event e c) = cn_state c"
  "cn_timers (push_endpoint_event e c) = cn_timers c"
  by (simp_all add: with_space_def with_path_def push_endpoint_event_def)

lemma timeout_life:
  assumes ok: "life_ok k c" and t: "cn_timers c t = Some x" and r: "on_timeout ev now t (stop_timer t c) = Some c'"
  shows "life_ok k c'"
proof (cases t)
  case LossDetection
  then have open_c: "\<not> is_closed (cn_state c)" using ok t by (auto simp: life_ok_def)
  have "life_view c' = life_view c"
    using r LossDetection by (auto simp: on_timeout_def dest!: loss_timeout_life) (simp add: life_view_def)
  then show ?thesis using life_ok_view [OF ok _ open_c] by blast
next
  case Idle
  then have "\<not> is_closed (cn_state c)" using ok t by (auto simp: life_ok_def)
  then show ?thesis using ok r Idle by (auto simp: on_timeout_def kill_def life_ok_def is_drained_def)
next
  case CloseTimer
  then have "is_closed (cn_state c)" "\<not> is_drained (cn_state c)" using ok t by (auto simp: life_ok_def)
  then show ?thesis using ok r CloseTimer by (auto simp: on_timeout_def life_ok_def is_drained_def)
next
  case PathValidation
  then show ?thesis using r
    by (intro life_ok_cong [OF ok, of c' "[]"]) (auto simp: on_timeout_def Let_def split: option.splits)
next
  case PushNewCid
  obtain more st where m: "on_cid_timeout (cn_local_cid_state c) = (more, st)" by (meson surj_pair)
  show ?thesis using r PushNewCid
    by (intro life_ok_cong [OF ok, of c' "if is_closed (cn_state c) then [] else [EvNeedIdentifiers now (if more then 1 else 0)]"])
      (auto simp: on_timeout_def stop_timer_def m Let_def push_endpoint_event_def timer_stop_def split: if_splits)
next
  case MaxAckDelay
  then show ?thesis using r by (intro life_ok_cong [OF ok, of c' "[]"]) (auto simp: on_timeout_def)
next
  case KeepAlive
  then show ?thesis using r by (intro life_ok_cong [OF ok, of c' "[]"]) (auto simp: on_timeout_def ping_def)
next
  case KeyDiscard
  then show ?thesis using r by (intro life_ok_cong [OF ok, of c' "[]"]) (auto simp: on_timeout_def)
next
  case Pacing
  then show ?thesis using r by (intro life_ok_cong [OF ok, of c' "[]"]) (auto simp: on_timeout_def)
qed

lemma handle_timeout_life:
  assumes "life_ok k c" "handle_timeout ev now c = Some c'"
  shows "life_ok k c'"
proof -
  have step: "life_ok k c'" if "life_ok k c" "expire ev now t c = Some c'" for t and c c' :: "('a, 'b) connection"
    using that timeout_life [OF that(1)] by (auto simp: expire_def timer_is_expired_def split: if_splits option.splits)
  have "life_ok k c'" if "life_ok k c" "ofold (expire ev now) ts c = Some c'" for ts c c'
    using that by (induction ts arbitrary: c) (auto simp: bind_eq_Some_conv intro: step)
  then show ?thesis using assms by (simp add: handle_timeout_def)
qed

lemma new_identifiers_life: "life_ok k c \<Longrightarrow> life_ok k (handle_new_identifiers ev ids now c)"
  by (erule life_ok_cong [of _ _ _ "[]"])
    (auto simp: handle_new_identifiers_def reset_cid_retirement_def Let_def with_space_def split: option.splits)

text \<open>Nothing but some timers changes of what decides about the life of a connection.\<close>

definition kept :: "timer set \<Rightarrow> ('s, 'c) connection \<Rightarrow> ('s, 'c) connection \<Rightarrow> bool" where
  "kept T c c' \<longleftrightarrow> cn_state c' = cn_state c \<and> cn_endpoint_events c' = cn_endpoint_events c \<and> (\<forall>t. t \<notin> T \<longrightarrow> cn_timers c' t = cn_timers c t)"

lemma kept_trans: "kept T c c1 \<Longrightarrow> kept T c1 c2 \<Longrightarrow> kept T c c2"
  by (simp add: kept_def)

lemma kept_mono: "kept T c c' \<Longrightarrow> T \<subseteq> U \<Longrightarrow> kept U c c'"
  by (auto simp: kept_def)

lemma kept_refl [simp]: "kept T c c"
  by (simp add: kept_def)

lemma kept_life:
  assumes "life_ok k c" "kept T c c'" "CloseTimer \<notin> T" "is_closed (cn_state c) \<longrightarrow> Idle \<notin> T \<and> LossDetection \<notin> T"
  shows "life_ok k c'"
  using assms by (intro life_ok_cong [OF assms(1), of c' "[]"]) (auto simp: kept_def)

lemma key_discard_kept: "set_key_discard_timer now s c = Some c' \<Longrightarrow> kept {KeyDiscard} c c'"
  by (auto simp: set_key_discard_timer_def bind_eq_Some_conv kept_def)

lemma update_keys_kept: "update_keys ev e b c = Some c' \<Longrightarrow> kept {} c c'"
  by (auto simp: update_keys_def bind_eq_Some_conv with_space_def kept_def Let_def split: prod.splits)

lemma decrypt_kept:
  assumes "decrypt_packet ev now p c = Some (r, p', c')"
  shows "kept {KeyDiscard} c c'"
proof -
  obtain x where x: "decrypt_packet_body p (cn_spaces c) (cn_zero_rtt_crypto c) (cn_key_phase c) (cn_prev_crypto c) (cn_next_crypto c) = Some x"
    using assms by (auto simp: decrypt_packet_def bind_eq_Some_conv)
  show ?thesis
  proof (cases "\<exists>d q. x = Inr (Some (d, q))")
    case True
    then obtain d q where q: "x = Inr (Some (d, q))" by blast
    let ?s = "header_space (pkt_header p)"
    obtain c1 where c1: "(case cn_prev_crypto c of
             Some p \<Rightarrow> if dr_outgoing_key_update_acked d
               then set_key_discard_timer now ?s (c\<lparr>cn_prev_crypto := Some (p\<lparr>pv_end_packet := Some (dr_number d, now)\<rparr>)\<rparr>) else Some c
           | None \<Rightarrow> Some c) = Some c1"
      and c2: "(if dr_incoming_key_update d
             then do { c' \<leftarrow> update_keys ev (Some (dr_number d, now)) True c1; set_key_discard_timer now ?s c' } else Some c1) = Some c'"
      using assms unfolding decrypt_packet_def x q by (auto simp: bind_eq_Some_conv split del: if_split)
    have "kept {KeyDiscard} c (c\<lparr>cn_prev_crypto := y\<rparr>)" for y by (simp add: kept_def)
    then have k1: "kept {KeyDiscard} c c1"
      using c1 by (auto dest!: key_discard_kept intro: kept_trans split: option.splits if_splits)
    have k2: "kept {KeyDiscard} c1 c'"
      using c2 by (auto simp: bind_eq_Some_conv dest!: key_discard_kept update_keys_kept intro: kept_trans kept_mono split: if_splits)
    from k1 k2 show ?thesis by (rule kept_trans)
  next
    case False
    then show ?thesis using assms unfolding decrypt_packet_def x by (cases x; cases "projr x") auto
  qed
qed

lemma discard_space_kept: "kept {LossDetection} c (discard_space now s c)"
proof -
  have f: "life_view (foldl (\<lambda>c e. remove_in_flight (snd e) c) d xs) = life_view d" for d :: "('a, 'b) connection" and xs :: "(nat \<times> sent_packet) list"
    by (induction xs arbitrary: d) simp_all
  have "life_view (discard_space now s c) = life_view c"
    by (auto simp: discard_space_def Let_def f split: connection_side.splits)
  then show ?thesis by (auto simp: life_view_def kept_def) (metis fun_upd_other)
qed

lemma reset_timers_kept: "kept {Idle} c (reset_idle_timeout now s c)" "kept {KeepAlive} c (reset_keep_alive now c)"
  by (auto simp: reset_idle_timeout_def reset_keep_alive_def kept_def split: option.splits)

lemma authenticated_kept:
  assumes r: "on_packet_authenticated now s ecn n spin b c = Some c'"
  shows "kept {Idle, KeepAlive, LossDetection, KeyDiscard} c c'" (is "kept ?T c c'")
proof -
  define c1 where "c1 = reset_idle_timeout now s (reset_keep_alive now (c\<lparr>cn_total_authed_packets := cn_total_authed_packets c + 1\<rparr>))"
  define c2 where "c2 = c1\<lparr>cn_permit_idle_reset := True, cn_receiving_ecn := cn_receiving_ecn c1 \<or> ecn \<noteq> None\<rparr>"
  define c3 where "c3 = (case ecn of None \<Rightarrow> c2
     | Some x \<Rightarrow> with_space s (\<lambda>sp. sp\<lparr>sp_ecn_counters := ecn_counts_add (sp_ecn_counters sp) x,
         sp_pending_acks := (if x = Ce then set_immediate_ack_required (sp_pending_acks sp) else sp_pending_acks sp)\<rparr>) c2)"
  have "kept ?T c c1"
    unfolding c1_def by (rule kept_trans [OF _ kept_mono [OF reset_timers_kept(1)]], rule kept_trans [OF _ kept_mono [OF reset_timers_kept(2)]]) (auto simp: kept_def)
  then have k3: "kept ?T c c3" by (auto simp: c3_def c2_def kept_def split: option.splits)
  show ?thesis
  proof (cases n)
    case None
    then show ?thesis using r k3 unfolding on_packet_authenticated_def Let_def c1_def [symmetric] c2_def [symmetric] c3_def [symmetric] by simp
  next
    case (Some m)
    define c4 where "c4 = (if cs_side (cn_side c3) = Server \<and> sp_crypto (cn_spaces c3 SInitial) \<noteq> None \<and> s = SHandshake
                    then discard_space now SInitial c3 else c3)"
    have k4: "kept ?T c3 c4" by (auto simp: c4_def intro: kept_mono [OF discard_space_kept])
    obtain c5 where c5: "(if cs_side (cn_side c3) = Server \<and> cn_zero_rtt_crypto c4 \<noteq> None \<and> b then set_key_discard_timer now s c4 else Some c4) = Some c5"
      and c': "kept {} c5 c'"
      using r Some unfolding on_packet_authenticated_def Let_def c1_def [symmetric] c2_def [symmetric] c3_def [symmetric] c4_def [symmetric]
      by (auto simp: bind_eq_Some_conv kept_def split: if_splits)
    have "kept ?T c4 c5" using c5 by (auto dest!: key_discard_kept intro: kept_mono split: if_splits)
    then show ?thesis using k3 k4 kept_mono [OF c', of ?T] by (blast intro: kept_trans)
  qed
qed

lemma rem_cid_life: "update_rem_cid c = Some c' \<Longrightarrow> \<exists>es. cn_state c' = cn_state c \<and> cn_endpoint_events c' = cn_endpoint_events c @ es \<and>
    EvDrained \<notin> set es \<and> cn_timers c' = cn_timers c"
  by (auto simp: update_rem_cid_def set_reset_token_def bind_eq_Some_conv push_endpoint_event_def with_space_def split: option.splits)

lemma migrate_kept: "migrate ev now remote c = Some c' \<Longrightarrow> kept {PathValidation} c c'"
  unfolding migrate_def Let_def draw_def split_def fst_conv snd_conv
  by (cases "pd_challenge (cn_path c) = None") (auto simp: bind_eq_Some_conv kept_def split del: if_split)

lemma packet_life:
  assumes ok: "life_ok k c" and p: "processed c c1" and d: "is_drained (cn_state c) \<longrightarrow> r = Inr ()"
    and f: "packet_finished now remote (cn_state c) r c1 = Some c'"
  shows "life_ok k c'"
proof -
  obtain es where es: "cn_endpoint_events c1 = cn_endpoint_events c @ es" "EvDrained \<notin> set es" using p by (auto simp: processed_def)
  have ev: "k + count_list (cn_endpoint_events c1) EvDrained = of_bool (is_drained (cn_state c))"
    using ok es by (simp add: life_ok_def count_list_0_iff)
  have tm: "cn_timers c1 CloseTimer = cn_timers c CloseTimer" "is_closed (cn_state c) \<Longrightarrow> cn_timers c1 Idle = None \<and> cn_timers c1 LossDetection = None"
    using p ok by (auto simp: processed_def life_ok_def)
  have cl: "cn_timers c CloseTimer \<noteq> None \<longleftrightarrow> is_closed (cn_state c) \<and> \<not> is_drained (cn_state c)" using ok by (simp add: life_ok_def)
  define s where "s = (case r of Inr _ \<Rightarrow> Some (cn_state c1) | Inl e \<Rightarrow> error_state e)"
  obtain s1 where s1: "s = Some s1" using f by (auto simp: packet_finished_def s_def bind_eq_Some_conv split: sum.splits)
  have st: "is_closed (cn_state c) \<longrightarrow> is_closed s1" "is_drained (cn_state c) \<longrightarrow> is_drained s1"
    using s1 d p by (auto simp: s_def processed_def error_state_def split: sum.splits connection_error.splits if_splits)
  define c2 where "c2 = (case r of Inr _ \<Rightarrow> c1 | Inl e \<Rightarrow> c1\<lparr>cn_error := Some e, cn_state := s1\<rparr>)"
  have c2: "cn_state c2 = s1" "cn_endpoint_events c2 = cn_endpoint_events c1" "cn_timers c2 = cn_timers c1"
    using s1 by (auto simp: c2_def s_def split: sum.splits)
  define c3 where "c3 = (if \<not> is_closed (cn_state c) \<and> is_closed s1
    then if is_drained s1 then close_common c2 else set_close_timer now (close_common c2) else c2)"
  define c4 where "c4 = (if \<not> is_drained (cn_state c) \<and> is_drained s1 then stop_timer CloseTimer (push_endpoint_event EvDrained c3) else c3)"
  have c3: "cn_state c3 = s1" by (simp add: c3_def c2 set_close_timer_def)
  have ok4: "life_ok k c4"
    using ev tm cl st by (auto simp: life_ok_def c4_def c3_def c2 set_close_timer_def)
  have "(case r of Inr _ \<Rightarrow> Some c1 | Inl e \<Rightarrow> do { s \<leftarrow> error_state e; Some (c1\<lparr>cn_error := Some e, cn_state := s\<rparr>) }) = Some c2"
    using s1 by (auto simp: s_def c2_def split: sum.splits)
  then have "packet_finished now remote (cn_state c) r c1 =
      Some (case cn_state c4 of StClosed _ \<Rightarrow> c4\<lparr>cn_close := (remote = pd_remote (cn_path c4))\<rparr> | _ \<Rightarrow> c4)"
    unfolding packet_finished_def Let_def
    by (simp only: bind.bind_lunit c2 close_common_simps c3_def [symmetric] c3 c4_def [symmetric])
  then have "c' = (case cn_state c4 of StClosed _ \<Rightarrow> c4\<lparr>cn_close := (remote = pd_remote (cn_path c4))\<rparr> | _ \<Rightarrow> c4)" using f by simp
  moreover have "life_ok k (d\<lparr>cn_close := b\<rparr>) = life_ok k d" for d :: "('a, 'b) connection" and b by (simp add: life_ok_def)
  ultimately show ?thesis using ok4 by (simp split: conn_state.splits)
qed

lemma lifetime_ok: "lifetime ev c k \<Longrightarrow> life_ok k c"
proof (induction rule: lifetime.induct)
  case (opened c)
  then show ?case by (auto simp: life_ok_def timer_get_def)
next
  case (closes c k now code reason)
  then show ?case by (simp add: conn_close_def close_inner_life)
next
  case (times_out c k now c')
  then show ?case using handle_timeout_life by blast
next
  case (new_identifiers c k ids now)
  then show ?case using new_identifiers_life by blast
next
  case (authenticated c k now s ecn n spin b c')
  then show ?case using kept_life [OF authenticated.IH authenticated_kept] by simp
next
  case (packet c k c1 r now remote c')
  then show ?case using packet_life by blast
next
  case (decrypts c k now p r' p' c')
  then show ?case using kept_life [OF decrypts.IH decrypt_kept] by simp
next
  case (key_update c k c')
  then have "kept {} c c'" by (auto simp: force_key_update_def dest: update_keys_kept split: if_splits)
  then show ?case using kept_life [OF key_update.IH] by simp
next
  case (migrates c k now remote c')
  then show ?case using kept_life [OF migrates.IH migrate_kept] by simp
next
  case (address c k c')
  then obtain c1 where c1: "update_rem_cid c = Some c1" "c' = ping c1" by (auto simp: local_address_changed_def)
  then obtain es where "cn_state c1 = cn_state c" "cn_endpoint_events c1 = cn_endpoint_events c @ es" "EvDrained \<notin> set es" "cn_timers c1 = cn_timers c"
    using rem_cid_life [OF c1(1)] by blast
  then show ?case using c1(2) by (intro life_ok_cong [OF address.IH, of c' es]) (simp_all add: ping_def)
next
  case (polled c k e es)
  then show ?case by (auto simp: life_ok_def)
qed

lemma minor_timeout:
  assumes "t \<in> {KeyDiscard, PathValidation, KeepAlive, Pacing, PushNewCid, MaxAckDelay}"
  shows "\<exists>c'. expire ev now t c = Some c' \<and> cn_state c' = cn_state c \<and> set (cn_endpoint_events c) \<subseteq> set (cn_endpoint_events c')"
proof -
  obtain more st where m: "on_cid_timeout (cn_local_cid_state c) = (more, st)" by (meson surj_pair)
  have "cn_local_cid_state (stop_timer t c) = cn_local_cid_state c" by (simp add: stop_timer_def)
  then show ?thesis
    using assms by (auto simp: expire_def on_timeout_def ping_def m Let_def split: option.splits)
qed

lemma minor_timeouts:
  assumes "set ts \<subseteq> {KeyDiscard, PathValidation, KeepAlive, Pacing, PushNewCid, MaxAckDelay}"
  shows "\<exists>c'. ofold (expire ev now) ts c = Some c' \<and> cn_state c' = cn_state c \<and> set (cn_endpoint_events c) \<subseteq> set (cn_endpoint_events c')"
  using assms
proof (induction ts arbitrary: c)
  case (Cons t ts)
  obtain c1 where c1: "expire ev now t c = Some c1" "cn_state c1 = cn_state c" "set (cn_endpoint_events c) \<subseteq> set (cn_endpoint_events c1)"
    using minor_timeout [of t ev now c] Cons.prems by auto
  then show ?case using Cons.IH [of c1] Cons.prems by fastforce
qed simp

lemma close_timeout:
  assumes ok: "life_ok k c" and t: "cn_timers c CloseTimer = Some t" "t \<le> now"
  shows "\<exists>c'. handle_timeout ev now c = Some c' \<and> cn_state c' = StDrained \<and> EvDrained \<in> set (cn_endpoint_events c')"
proof -
  have skip: "expire ev now LossDetection c = Some c" "expire ev now Idle c = Some c"
    using ok t by (auto simp: life_ok_def expire_def timer_is_expired_def)
  define c1 where "c1 = push_endpoint_event EvDrained ((stop_timer CloseTimer c)\<lparr>cn_state := StDrained\<rparr>)"
  have c1: "expire ev now CloseTimer c = Some c1" using t by (simp add: expire_def timer_is_expired_def on_timeout_def c1_def)
  let ?rest = "[KeyDiscard, PathValidation, KeepAlive, Pacing, PushNewCid, MaxAckDelay]"
  obtain c2 where "ofold (expire ev now) ?rest c1 = Some c2" "cn_state c2 = cn_state c1" "set (cn_endpoint_events c1) \<subseteq> set (cn_endpoint_events c2)"
    using minor_timeouts [of ?rest ev now c1] by auto
  moreover have "handle_timeout ev now c = ofold (expire ev now) ?rest c1"
    by (simp add: handle_timeout_def timer_values_def skip c1)
  ultimately show ?thesis by (auto simp: c1_def)
qed





end
