(* ===== verification/Tokens.thy ===== *)
theory Tokens
  imports Transport_Parameters
begin

text \<open>
  \<open>quic-proto/src/token.rs\<close> and \<open>bloom_token_log.rs\<close>: address validation tokens, their use on the first packet of a
  connection, and the log that keeps them from being used twice. A system time is an integer number of
  nanoseconds since the Unix epoch; the encryption of tokens and the Bloom filter are parameters.
\<close>

section \<open>Encoding\<close>

text \<open>An IP address is the list of its octets, 4 or 16 of them.\<close>

definition encode_ip :: "bytes \<Rightarrow> packet_writer" where
  "encode_ip ip = (if length ip = 4 then wcat [u8_encode 0, ipv4_encode ip] else wcat [u8_encode 1, ipv6_encode ip])"

definition decode_ip :: "bytes coding_parser" where
  "decode_ip buf =
     (case u8_decode buf of
        None \<Rightarrow> None
      | Some (t, rest) \<Rightarrow> if t = 0 then ipv4_decode rest else if t = 1 then ipv6_decode rest else None)"

definition encode_addr :: "socket_addr \<Rightarrow> packet_writer" where
  "encode_addr a = wcat [encode_ip (fst a), u16_encode (snd a)]"

definition decode_addr :: "socket_addr coding_parser" where
  "decode_addr buf =
     (case decode_ip buf of
        None \<Rightarrow> None
      | Some (ip, rest) \<Rightarrow> (case u16_decode rest of None \<Rightarrow> None | Some (port, rest') \<Rightarrow> Some ((ip, port), rest')))"

definition encode_unix_secs :: "int \<Rightarrow> packet_writer" where
  "encode_unix_secs time = u64_encode (if time < 0 then 0 else nat (time div 1000000000))"

definition decode_unix_secs :: "int coding_parser" where
  "decode_unix_secs buf = map_option (\<lambda>(secs, rest). (int secs * 1000000000, rest)) (u64_decode buf)"

datatype token_payload =
    RetryToken socket_addr connection_id int
  | ValidationToken bytes int

datatype token_type = TokenRetry | TokenValidation

definition token_type_from_byte :: "u8 \<Rightarrow> token_type option" where
  "token_type_from_byte n = (if n = 0 then Some TokenRetry else if n = 1 then Some TokenValidation else None)"

record token =
  tk_payload :: token_payload
  tk_nonce :: nat

text \<open>
  The authenticated encryption derived from the token key with a nonce: \<open>seal\<close> and \<open>open\<close> of the key that
  \<open>aead_from_hkdf\<close> derives from the bytes of the nonce.
\<close>

record token_key =
  kk_seal :: "bytes \<Rightarrow> bytes \<Rightarrow> bytes option"
  kk_open :: "bytes \<Rightarrow> bytes \<Rightarrow> bytes option"

definition nonce_bytes :: "nat \<Rightarrow> bytes" where
  "nonce_bytes n = rev (be_bytes 16 n)"

definition token_payload_encode :: "token_payload \<Rightarrow> packet_writer" where
  "token_payload_encode p =
     (case p of
        RetryToken address orig_dst_cid issued \<Rightarrow>
          wcat [u8_encode 0, encode_addr address, cid_encode_long orig_dst_cid, encode_unix_secs issued]
      | ValidationToken ip issued \<Rightarrow> wcat [u8_encode 1, encode_ip ip, encode_unix_secs issued])"

definition token_encode :: "token_key \<Rightarrow> token \<Rightarrow> packet_writer" where
  "token_encode key t =
     (case token_payload_encode (tk_payload t) of
        None \<Rightarrow> None
      | Some buf \<Rightarrow> map_option (\<lambda>sealed. sealed @ nonce_bytes (tk_nonce t)) (kk_seal key (nonce_bytes (tk_nonce t)) buf))"

definition token_payload_decode :: "token_payload coding_parser" where
  "token_payload_decode data =
     (case u8_decode data of
        None \<Rightarrow> None
      | Some (b, r0) \<Rightarrow>
          (case token_type_from_byte b of
             None \<Rightarrow> None
           | Some TokenRetry \<Rightarrow>
               (case decode_addr r0 of
                  None \<Rightarrow> None
                | Some (address, r1) \<Rightarrow>
                    (case cid_decode_long r1 of
                       None \<Rightarrow> None
                     | Some (orig_dst_cid, r2) \<Rightarrow>
                         map_option (\<lambda>(issued, r3). (RetryToken address orig_dst_cid issued, r3)) (decode_unix_secs r2)))
           | Some TokenValidation \<Rightarrow>
               (case decode_ip r0 of
                  None \<Rightarrow> None
                | Some (ip, r1) \<Rightarrow> map_option (\<lambda>(issued, r2). (ValidationToken ip issued, r2)) (decode_unix_secs r1))))"

definition token_decode :: "token_key \<Rightarrow> bytes \<Rightarrow> token option" where
  "token_decode key raw =
     (case checked_sub (length raw) 16 of
        None \<Rightarrow> None
      | Some start \<Rightarrow>
          let sealed = take start raw; nonce = drop start raw in
          (case kk_open key nonce sealed of
             None \<Rightarrow> None
           | Some data \<Rightarrow>
               (case token_payload_decode data of
                  None \<Rightarrow> None
                | Some (payload, reader) \<Rightarrow>
                    if reader \<noteq> [] then None else Some \<lparr>tk_payload = payload, tk_nonce = be_val (rev nonce)\<rparr>)))"

section \<open>Tokens on the first packet\<close>

record incoming_token =
  it_retry_src_cid :: "connection_id option"
  it_orig_dst_cid :: connection_id
  it_validated :: bool

datatype token_error = InvalidRetryTokenError

text \<open>
  The parts of the server configuration that decide on a token. \<open>tcf_check\<close> is \<open>check_and_insert\<close> of the token log,
  on its state; \<open>True\<close> means that the token is accepted.
\<close>

record 'l token_config =
  tcf_key :: token_key
  tcf_retry_token_lifetime :: nat
  tcf_lifetime :: nat
  tcf_check :: "nat \<Rightarrow> int \<Rightarrow> nat \<Rightarrow> 'l \<Rightarrow> bool \<times> 'l"

definition incoming_from_header ::
    "'l token_config \<Rightarrow> int \<Rightarrow> connection_id \<Rightarrow> bytes \<Rightarrow> socket_addr \<Rightarrow> 'l \<Rightarrow> (token_error + incoming_token) \<times> 'l" where
  "incoming_from_header config now dst_cid header_token remote_address log =
     (let unvalidated = \<lparr>it_retry_src_cid = None, it_orig_dst_cid = dst_cid, it_validated = False\<rparr> in
      if header_token = [] then (Inr unvalidated, log)
      else
        (case token_decode (tcf_key config) header_token of
           None \<Rightarrow> (Inr unvalidated, log)
         | Some retry \<Rightarrow>
             (case tk_payload retry of
                RetryToken address orig_dst_cid issued \<Rightarrow>
                  if address \<noteq> remote_address then (Inl InvalidRetryTokenError, log)
                  else if issued + int (tcf_retry_token_lifetime config) < now then (Inl InvalidRetryTokenError, log)
                  else (Inr \<lparr>it_retry_src_cid = Some dst_cid, it_orig_dst_cid = orig_dst_cid, it_validated = True\<rparr>, log)
              | ValidationToken ip issued \<Rightarrow>
                  if ip \<noteq> fst remote_address then (Inr unvalidated, log)
                  else if issued + int (tcf_lifetime config) < now then (Inr unvalidated, log)
                  else
                    let (accepted, log') = tcf_check config (tk_nonce retry) issued (tcf_lifetime config) log in
                    if \<not> accepted then (Inr unvalidated, log')
                    else (Inr \<lparr>it_retry_src_cid = None, it_orig_dst_cid = dst_cid, it_validated = True\<rparr>, log'))))"

section \<open>Stateless reset tokens\<close>

text \<open>\<open>sign\<close> is the keyed hash of the reset key; a signature shorter than a token would panic.\<close>

definition reset_token_new :: "(bytes \<Rightarrow> bytes) \<Rightarrow> connection_id \<Rightarrow> bytes option" where
  "reset_token_new sign cid =
     (let signature = sign cid in
      if length signature < RESET_TOKEN_SIZE then None else Some (take RESET_TOKEN_SIZE signature))"

section \<open>The log of used tokens\<close>

text \<open>
  The Bloom filter of an external library: \<open>bo_new bits hashes\<close> is an empty filter, and inserting reports whether
  the item may have been present. \<open>cap n\<close> is the capacity of a hash set that holds \<open>n\<close> elements.
\<close>

record 'b bloom_ops =
  bo_new :: "nat \<Rightarrow> nat \<Rightarrow> 'b"
  bo_insert :: "nat \<Rightarrow> 'b \<Rightarrow> bool \<times> 'b"

definition bo_inserts :: "'b bloom_ops \<Rightarrow> nat list \<Rightarrow> 'b \<Rightarrow> 'b" where
  "bo_inserts ops xs b = foldl (\<lambda>b x. snd (bo_insert ops x b)) b xs"

datatype 'b token_filter = FilterSet "nat list" | FilterBloom 'b

record filter_config =
  fc_filter_max_bytes :: nat
  fc_k_num :: nat

definition filter_check_and_insert ::
    "'b bloom_ops \<Rightarrow> (nat \<Rightarrow> nat) \<Rightarrow> nat \<Rightarrow> filter_config \<Rightarrow> 'b token_filter \<Rightarrow> bool \<times> 'b token_filter" where
  "filter_check_and_insert ops cap fingerprint config f =
     (case f of
        FilterSet hset \<Rightarrow>
          if fingerprint \<in> set hset then (False, f)
          else
            let hset' = fingerprint # hset in
            if cap (length hset') * 8 \<le> fc_filter_max_bytes config then (True, FilterSet hset')
            else (True, FilterBloom (bo_inserts ops hset' (bo_new ops (max (fc_filter_max_bytes config * 8) 1) (fc_k_num config))))
      | FilterBloom bloom \<Rightarrow>
          let (present, bloom') = bo_insert ops fingerprint bloom in (\<not> present, FilterBloom bloom'))"

record 'b token_log =
  tl_config :: filter_config
  tl_period_1_start :: int
  tl_filter_1 :: "'b token_filter"
  tl_filter_2 :: "'b token_filter"

definition token_log_new :: "nat \<Rightarrow> nat \<Rightarrow> 'b token_log" where
  "token_log_new max_bytes k_num = \<lparr>tl_config = \<lparr>fc_filter_max_bytes = max_bytes div 2, fc_k_num = k_num\<rparr>,
     tl_period_1_start = 0, tl_filter_1 = FilterSet [], tl_filter_2 = FilterSet []\<rparr>"

definition log_check_and_insert ::
    "'b bloom_ops \<Rightarrow> (nat \<Rightarrow> nat) \<Rightarrow> nat \<Rightarrow> int \<Rightarrow> nat \<Rightarrow> 'b token_log \<Rightarrow> bool \<times> 'b token_log" where
  "log_check_and_insert ops cap nonce issued lifetime l =
     (if lifetime = 0 then (False, l)
      else
        let expires_at = issued + int lifetime in
        if expires_at < tl_period_1_start l then (False, l)
        else
          let periods_forward = (expires_at - tl_period_1_start l) div int lifetime;
              check = filter_check_and_insert ops cap (nonce mod 2 ^ 64) (tl_config l) in
          if periods_forward = 0 then (let (r, f) = check (tl_filter_1 l) in (r, l\<lparr>tl_filter_1 := f\<rparr>))
          else if periods_forward = 1 then (let (r, f) = check (tl_filter_2 l) in (r, l\<lparr>tl_filter_2 := f\<rparr>))
          else if periods_forward = 2 then
            (let (r, f) = check (FilterSet []) in
             (r, l\<lparr>tl_filter_1 := tl_filter_2 l, tl_period_1_start := tl_period_1_start l + int lifetime, tl_filter_2 := f\<rparr>))
          else
            (let (r, f) = check (FilterSet []) in
             (r, l\<lparr>tl_filter_1 := f, tl_filter_2 := FilterSet [], tl_period_1_start := expires_at\<rparr>)))"

section \<open>What is encoded is decoded\<close>

definition ip_ok :: "bytes \<Rightarrow> bool" where
  "ip_ok ip \<longleftrightarrow> length ip = 4 \<or> length ip = 16"

definition sock_ok :: "socket_addr \<Rightarrow> bool" where
  "sock_ok a \<longleftrightarrow> ip_ok (fst a) \<and> fits 2 (snd a)"

interpretation ip_codec: codec encode_ip decode_ip ip_ok
proof
  fix ip bs rest
  assume ok: "ip_ok ip"
  then show "\<exists>bs. encode_ip ip = Some bs" by (simp add: encode_ip_def u8_encode_def ipv4_encode_def ipv6_encode_def)
  assume "encode_ip ip = Some bs"
  then show "decode_ip (bs @ rest) = Some (ip, rest)" "bs \<noteq> []"
    using ok by (auto simp: encode_ip_def decode_ip_def ip_ok_def u8_encode_def u8_decode_def ipv4_encode_def ipv6_encode_def
        ipv4_decode_def ipv6_decode_def take_bytes_append split: if_splits)
next
  fix bs x rest
  assume "decode_ip bs = Some (x, rest)"
  then obtain b tail where b: "bs = b # tail" "ipv4_decode tail = Some (x, rest) \<or> ipv6_decode tail = Some (x, rest)"
    by (cases bs) (auto simp: decode_ip_def u8_decode_def split: if_splits)
  show "\<exists>pre. pre \<noteq> [] \<and> bs = pre @ rest"
    using b ipv4_codec.decode_suffix [of tail x rest] ipv6_codec.decode_suffix [of tail x rest] by (metis append_Cons list.distinct(1))
  show "ip_ok x" using b ipv4_codec.decode_valid ipv6_codec.decode_valid by (auto simp: ip_ok_def)
qed

interpretation addr_codec: codec encode_addr decode_addr sock_ok
proof
  fix a bs rest
  assume ok: "sock_ok a"
  obtain ib pb where w: "encode_ip (fst a) = Some ib" "u16_encode (snd a) = Some pb"
    using ok ip_codec.encode_total u16_codec.encode_total unfolding sock_ok_def by meson
  then show "\<exists>bs. encode_addr a = Some bs" by (simp add: encode_addr_def)
  assume "encode_addr a = Some bs"
  then have bs: "bs = ib @ pb" using w by (simp add: encode_addr_def)
  have ip: "ip_ok (fst a)" and port: "fits 2 (snd a)" using ok by (simp_all add: sock_ok_def)
  show "decode_addr (bs @ rest) = Some (a, rest)" "bs \<noteq> []"
    using bs ip_codec.decode_encode [OF ip w(1)] u16_codec.decode_encode [OF port w(2)] ip_codec.encode_nonempty [OF ip w(1)]
    by (simp_all add: decode_addr_def)
next
  fix bs x rest
  assume "decode_addr bs = Some (x, rest)"
  then obtain mid where m: "decode_ip bs = Some (fst x, mid)" "u16_decode mid = Some (snd x, rest)"
    by (auto simp: decode_addr_def split: option.splits)
  obtain p1 p2 where "bs = p1 @ mid" "p1 \<noteq> []" "mid = p2 @ rest"
    using ip_codec.decode_suffix [OF m(1)] u16_codec.decode_suffix [OF m(2)] by blast
  then show "\<exists>pre. pre \<noteq> [] \<and> bs = pre @ rest" by (intro exI [of _ "p1 @ p2"]) simp
  show "sock_ok x" using ip_codec.decode_valid [OF m(1)] u16_codec.decode_valid [OF m(2)] by (simp add: sock_ok_def)
qed

text \<open>A time is kept in whole seconds.\<close>

definition whole_secs :: "int \<Rightarrow> int" where
  "whole_secs t = t div 1000000000 * 1000000000"

definition time_ok :: "int \<Rightarrow> bool" where
  "time_ok t \<longleftrightarrow> 0 \<le> t \<and> t div 1000000000 < 2 ^ 64"

lemma unix_secs_roundtrip:
  assumes "time_ok t"
  obtains bs where "encode_unix_secs t = Some bs" "\<And>rest. decode_unix_secs (bs @ rest) = Some (whole_secs t, rest)"
proof -
  have fit: "fits 8 (nat (t div 1000000000))" using assms by (auto simp: time_ok_def fits_def)
  then obtain bs where bs: "u64_encode (nat (t div 1000000000)) = Some bs" using u64_codec.encode_total by blast
  show ?thesis
  proof (rule that)
    show "encode_unix_secs t = Some bs" using bs assms by (simp add: encode_unix_secs_def time_ok_def)
    show "decode_unix_secs (bs @ rest) = Some (whole_secs t, rest)" for rest
      using u64_codec.decode_encode [OF fit bs, of rest] assms
      by (simp add: decode_unix_secs_def whole_secs_def time_ok_def pos_imp_zdiv_nonneg_iff)
  qed
qed

fun payload_ok :: "token_payload \<Rightarrow> bool" where
  "payload_ok (RetryToken address orig_dst_cid issued) \<longleftrightarrow> sock_ok address \<and> length orig_dst_cid \<le> MAX_CID_SIZE \<and> time_ok issued"
| "payload_ok (ValidationToken ip issued) \<longleftrightarrow> ip_ok ip \<and> time_ok issued"

fun in_whole_secs :: "token_payload \<Rightarrow> token_payload" where
  "in_whole_secs (RetryToken address orig_dst_cid issued) = RetryToken address orig_dst_cid (whole_secs issued)"
| "in_whole_secs (ValidationToken ip issued) = ValidationToken ip (whole_secs issued)"

lemma payload_roundtrip:
  assumes "payload_ok p"
  obtains bs where "token_payload_encode p = Some bs" "token_payload_decode bs = Some (in_whole_secs p, [])"
proof (cases p)
  case (RetryToken a c t)
  then have ok: "sock_ok a" "length c \<le> MAX_CID_SIZE" "time_ok t" using assms by auto
  obtain ab cb where w: "encode_addr a = Some ab" "cid_encode_long c = Some cb"
    using addr_codec.encode_total [OF ok(1)] cid_codec.encode_total [OF ok(2)] by auto
  obtain tb where t: "encode_unix_secs t = Some tb" "\<And>rest. decode_unix_secs (tb @ rest) = Some (whole_secs t, rest)"
    using unix_secs_roundtrip [OF ok(3)] by blast
  show ?thesis
    using that [of "0 # ab @ cb @ tb"] RetryToken w t(1) t(2) [of "[]"] addr_codec.decode_encode [OF ok(1) w(1)] cid_codec.decode_encode [OF ok(2) w(2)]
    by (simp add: token_payload_encode_def token_payload_decode_def u8_encode_def u8_decode_def token_type_from_byte_def)
next
  case (ValidationToken ip t)
  then have ok: "ip_ok ip" "time_ok t" using assms by auto
  obtain ib where w: "encode_ip ip = Some ib" using ip_codec.encode_total [OF ok(1)] by auto
  obtain tb where t: "encode_unix_secs t = Some tb" "\<And>rest. decode_unix_secs (tb @ rest) = Some (whole_secs t, rest)"
    using unix_secs_roundtrip [OF ok(2)] by blast
  show ?thesis
    using that [of "1 # ib @ tb"] ValidationToken w t(1) t(2) [of "[]"] ip_codec.decode_encode [OF ok(1) w]
    by (simp add: token_payload_encode_def token_payload_decode_def u8_encode_def u8_decode_def token_type_from_byte_def)
qed

text \<open>What is relied on of the encryption: what was sealed under a nonce opens under it.\<close>

definition seals :: "token_key \<Rightarrow> bool" where
  "seals key \<longleftrightarrow> (\<forall>nonce data. \<exists>sealed. kk_seal key nonce data = Some sealed \<and> kk_open key nonce sealed = Some data)"

lemma token_roundtrip:
  assumes "seals key" "payload_ok (tk_payload t)" "tk_nonce t < 2 ^ 128"
  obtains bs where "token_encode key t = Some bs" "bs \<noteq> []" "token_decode key bs = Some (t\<lparr>tk_payload := in_whole_secs (tk_payload t)\<rparr>)"
proof -
  obtain data where d: "token_payload_encode (tk_payload t) = Some data" "token_payload_decode data = Some (in_whole_secs (tk_payload t), [])"
    using payload_roundtrip [OF assms(2)] by blast
  obtain sealed where s: "kk_seal key (nonce_bytes (tk_nonce t)) data = Some sealed" "kk_open key (nonce_bytes (tk_nonce t)) sealed = Some data"
    using assms(1) unfolding seals_def by blast
  have n: "length (nonce_bytes (tk_nonce t)) = 16" "be_val (rev (nonce_bytes (tk_nonce t))) = tk_nonce t"
    using assms(3) by (simp_all add: nonce_bytes_def be_val_be_bytes)
  show ?thesis
  proof (rule that)
    show "token_encode key t = Some (sealed @ nonce_bytes (tk_nonce t))" using d(1) s(1) by (simp add: token_encode_def)
    show "sealed @ nonce_bytes (tk_nonce t) \<noteq> []" using n(1) by auto
    show "token_decode key (sealed @ nonce_bytes (tk_nonce t)) = Some (t\<lparr>tk_payload := in_whole_secs (tk_payload t)\<rparr>)"
      using d(2) s(2) n by (simp add: token_decode_def checked_sub_def Let_def)
  qed
qed


definition plain_key :: token_key where
  "plain_key = \<lparr>kk_seal = (\<lambda>n d. Some d), kk_open = (\<lambda>n s. Some s)\<rparr>"

definition example_token_config :: "unit token_config" where
  "example_token_config = \<lparr>tcf_key = plain_key, tcf_retry_token_lifetime = 15000000000, tcf_lifetime = 0, tcf_check = (\<lambda>_ _ _ l. (False, l))\<rparr>"


section \<open>No token is accepted twice\<close>

text \<open>What is relied on of the Bloom filter: an item that was inserted is reported as present.\<close>

definition bloom_law :: "'b bloom_ops \<Rightarrow> bool" where
  "bloom_law ops \<longleftrightarrow> (\<forall>bits hashes xs x. x \<in> set xs \<longrightarrow> fst (bo_insert ops x (bo_inserts ops xs (bo_new ops bits hashes))))"

fun filter_of :: "'b bloom_ops \<Rightarrow> nat list \<Rightarrow> 'b token_filter \<Rightarrow> bool" where
  "filter_of ops xs (FilterSet ys) \<longleftrightarrow> set xs = set ys"
| "filter_of ops xs (FilterBloom b) \<longleftrightarrow> (\<exists>bits hashes ys. set xs \<subseteq> set ys \<and> b = bo_inserts ops ys (bo_new ops bits hashes))"

lemma bo_inserts_snoc: "snd (bo_insert ops x (bo_inserts ops ys b)) = bo_inserts ops (ys @ [x]) b"
  by (simp add: bo_inserts_def)

lemma filter_check:
  assumes "bloom_law ops" "filter_of ops xs f" "filter_check_and_insert ops cap x config f = (r, f')"
  shows "(r \<longrightarrow> x \<notin> set xs) \<and> filter_of ops (if r then x # xs else xs) f'"
proof (cases f)
  case (FilterSet ys)
  have "filter_of ops (x # xs) (FilterBloom (bo_inserts ops (x # ys) (bo_new ops n k)))" for n k
    using assms(2) FilterSet by (simp only: filter_of.simps) (intro exI [of _ n] exI [of _ k] exI [of _ "x # ys"], simp)
  then show ?thesis using assms(2,3) FilterSet
    by (auto simp: filter_check_and_insert_def Let_def simp del: filter_of.simps(2) split: if_splits)
next
  case (FilterBloom b)
  then obtain bits hashes ys where b: "set xs \<subseteq> set ys" "b = bo_inserts ops ys (bo_new ops bits hashes)" using assms(2) by auto
  have f': "r = (\<not> fst (bo_insert ops x b))" "f' = FilterBloom (bo_inserts ops (ys @ [x]) (bo_new ops bits hashes))"
    using assms(3) FilterBloom by (auto simp: filter_check_and_insert_def b(2) split_def Let_def bo_inserts_snoc)
  have new: "x \<notin> set ys" if r using assms(1) that f'(1) b(2) by (auto simp: bloom_law_def)
  have "filter_of ops zs f'" if "set zs \<subseteq> set (ys @ [x])" for zs
    unfolding f'(2) filter_of.simps
    by (rule exI [of _ bits], rule exI [of _ hashes], rule exI [of _ "ys @ [x]"]) (use that in simp)
  from this [of xs] this [of "x # xs"] have "filter_of ops (if r then x # xs else xs) f'" using b(1) by (cases r) auto
  with new show ?thesis using b(1) by auto
qed

text \<open>
  The accepted tokens, as truncated nonce and time of issue: those that expire before the first period are refused by
  their age, the others are in the filter of the period they expire in.
\<close>

definition tokens_in :: "'b bloom_ops \<Rightarrow> int \<Rightarrow> (nat \<times> int) set \<Rightarrow> int \<Rightarrow> 'b token_filter \<Rightarrow> 'b token_filter \<Rightarrow> bool" where
  "tokens_in ops L A start f1 f2 \<longleftrightarrow> (\<exists>xs ys. filter_of ops xs f1 \<and> filter_of ops ys f2 \<and>
     (\<forall>x i. (x, i) \<in> A \<longrightarrow> i + L < start \<or> start \<le> i + L \<and> i + L < start + L \<and> x \<in> set xs \<or>
        start + L \<le> i + L \<and> i + L < start + 2 * L \<and> x \<in> set ys))"

definition accept :: "bool \<Rightarrow> nat \<Rightarrow> int \<Rightarrow> (nat \<times> int) set \<Rightarrow> (nat \<times> int) set" where
  "accept r x i A = (if r then insert (x, i) A else A)"

lemma tokens_in_first:
  assumes "bloom_law ops" "tokens_in ops L A start f1 f2" "filter_check_and_insert ops cap x config f1 = (r, f)"
    "start \<le> i + L" "i + L < start + L"
  shows "(r \<longrightarrow> (x, i) \<notin> A) \<and> tokens_in ops L (accept r x i A) start f f2"
proof -
  obtain xs ys where f: "filter_of ops xs f1" "filter_of ops ys f2" and
    A: "\<forall>x i. (x, i) \<in> A \<longrightarrow> i + L < start \<or> start \<le> i + L \<and> i + L < start + L \<and> x \<in> set xs \<or>
        start + L \<le> i + L \<and> i + L < start + 2 * L \<and> x \<in> set ys"
    using assms(2) unfolding tokens_in_def by blast
  have fc: "r \<longrightarrow> x \<notin> set xs" "filter_of ops (if r then x # xs else xs) f"
    using filter_check [OF assms(1) f(1) assms(3)] by auto
  have "tokens_in ops L (accept r x i A) start f f2"
    unfolding tokens_in_def
    by (rule exI [of _ "if r then x # xs else xs"], rule exI [of _ ys]) (use fc(2) f(2) A assms(4,5) in \<open>auto simp: accept_def\<close>)
  then show ?thesis using fc(1) A [rule_format, of x i] assms(4,5) by auto
qed

lemma tokens_in_second:
  assumes "bloom_law ops" "tokens_in ops L A start f1 f2" "filter_check_and_insert ops cap x config f2 = (r, f)"
    "0 < L" "start + L \<le> i + L" "i + L < start + 2 * L"
  shows "(r \<longrightarrow> (x, i) \<notin> A) \<and> tokens_in ops L (accept r x i A) start f1 f"
proof -
  obtain xs ys where f: "filter_of ops xs f1" "filter_of ops ys f2" and
    A: "\<forall>x i. (x, i) \<in> A \<longrightarrow> i + L < start \<or> start \<le> i + L \<and> i + L < start + L \<and> x \<in> set xs \<or>
        start + L \<le> i + L \<and> i + L < start + 2 * L \<and> x \<in> set ys"
    using assms(2) unfolding tokens_in_def by blast
  have fc: "r \<longrightarrow> x \<notin> set ys" "filter_of ops (if r then x # ys else ys) f"
    using filter_check [OF assms(1) f(2) assms(3)] by auto
  have "tokens_in ops L (accept r x i A) start f1 f"
    unfolding tokens_in_def
    by (rule exI [of _ xs], rule exI [of _ "if r then x # ys else ys"]) (use fc(2) f(1) A assms(4-6) in \<open>auto simp: accept_def\<close>)
  then show ?thesis using fc(1) A [rule_format, of x i] assms(4-6) by auto
qed

lemma tokens_in_later:
  assumes "tokens_in ops L A start f1 f2" "0 < L"
  shows "tokens_in ops L A (start + L) f2 (FilterSet [])"
    "start + 3 * L \<le> start' \<Longrightarrow> tokens_in ops L A start' (FilterSet []) (FilterSet [])"
proof -
  obtain xs ys where f: "filter_of ops xs f1" "filter_of ops ys f2" and
    A: "\<forall>x i. (x, i) \<in> A \<longrightarrow> i + L < start \<or> start \<le> i + L \<and> i + L < start + L \<and> x \<in> set xs \<or>
        start + L \<le> i + L \<and> i + L < start + 2 * L \<and> x \<in> set ys"
    using assms(1) unfolding tokens_in_def by blast
  have e: "filter_of ops [] (FilterSet [])" by simp
  show "tokens_in ops L A (start + L) f2 (FilterSet [])"
    unfolding tokens_in_def by (rule exI [of _ ys], rule exI [of _ "[]"]) (use f e A assms(2) in fastforce)
  show "tokens_in ops L A start' (FilterSet []) (FilterSet [])" if "start + 3 * L \<le> start'"
    unfolding tokens_in_def by (rule exI [of _ "[]"], rule exI [of _ "[]"]) (use f e A assms(2) that in fastforce)
qed

definition log_inv :: "'b bloom_ops \<Rightarrow> nat \<Rightarrow> (nat \<times> int) set \<Rightarrow> 'b token_log \<Rightarrow> bool" where
  "log_inv ops lifetime A l \<longleftrightarrow> tokens_in ops (int lifetime) A (tl_period_1_start l) (tl_filter_1 l) (tl_filter_2 l)"

lemma log_check_inv:
  assumes "bloom_law ops" "log_inv ops lifetime A l" "log_check_and_insert ops cap nonce issued lifetime l = (r, l')"
  shows "(r \<longrightarrow> (nonce mod 2 ^ 64, issued) \<notin> A) \<and> log_inv ops lifetime (accept r (nonce mod 2 ^ 64) issued A) l'"
proof -
  define x where "x = nonce mod 2 ^ 64"
  define L where "L = int lifetime"
  define start where "start = tl_period_1_start l"
  define check where "check = filter_check_and_insert ops cap x (tl_config l)"
  obtain r1 g1 r2 g2 r3 g3 where c: "check (tl_filter_1 l) = (r1, g1)" "check (tl_filter_2 l) = (r2, g2)" "check (FilterSet []) = (r3, g3)"
    by (meson surj_pair)
  have inv: "tokens_in ops L A start (tl_filter_1 l) (tl_filter_2 l)" using assms(2) by (simp add: log_inv_def L_def start_def)
  note run = assms(3) [unfolded log_check_and_insert_def, folded x_def L_def start_def, folded check_def, unfolded Let_def, unfolded c prod.case]
  have L0: "0 < L \<Longrightarrow> lifetime \<noteq> 0" by (simp add: L_def)
  have div: "(issued + L - start) div L = k" if "0 < L" "start + k * L \<le> issued + L" "issued + L < start + (k + 1) * L" for k
    using that by (intro int_div_pos_eq [of _ _ _ "issued + L - start - k * L"]) (auto simp: algebra_simps)
  consider "lifetime = 0 \<or> issued + L < start" | "0 < L" "start \<le> issued + L" "issued + L < start + L"
    | "0 < L" "start + L \<le> issued + L" "issued + L < start + 2 * L"
    | "0 < L" "start + 2 * L \<le> issued + L" "issued + L < start + 3 * L" | "0 < L" "start + 3 * L \<le> issued + L"
    unfolding L_def by linarith
  then show ?thesis
  proof cases
    case 1
    then have "r = False \<and> l' = l" using run by (auto split: if_splits)
    then show ?thesis using assms(2) by (simp add: accept_def)
  next
    case 2
    then have "(r, l') = (r1, l\<lparr>tl_filter_1 := g1\<rparr>)" using run L0 div [of 0] by simp
    then show ?thesis using tokens_in_first [OF assms(1) inv c(1) [unfolded check_def] 2(2,3)] by (simp add: log_inv_def L_def start_def x_def)
  next
    case 3
    then have "(r, l') = (r2, l\<lparr>tl_filter_2 := g2\<rparr>)" using run L0 div [of 1] by simp
    then show ?thesis using tokens_in_second [OF assms(1) inv c(2) [unfolded check_def] 3] by (simp add: log_inv_def L_def start_def x_def)
  next
    case 4
    then have "(r, l') = (r3, l\<lparr>tl_filter_1 := tl_filter_2 l, tl_period_1_start := start + L, tl_filter_2 := g3\<rparr>)"
      using run L0 div [of 2] by simp
    then show ?thesis using tokens_in_second [OF assms(1) tokens_in_later(1) [OF inv 4(1)] c(3) [unfolded check_def] 4(1), of issued] 4
      by (simp add: log_inv_def L_def start_def x_def)
  next
    case 5
    have "3 \<le> (issued + L - start) div L" using 5 zdiv_mono1 [of "3 * L" "issued + L - start" L] by simp
    then have "(r, l') = (r3, l\<lparr>tl_filter_1 := g3, tl_filter_2 := FilterSet [], tl_period_1_start := issued + L\<rparr>)"
      using run L0 5 by simp
    then show ?thesis using tokens_in_first [OF assms(1) tokens_in_later(2) [OF inv 5(1,2)] c(3) [unfolded check_def], of issued] 5
      by (simp add: log_inv_def L_def start_def x_def)
  qed
qed

text \<open>A run of the log over a sequence of tokens; the result pairs every token with the verdict.\<close>

fun log_run :: "'b bloom_ops \<Rightarrow> (nat \<Rightarrow> nat) \<Rightarrow> nat \<Rightarrow> (nat \<times> int) list \<Rightarrow> 'b token_log \<Rightarrow> bool list" where
  "log_run ops cap lifetime [] l = []"
| "log_run ops cap lifetime ((nonce, issued) # ts) l =
     (let (r, l') = log_check_and_insert ops cap nonce issued lifetime l in r # log_run ops cap lifetime ts l')"

lemma log_run_length: "length (log_run ops cap lifetime ts l) = length ts"
  by (induction ops cap lifetime ts l rule: log_run.induct) (auto split: prod.splits)

lemma log_run_fresh:
  assumes "bloom_law ops" "log_inv ops lifetime A l" "i < length ts" "log_run ops cap lifetime ts l ! i"
  shows "(fst (ts ! i) mod 2 ^ 64, snd (ts ! i)) \<notin> A"
  using assms(2-)
proof (induction ts arbitrary: A l i)
  case (Cons t ts)
  obtain nonce issued where t: "t = (nonce, issued)" by (cases t)
  obtain r l' where c: "log_check_and_insert ops cap nonce issued lifetime l = (r, l')" by (meson surj_pair)
  note inv = log_check_inv [OF assms(1) Cons.prems(1) c]
  show ?case
  proof (cases i)
    case 0
    then show ?thesis using Cons.prems(3) inv by (simp add: t c)
  next
    case (Suc k)
    then have "(fst (ts ! k) mod 2 ^ 64, snd (ts ! k)) \<notin> accept r (nonce mod 2 ^ 64) issued A"
      using Cons.prems(2,3) by (intro Cons.IH [OF conjunct2 [OF inv]]) (simp_all add: t c)
    then show ?thesis using Suc by (auto simp: accept_def split: if_splits)
  qed
qed simp

lemma log_run_distinct:
  assumes "bloom_law ops" "log_inv ops lifetime A l" "i < j" "j < length ts"
    "log_run ops cap lifetime ts l ! i" "log_run ops cap lifetime ts l ! j"
  shows "(fst (ts ! i) mod 2 ^ 64, snd (ts ! i)) \<noteq> (fst (ts ! j) mod 2 ^ 64, snd (ts ! j))"
  using assms(2-)
proof (induction ts arbitrary: A l i j)
  case (Cons t ts)
  obtain nonce issued where t: "t = (nonce, issued)" by (cases t)
  obtain r l' where c: "log_check_and_insert ops cap nonce issued lifetime l = (r, l')" by (meson surj_pair)
  note inv = conjunct2 [OF log_check_inv [OF assms(1) Cons.prems(1) c]]
  obtain k where j: "j = Suc k" using Cons.prems(2) by (cases j) auto
  have k: "k < length ts" "log_run ops cap lifetime ts l' ! k" using Cons.prems(3,5) by (simp_all add: j t c)
  show ?case
  proof (cases i)
    case 0
    then have "r" using Cons.prems(4) by (simp add: t c)
    then show ?thesis using log_run_fresh [OF assms(1) inv k] by (auto simp: 0 j t accept_def)
  next
    case (Suc m)
    then show ?thesis using Cons.IH [OF inv, of m k] Cons.prems(2,4) k by (simp add: j t c)
  qed
qed simp

lemma log_new_inv: "log_inv ops lifetime {} (token_log_new max_bytes k_num)"
  by (auto simp: log_inv_def token_log_new_def tokens_in_def intro!: exI [of _ "[]"])

text \<open>C20: A token accepted by the Bloom-filter token log is never accepted again, whatever other tokens
  come in between, in whatever order the issue times are, and however often the log rolls over to new
  periods or turns a set into a Bloom filter: of two positions of a sequence of checks that were both
  accepted, the (64-bit fingerprint, issue time) pairs differ. The only thing relied on is that a Bloom
  filter contains what was inserted into it.\<close>

theorem token_accepted_once:
  assumes "bloom_law ops" "i < j" "j < length ts"
    "log_run ops cap lifetime ts (token_log_new max_bytes k_num) ! i"
    "log_run ops cap lifetime ts (token_log_new max_bytes k_num) ! j"
  shows "(fst (ts ! i) mod 2 ^ 64, snd (ts ! i)) \<noteq> (fst (ts ! j) mod 2 ^ 64, snd (ts ! j))"
  by (rule log_run_distinct [OF assms(1) log_new_inv assms(2-5)])

text \<open>A filter that keeps the list of what was inserted satisfies the law; with a budget of zero bytes the
  very first token turns the set into the filter.\<close>

definition list_bloom :: "nat list bloom_ops" where
  "list_bloom = \<lparr>bo_new = \<lambda>bits hashes. [], bo_insert = \<lambda>x b. (x \<in> set b, x # b)\<rparr>"

lemma list_bloom_law: "bloom_law list_bloom"
proof -
  have "set (bo_inserts list_bloom xs b) = set xs \<union> set b" for xs b
    by (induction xs arbitrary: b) (auto simp: bo_inserts_def list_bloom_def)
  then show ?thesis by (auto simp: bloom_law_def list_bloom_def)
qed

theorem token_accepted_once_witness:
  "log_run list_bloom id 1000 [(7, 5000), (7, 6500), (7, 5000), (9, 5600)] (token_log_new 0 3) = [True, True, False, True] \<and>
   (7 mod 2 ^ 64, 5000) \<noteq> ((9 :: nat) mod 2 ^ 64, 5600 :: int)"
proof
  show run: "log_run list_bloom id 1000 [(7, 5000), (7, 6500), (7, 5000), (9, 5600)] (token_log_new 0 3) = [True, True, False, True]"
    by (simp add: token_log_new_def log_check_and_insert_def filter_check_and_insert_def list_bloom_def bo_inserts_def)
  show "(7 mod 2 ^ 64, 5000) \<noteq> ((9 :: nat) mod 2 ^ 64, 5600 :: int)"
    using token_accepted_once [OF list_bloom_law, of 0 3 "[(7, 5000), (7, 6500), (7, 5000), (9, 5600)]" id 1000 0 3, unfolded run] by simp
qed

end
