(* ===== verification/Spec2Isabelle.thy ===== *)
theory Spec2Isabelle
  imports Streams_Recv_Inv Streams_Transmit Lifecycle Tokens
begin

text \<open>
  A verification library for the QUIC engine of this repository. The protocol is the crate \<open>quic-proto\<close>, a state machine
  without I/O: an endpoint routes datagrams to connections; a connection removes header and packet protection, parses the frames of
  a payload and hands them to its streams, to loss recovery and to the management of connection ids, paths and timers; in the other
  direction it fills packets with what these parts want to send. The other crates drive this machine with sockets and threads.

  \<^bold>\<open>Conventions.\<close> A \<open>u8\<close> is a word of 8 bits and a buffer a list of them. Wider integers are natural numbers; where the code wraps,
  saturates or checks, the model does so explicitly (\<open>wrapping_sub\<close>, \<open>saturating_add\<close>, \<open>checked_add\<close>). A panic is \<open>None\<close>, an \<open>Err\<close> is
  \<open>Inl\<close>; an operation that changes its object before it fails returns the changed object with the error. Structs are records,
  enums data types, hash maps partial maps, a \<open>BTreeMap\<close> the list of its entries in ascending order. Instants and durations are
  natural numbers of nanoseconds. Statistics, tracing and qlog are left out throughout.

  \<^bold>\<open>Wire formats.\<close>
  \<^item> \<open>Quic_Prelude\<close>: machine integers, big-endian numbers, writers, parsers and shared lemmas.
  \<^item> \<open>Var_Int\<close> (\<open>coding.rs\<close>, \<open>varint.rs\<close>): the trait \<open>Codec\<close> is the locale \<open>codec\<close>, interpreted for every implementation.
  \<^item> \<open>Proto_Types\<close> (\<open>lib.rs\<close>, \<open>shared.rs\<close>, \<open>transport_error.rs\<close>): stream ids, connection ids, ECN, errors.
  \<^item> \<open>Packet_Number\<close>, \<open>Packet\<close> (\<open>packet.rs\<close>): a truncated packet number is recovered if it is within the window of the receiver; what
    \<open>Header::encode\<close> and \<open>PartialEncode::finish\<close> produce, \<open>PartialDecode\<close> opens, also within a datagram of several packets.
  \<^item> \<open>Frame\<close> (\<open>frame.rs\<close>): every payload of encoded frames is parsed back; the ranges of a parsed ACK never underflow.
  \<^item> \<open>Transport_Parameters\<close> (\<open>transport_parameters.rs\<close>): round trip for every order in which the parameters are written.
  \<^item> \<open>Tokens\<close> (\<open>token.rs\<close>, \<open>bloom_token_log.rs\<close>): retry tokens validate the address they were issued to; no token is accepted twice.

  \<^bold>\<open>Data structures.\<close>
  \<^item> \<open>Range_Set\<close>, \<open>Btree_Range_Set\<close> (\<open>range_set/\<close>): both implementations satisfy the locale \<open>range_set\<close>, hence they agree.
  \<^item> \<open>Dedup\<close> and \<open>Packet_Spaces\<close> (\<open>connection/spaces.rs\<close>): duplicate detection is exact within the window; packets in flight are
    tracked, skipped packet numbers are noticed, acknowledgements owed are remembered, a probe always finds something to send.
  \<^item> \<open>Cid_Queue\<close> (\<open>cid_queue.rs\<close>, \<open>connection/cid_state.rs\<close>): the ring buffer refines a map from sequence numbers.
  \<^item> \<open>Assembler\<close> (\<open>connection/assembler.rs\<close>): ordered reads give the stream, unordered reads give every byte once. The heap is an
    interpretation of the locale \<open>priority_queue\<close>, and so is the queue of streams to send in \<open>Streams_Transmit\<close>.
  \<^item> \<open>Send_Buffer\<close> (\<open>connection/send_buffer.rs\<close>): a step relation with invariant; it drains once everything is acknowledged.
  \<^item> \<open>Datagrams\<close> (\<open>connection/datagrams.rs\<close>): the byte counters agree with the buffers.

  \<^bold>\<open>Streams.\<close>
  \<^item> \<open>Stream_Recv\<close>, \<open>Stream_Send\<close> (\<open>connection/streams/recv.rs\<close>, \<open>send.rs\<close>): a stream; the sources of bytes are the locale \<open>bytes_source\<close>.
  \<^item> \<open>Streams\<close> (\<open>connection/streams/state.rs\<close>, \<open>mod.rs\<close>): the definitions for all streams of a connection.
  \<^item> \<open>Streams_Send_Inv\<close>, \<open>Streams_Recv_Inv\<close>: the limits of the peer are kept and the books on unacknowledged data balance in every
    reachable state; no more is accepted than was granted; and the cases in which the books go wrong.
  \<^item> \<open>Streams_Transmit\<close>: STREAM frames fit and carry exactly the bytes of the application; streams of a priority take turns.

  \<^bold>\<open>Paths.\<close>
  \<^item> \<open>Mtu_Discovery\<close> (\<open>connection/mtud.rs\<close>): the search converges to the largest size that passes.
  \<^item> \<open>Congestion\<close> (\<open>congestion.rs\<close>, \<open>congestion/\<close>, part of \<open>connection/paths.rs\<close>): the round trip estimate, the locale
    \<open>congestion_controller\<close> and its interpretation by NewReno, the bandwidth estimate.
  \<^item> \<open>Ack_Frequency\<close> (\<open>connection/ack_frequency.rs\<close>, \<open>timer.rs\<close>) and \<open>Paths\<close> (\<open>connection/pacing.rs\<close>, \<open>paths.rs\<close>).

  \<^bold>\<open>Connections\<close> (\<open>connection/mod.rs\<close>, \<open>connection/packet_crypto.rs\<close>).
  \<^item> \<open>Connection\<close>: the record of a connection and the record \<open>env\<close> of what it relies on.
  \<^item> \<open>Handshaking\<close>: CRYPTO data in and out, new keys, parameters of the peer, \<open>Connection::new\<close>.
  \<^item> \<open>Recovery\<close>, \<open>Recovery_Inv\<close>: acknowledgements, loss detection and its timer. Exactly the packets are lost that the thresholds
    say; acknowledged and lost packets leave the counters of the path, which stay the sum over the packets outstanding; as long as
    ack-eliciting packets are in flight the timer runs.
  \<^item> \<open>Key_Update\<close>: header and packet protection; an authentic packet of the peer's generation of keys is opened with it, and the
    local keys follow.
  \<^item> \<open>Lifecycle\<close>: closing, every timeout, migration, authentic packets. A connection reports at most once that it is drained, and does
    so once its closing period is over.

  \<^bold>\<open>Parameters and hypotheses.\<close> Code outside the repository is an argument: ciphers, header keys and the TLS session (records of
  functions; what was sealed can be opened, and the session hands out the generations of keys in order), the Bloom filter (an inserted
  element is found), random numbers, \<open>Instant::checked_add\<close>, and the results of floating point expressions, about which nothing is
  assumed. The theorems with such a hypothesis are accompanied by an instance.

  \<^bold>\<open>Loops.\<close> Most loops are structural or have a termination proof. \<open>copy_range\<close>, \<open>write_loop\<close>, \<open>write_stream_frames\<close>, \<open>write_crypto\<close> and
  \<open>read_chunks\<close> are partial functions in which not returning is \<open>None\<close>. That the first three return is proved with the
  invariant of their buffers; the last two end only if the session stops producing data, which is outside the repository.
  There is no fuel.

  \<^bold>\<open>Not modelled.\<close> \<open>poll_transmit\<close>, \<open>populate_packet\<close> and the packet builder, which interleave the operations above with the
  layout of a datagram; \<open>process_payload\<close> and its callers, which dispatch frames to operations that are modelled; Cubic
  and the state machine of BBR, which compute in floating point; the adapters to rustls, ring and aws-lc; connection id
  generators, which are random bytes and block ciphers; the cache of tokens of a client, an LRU cache of another crate; builders of configurations;
  and the crates \<open>quac\<close>, \<open>quac-tile\<close>, \<open>quac-interface\<close>, \<open>quac-socket\<close> and their kin, which are sockets, threads and shared memory.
\<close>

end
